(* ===== verification/Prelude.thy ===== *)
theory Prelude
  imports Main "HOL-Library.Word"
begin

text \<open>
  Shared vocabulary of the development: bytes, the exceptions the program raises, the result
  monad in which fallible Python code is written, and the generic lemmas on lists, bits and
  big-endian numbers that the component theories use.  The collections \<open>codec_simps\<close> and
  \<open>res_simps\<close> gather the rewrite rules of the wire format and of the result monad.
\<close>

unbundle bit_operations_syntax

named_theorems res_simps \<open>rewrite rules of the result monad\<close>
named_theorems codec_simps \<open>rewrite rules of the wire format\<close>

section \<open>Bytes, exceptions and results\<close>

type_synonym byte = "8 word"

text \<open>
  The exceptions that can leave the modelled code: the built-in ones it raises itself or lets
  through from the standard library (\<open>StructError\<close> is \<^verbatim>\<open>struct.error\<close>), and the exception classes of
  the module.  \<open>TransportError\<close> stands for whatever exception a transport's
  \<^verbatim>\<open>receive\<close> raises, tagged by a number.
\<close>

datatype py_error =
    TypeError | ValueError | IndexError | KeyError | AttributeError | AssertionError
  | OverflowError | ZeroDivisionError | RuntimeError | UnicodeEncodeError | UnicodeDecodeError | StructError
  | RequestTimeoutError | RequestError | UnknownRpcIdError | UnexpectedTxnError
  | MalformedMessageError | TransportError nat

type_synonym 'a res = "py_error + 'a"

definition rbind :: "'a res \<Rightarrow> ('a \<Rightarrow> 'b res) \<Rightarrow> 'b res" where
  "rbind m f = (case m of Inl e \<Rightarrow> Inl e | Inr x \<Rightarrow> f x)"

lemma rbind_simps [simp, res_simps]:
  "rbind (Inl e) f = Inl e"
  "rbind (Inr x) f = f x"
  by (simp_all add: rbind_def)

lemma rbind_Inr_iff [res_simps]: "rbind m f = Inr y \<longleftrightarrow> (\<exists>x. m = Inr x \<and> f x = Inr y)"
  by (cases m) simp_all

lemma rbind_Inl_iff: "rbind m f = Inl e \<longleftrightarrow> m = Inl e \<or> (\<exists>x. m = Inr x \<and> f x = Inl e)"
  by (cases m) auto

lemma rbind_assoc: "rbind (rbind m f) g = rbind m (\<lambda>x. rbind (f x) g)"
  by (cases m) simp_all

lemma rbind_right [res_simps]: "rbind m Inr = m"
  by (cases m) simp_all

lemma rbind_cong [fundef_cong]:
  "m = m' \<Longrightarrow> (\<And>x. m' = Inr x \<Longrightarrow> f x = f' x) \<Longrightarrow> rbind m f = rbind m' f'"
  by (cases m') simp_all

text \<open>Results in sequence, as a comprehension that calls fallible code runs them.\<close>

primrec rmap :: "('a \<Rightarrow> 'b res) \<Rightarrow> 'a list \<Rightarrow> 'b list res" where
  "rmap f [] = Inr []"
| "rmap f (x # xs) = rbind (f x) (\<lambda>y. rbind (rmap f xs) (\<lambda>ys. Inr (y # ys)))"

lemma rmap_Inr_iff:
  "rmap f xs = Inr ys \<longleftrightarrow> list_all2 (\<lambda>x y. f x = Inr y) xs ys"
  by (induction xs arbitrary: ys) (auto simp: rbind_Inr_iff list_all2_Cons1)

lemma rmap_Inr_map: "(\<And>x. x \<in> set xs \<Longrightarrow> f x = Inr (g x)) \<Longrightarrow> rmap f xs = Inr (map g xs)"
  by (induction xs) simp_all

section \<open>Slices of byte strings\<close>

text \<open>Python's \<^verbatim>\<open>b[i:i+n]\<close> for non-negative bounds: it is clipped at the end of the object.\<close>

definition slice :: "nat \<Rightarrow> nat \<Rightarrow> 'a list \<Rightarrow> 'a list" where
  "slice i n xs = take n (drop i xs)"

lemma length_slice [simp]: "length (slice i n xs) = min n (length xs - i)"
  by (simp add: slice_def min.commute)

lemma nth_slice: "j < n \<Longrightarrow> i + j < length xs \<Longrightarrow> slice i n xs ! j = xs ! (i + j)"
  by (simp add: slice_def)

lemma slice_append_left: "i + n \<le> length xs \<Longrightarrow> slice i n (xs @ ys) = slice i n xs"
  by (simp add: slice_def)

lemma slice_take: "i + n \<le> m \<Longrightarrow> slice i n (take m xs) = slice i n xs"
  by (simp add: slice_def drop_take min_def)

lemma slice_slice: "j + m \<le> n \<Longrightarrow> slice j m (slice i n xs) = slice (i + j) m xs"
  by (simp add: slice_def drop_take min_def add.commute)

text \<open>
  Assignment to a slice of a \<^verbatim>\<open>memoryview\<close>: the right-hand side must have exactly the length
  of the (clipped) slice, otherwise \<^verbatim>\<open>ValueError\<close> is raised.
\<close>

definition slice_assign :: "'a list \<Rightarrow> nat \<Rightarrow> nat \<Rightarrow> 'a list \<Rightarrow> 'a list res" where
  "slice_assign buf i n ys =
     (if length (slice i n buf) = length ys
      then Inr (take i buf @ ys @ drop (i + length ys) buf) else Inl ValueError)"

lemma slice_assign_Inr:
  "length ys = n \<Longrightarrow> i + n \<le> length buf \<Longrightarrow>
   slice_assign buf i n ys = Inr (take i buf @ ys @ drop (i + n) buf)"
  by (simp add: slice_assign_def)

lemma slice_assign_fit:
  "length ys = n \<Longrightarrow> slice_assign buf i n ys = Inr buf' \<Longrightarrow> i + n \<le> length buf \<or> n = 0"
  by (auto simp: slice_assign_def min_def split: if_splits simp flip: length_0_conv)

lemma slice_assign_length:
  "slice_assign buf i n ys = Inr buf' \<Longrightarrow> i \<le> length buf \<Longrightarrow> length buf' = length buf"
  by (auto simp: slice_assign_def split: if_splits)

section \<open>Big-endian numbers\<close>

lemma uint_byte_of_int: "uint (word_of_int k :: byte) = k mod 256"
  by (simp only: uint_word_of_int) simp

lemma uint_byte_lt: "uint (b :: byte) < 256"
  using uint_bounded [of b] by simp

lemma byte_of_int_eq: "0 \<le> k \<Longrightarrow> k < 256 \<Longrightarrow> uint (word_of_int k :: byte) = k"
  by (simp only: uint_byte_of_int) simp

fun be_encode :: "nat \<Rightarrow> int \<Rightarrow> byte list" where
  "be_encode 0 v = []"
| "be_encode (Suc n) v = be_encode n (v div 256) @ [word_of_int v]"

definition be_decode :: "byte list \<Rightarrow> int" where
  "be_decode bs = foldl (\<lambda>a b. a * 256 + uint b) 0 bs"

lemma length_be_encode [simp, codec_simps]: "length (be_encode n v) = n"
  by (induction n arbitrary: v) simp_all

lemma be_decode_Nil [simp]: "be_decode [] = 0"
  by (simp add: be_decode_def)

lemma be_decode_snoc [simp]: "be_decode (bs @ [b]) = be_decode bs * 256 + uint b"
  by (simp add: be_decode_def)

lemma be_decode_encode: "be_decode (be_encode n v) = v mod 256 ^ n"
proof (induction n arbitrary: v)
  case (Suc n)
  have "be_decode (be_encode (Suc n) v) = (v div 256 mod 256 ^ n) * 256 + v mod 256"
    by (simp add: Suc.IH uint_byte_of_int)
  also have "\<dots> = v mod 256 ^ Suc n"
    by (simp add: zmod_zmult2_eq)
  finally show ?case .
qed simp

lemma be_decode_encode_id [codec_simps]:
  "0 \<le> v \<Longrightarrow> v < 256 ^ n \<Longrightarrow> be_decode (be_encode n v) = v"
  by (simp add: be_decode_encode)

lemma be_decode_bounds: "0 \<le> be_decode bs \<and> be_decode bs < 256 ^ length bs"
proof (induction bs rule: rev_induct)
  case (snoc b bs)
  have "uint b < 256" by (rule uint_byte_lt)
  with snoc have "be_decode bs * 256 + uint b < (256 ^ length bs) * 256"
    by linarith
  with snoc show ?case by (simp add: mult.commute)
qed simp

lemma be_encode_decode: "be_encode (length bs) (be_decode bs) = bs"
proof (induction bs rule: rev_induct)
  case (snoc b bs)
  have b: "0 \<le> uint b" "uint b < 256" using uint_bounded [of b] by simp_all
  then have "(be_decode bs * 256 + uint b) div 256 = be_decode bs"
    by simp
  moreover have "word_of_int (be_decode bs * 256 + uint b) = b"
    using b by (intro word_uint_eqI) (simp only: uint_byte_of_int, simp)
  ultimately show ?case using snoc by simp
qed simp

end
