(* ===== verification/Names.thy ===== *)
theory Names
  imports Prelude
begin

text \<open>
  The text helpers of the code generators: the indenting string buffer \<^verbatim>\<open>_String\<close> and the
  conversions between naming styles.  Names are identifiers in ASCII.
\<close>

section \<open>Characters\<close>

definition islower :: "char \<Rightarrow> bool" where
  "islower c = (97 \<le> (of_char c :: nat) \<and> (of_char c :: nat) \<le> 122)"

definition isupper :: "char \<Rightarrow> bool" where
  "isupper c = (65 \<le> (of_char c :: nat) \<and> (of_char c :: nat) \<le> 90)"

definition isdigit :: "char \<Rightarrow> bool" where
  "isdigit c = (48 \<le> (of_char c :: nat) \<and> (of_char c :: nat) \<le> 57)"

definition isspace :: "char \<Rightarrow> bool" where
  "isspace c = (let n = (of_char c :: nat) in 9 \<le> n \<and> n \<le> 13 \<or> 28 \<le> n \<and> n \<le> 32)"

definition to_upper :: "char \<Rightarrow> char" where
  "to_upper c = (if islower c then char_of ((of_char c :: nat) - 32) else c)"

definition to_lower :: "char \<Rightarrow> char" where
  "to_lower c = (if isupper c then char_of ((of_char c :: nat) + 32) else c)"

definition upper :: "string \<Rightarrow> string" where "upper s = map to_upper s"
definition lower :: "string \<Rightarrow> string" where "lower s = map to_lower s"

section \<open>Naming styles\<close>

definition scase :: "string \<Rightarrow> bool \<Rightarrow> string" where
  "scase arg to_up =
     (case arg of
        [] \<Rightarrow> []
      | a # as \<Rightarrow>
          let out = a # concat (map (\<lambda>c. if islower c then [c] else ''_'' @ [c]) as)
          in if to_up then upper out else lower out)"

text \<open>\<^verbatim>\<open>arg.split("_")\<close>\<close>

fun split_us :: "string \<Rightarrow> string list" where
  "split_us [] = [[]]"
| "split_us (c # cs) =
     (if c = CHR ''_'' then [] # split_us cs
      else case split_us cs of p # ps \<Rightarrow> (c # p) # ps | [] \<Rightarrow> [[c]])"

text \<open>
  The loop over the parts.  \<^verbatim>\<open>part_next[0]\<close> raises for an empty next part, but is only evaluated
  when the part ends in a digit.
\<close>

fun pcase_loop :: "string list \<Rightarrow> string res" where
  "pcase_loop [] = Inr []"
| "pcase_loop (part # parts) =
     (if part = [] \<or> list_all isspace part then pcase_loop parts
      else
        let part_next = (case parts of [] \<Rightarrow> '' '' | p # _ \<Rightarrow> p);
            word = (if length part > 1 then to_upper (hd part) # lower (tl part) else [to_upper (hd part)])
        in if isdigit (last part) \<and> part_next = [] then Inl IndexError
           else rbind (pcase_loop parts) (\<lambda>out.
             Inr (word @ (if isdigit (last part) \<and> isdigit (hd part_next) then ''_'' else []) @ out)))"

definition pcase :: "string \<Rightarrow> string res" where
  "pcase arg = (if arg = [] then Inr arg else pcase_loop (split_us arg))"

definition ccase :: "string \<Rightarrow> string res" where
  "ccase arg =
     (if arg = [] then Inr arg
      else rbind (pcase arg) (\<lambda>out.
        case out of [] \<Rightarrow> Inl IndexError | c # cs \<Rightarrow> Inr (to_lower c # cs)))"

section \<open>The string buffer\<close>

record strbuf =
  indent :: nat
  str :: string

definition String_new :: "string \<Rightarrow> nat \<Rightarrow> strbuf" where
  "String_new val i = \<lparr>indent = i, str = val\<rparr>"

definition String_plus :: "strbuf \<Rightarrow> string \<Rightarrow> strbuf" where
  "String_plus s other = String_new (str s @ other) (indent s)"

definition indent_inc :: "strbuf \<Rightarrow> strbuf" where
  "indent_inc s = s\<lparr>indent := indent s + 1\<rparr>"

text \<open>The indentation does not become negative.\<close>

definition indent_dec :: "strbuf \<Rightarrow> strbuf" where
  "indent_dec s = s\<lparr>indent := indent s - 1\<rparr>"

definition add_line :: "strbuf \<Rightarrow> string \<Rightarrow> strbuf" where
  "add_line s line = s\<lparr>str := str s @ concat (replicate (indent s) ''    '') @ line @ ''\<newline>''\<rparr>"

definition add_lines :: "strbuf \<Rightarrow> string list \<Rightarrow> strbuf" where
  "add_lines s ls = foldl add_line s ls"

section \<open>From CamelCase to snake_case and back\<close>

definition isalpha :: "char \<Rightarrow> bool" where
  "isalpha c = (isupper c \<or> islower c)"

lemma of_char_char_of_small: "n < 256 \<Longrightarrow> (of_char (char_of (n :: nat)) :: nat) = n"
  by (simp add: of_char_of)

lemma case_chars:
  "islower c \<Longrightarrow> to_lower c = c" "isupper c \<Longrightarrow> islower (to_lower c)"
  "isupper c \<Longrightarrow> to_upper (to_lower c) = c" "isupper c \<Longrightarrow> \<not> islower c"
  by (auto simp: islower_def isupper_def to_lower_def to_upper_def of_char_char_of_small)

lemma lower_lower: "islower (to_lower c) \<or> to_lower c = c"
  using case_chars by (auto simp: to_lower_def)

lemma lower_not_special:
  "islower c \<Longrightarrow> c \<noteq> CHR ''_'' \<and> \<not> isdigit c \<and> \<not> isspace c"
  by (auto simp: islower_def isdigit_def isspace_def Let_def)

text \<open>A name of lower-case words, each behind an underscore but the first, read word by word.\<close>

lemma split_us_lower:
  "list_all islower w \<Longrightarrow> split_us (w @ CHR ''_'' # s) = w # split_us s"
  "list_all islower w \<Longrightarrow> split_us w = [w]"
  by (induction w) (auto dest: lower_not_special)

lemma lower_id: "list_all islower w \<Longrightarrow> lower w = w"
  by (induction w) (simp_all add: lower_def case_chars)

lemma pcase_word:
  assumes "isupper c" and "list_all islower w"
  shows "pcase_loop ((to_lower c # w) # parts) = rbind (pcase_loop parts) (\<lambda>out. Inr (c # w @ out))"
proof -
  have lc: "islower (to_lower c)" using assms(1) by (rule case_chars)
  then have "islower (last (to_lower c # w))" using assms(2) by (auto simp: list_all_iff)
  then have "\<not> isdigit (last (to_lower c # w))" using lower_not_special by blast
  moreover have "\<not> list_all isspace (to_lower c # w)" using lower_not_special [OF lc] by simp
  moreover have "to_upper (to_lower c) = c" using assms(1) by (rule case_chars)
  ultimately show ?thesis using lower_id [OF assms(2)] lower_not_special [OF lc] by (simp add: Let_def)
qed

lemma pcase_scase_loop:
  assumes "isupper c" and "list_all islower w" and "list_all isalpha cs"
  shows "pcase_loop (split_us (to_lower c # w @ lower (concat (map (\<lambda>c. if islower c then [c] else ''_'' @ [c]) cs)))) =
    Inr (c # w @ cs)"
  using assms
proof (induction cs arbitrary: c w)
  case Nil
  then have "list_all islower (to_lower c # w)" by (simp add: case_chars)
  then show ?case using Nil by (simp add: lower_def split_us_lower(2) pcase_word del: split_us.simps pcase_loop.simps(2))
next
  case (Cons d ds)
  show ?case
  proof (cases "islower d")
    case True
    then show ?thesis using Cons.IH [of c "w @ [d]"] Cons.prems by (simp add: lower_def case_chars)
  next
    case False
    then have d: "isupper d" using Cons.prems(3) by (simp add: isalpha_def)
    have w: "list_all islower (to_lower c # w)" using Cons.prems(1,2) by (simp add: case_chars)
    have us: "to_lower CHR ''_'' = CHR ''_''" by code_simp
    show ?thesis
      using Cons.IH [OF d, of "[]"] Cons.prems False split_us_lower(1) [OF w]
      by (simp add: lower_def us pcase_word del: split_us.simps pcase_loop.simps(2))
  qed
qed

text \<open>
  Converting a CamelCase name of letters to snake_case and back to PascalCase gives the name.
\<close>

lemma camel_case_roundtrip:
  assumes "isupper c" and "list_all isalpha cs"
  shows "pcase (scase (c # cs) False) = Inr (c # cs)"
  using pcase_scase_loop [OF assms(1) _ assms(2), of "[]"]
  by (simp add: scase_def pcase_def lower_def del: split_us.simps)

text \<open>
  A name whose last part ends in a digit and is followed by an underscore at the end, or by
  two underscores, has no conversion to PascalCase: an \<^verbatim>\<open>IndexError\<close> is raised.
\<close>

lemma split_us_append:
  "CHR ''_'' \<notin> set w \<Longrightarrow> split_us (w @ CHR ''_'' # s) = w # split_us s"
  by (induction w) auto

lemma pcase_digit_underscore:
  assumes "CHR ''_'' \<notin> set w" and "isdigit d" and "s = [] \<or> hd s = CHR ''_''"
  shows "pcase (w @ d # CHR ''_'' # s) = Inl IndexError"
proof -
  have d: "d \<noteq> CHR ''_''" "\<not> isspace d" using assms(2) by (auto simp: isdigit_def isspace_def Let_def)
  then have "split_us ((w @ [d]) @ CHR ''_'' # s) = (w @ [d]) # split_us s"
    using assms(1) by (intro split_us_append) auto
  moreover have "\<exists>ps. split_us s = [] # ps" using assms(3) by (cases s) auto
  ultimately show ?thesis using d assms(2) by (auto simp: pcase_def list_all_iff)
qed

end
