(* ===== verification/Floats.thy ===== *)
theory Floats
  imports Prelude
begin

text \<open>
  The floating-point part of the \<^verbatim>\<open>struct\<close> module that the codec relies on.  A Python float is
  its IEEE 754 binary64 bit pattern.  Format \<^verbatim>\<open>>d\<close> writes that pattern; format \<^verbatim>\<open>>f\<close>
  rounds it to binary32 (to nearest, ties to even, \<^verbatim>\<open>OverflowError\<close> when a finite value
  becomes infinite) and reading widens it again, which is exact.  A magnitude is encoded by
  one function for both formats, \<open>fp_bits\<close>, over a precision and the exponent of the smallest
  subnormal; the sign is kept apart.
\<close>

type_synonym pyfloat = "64 word"

section \<open>Rounding to a binary format\<close>

fun bit_length :: "nat \<Rightarrow> nat" where
  "bit_length n = (if n = 0 then 0 else Suc (bit_length (n div 2)))"

declare bit_length.simps [simp del]

lemma bit_length_0 [simp]: "bit_length 0 = 0"
  by (simp add: bit_length.simps)

lemma bit_length_pos: "0 < n \<Longrightarrow> bit_length n = Suc (bit_length (n div 2))"
  by (simp add: bit_length.simps)

lemma bit_length_bounds: "0 < n \<Longrightarrow> 2 ^ (bit_length n - 1) \<le> n \<and> n < 2 ^ bit_length n"
proof (induction n rule: bit_length.induct)
  case (1 n)
  show ?case
  proof (cases "n div 2 = 0")
    case True
    with "1.prems" have "n = 1" by auto
    then show ?thesis by (simp add: bit_length_pos)
  next
    case False
    with 1 have IH: "2 ^ (bit_length (n div 2) - 1) \<le> n div 2" "n div 2 < 2 ^ bit_length (n div 2)"
      by auto
    have "bit_length (n div 2) = Suc (bit_length (n div 2) - 1)"
      using False by (simp add: bit_length_pos)
    then have "2 * 2 ^ (bit_length (n div 2) - 1) = (2::nat) ^ bit_length (n div 2)"
      by (metis power_Suc)
    with IH show ?thesis by (auto simp: bit_length_pos [OF "1.prems"])
  qed
qed

lemma bit_length_unique:
  assumes "2 ^ k \<le> n" and "n < 2 ^ Suc k"
  shows "bit_length n = Suc k"
proof -
  have n: "0 < n" using assms(1) by (meson less_le_trans zero_less_numeral zero_less_power)
  note b = bit_length_bounds [OF n]
  have "k < bit_length n"
    using assms(1) b by (meson le_less_trans less_numeral_extra power_less_imp_less_exp one_less_numeral_iff semiring_norm(76))
  moreover have "bit_length n - 1 < Suc k"
    using assms(2) b by (meson le_less_trans power_less_imp_less_exp one_less_numeral_iff semiring_norm(76))
  ultimately show ?thesis by simp
qed

lemma bit_length_mult_power:
  assumes "0 < n" shows "bit_length (n * 2 ^ k) = bit_length n + k"
proof -
  obtain j where j: "bit_length n = Suc j"
    using assms by (simp add: bit_length_pos)
  with bit_length_bounds [OF assms] have "2 ^ j \<le> n" "n < 2 ^ Suc j" by simp_all
  then have "2 ^ (j + k) \<le> n * 2 ^ k" "n * 2 ^ k < 2 ^ Suc (j + k)"
    by (simp_all add: power_add)
  then show ?thesis using j by (simp add: bit_length_unique)
qed

text \<open>Division by a power of two, rounded to nearest with ties to even.\<close>

definition round_half_even :: "nat \<Rightarrow> nat \<Rightarrow> nat" where
  "round_half_even m k =
     (let d = m div 2 ^ k; r = m mod 2 ^ k in
      if 2 * r < 2 ^ k then d
      else if 2 * r = 2 ^ k \<and> even d then d
      else d + 1)"

lemma round_half_even_exact [simp]: "round_half_even (m * 2 ^ k) k = m"
  by (simp add: round_half_even_def)

lemma round_half_even_shift:
  "round_half_even (m * 2 ^ j) (k + j) = round_half_even m k"
proof -
  have 1: "m * 2 ^ j div 2 ^ (k + j) = m div 2 ^ k"
    by (simp add: power_add div_mult2_eq mult.commute [of "2 ^ k"])
  have 2: "m * 2 ^ j mod 2 ^ (k + j) = (m mod 2 ^ k) * 2 ^ j"
    by (simp add: power_add mult_mod_left)
  have 3: "2 * ((m mod 2 ^ k) * 2 ^ j) < 2 ^ (k + j) \<longleftrightarrow> 2 * (m mod 2 ^ k) < 2 ^ k"
          "2 * ((m mod 2 ^ k) * 2 ^ j) = 2 ^ (k + j) \<longleftrightarrow> 2 * (m mod 2 ^ k) = 2 ^ k"
    by (simp_all add: power_add flip: mult.assoc)
  show ?thesis unfolding round_half_even_def Let_def 1 2 3 ..
qed

text \<open>
  The bit pattern (without sign) of the value \<open>m \<cdot> 2\<^sup>e\<close> in the format with precision \<open>p\<close> and
  smallest exponent \<open>qmin\<close>.  The result is not cut at infinity: a value that rounds out of
  range gives a pattern at or above the one of infinity.
\<close>

definition fp_bits :: "nat \<Rightarrow> int \<Rightarrow> nat \<Rightarrow> int \<Rightarrow> nat" where
  "fp_bits p qmin m e =
     (if m = 0 then 0
      else let q = max (e + int (bit_length m) - int p) qmin;
               n = (if q \<le> e then m * 2 ^ nat (e - q) else round_half_even m (nat (q - e)))
           in nat (q - qmin) * 2 ^ (p - 1) + n)"

definition fp_decode :: "nat \<Rightarrow> int \<Rightarrow> nat \<Rightarrow> nat \<times> int" where
  "fp_decode p qmin b =
     (let e = b div 2 ^ (p - 1); m = b mod 2 ^ (p - 1) in
      if e = 0 then (m, qmin) else (m + 2 ^ (p - 1), qmin + int e - 1))"

lemma fp_bits_scale:
  assumes "0 < m" shows "fp_bits p qmin (m * 2 ^ j) (e - int j) = fp_bits p qmin m e"
proof -
  define q where "q = max (e + int (bit_length m) - int p) qmin"
  have q: "max (e - int j + int (bit_length (m * 2 ^ j)) - int p) qmin = q"
    using assms by (simp add: bit_length_mult_power q_def)
  have n: "(if q \<le> e - int j then m * 2 ^ j * 2 ^ nat (e - int j - q)
            else round_half_even (m * 2 ^ j) (nat (q - (e - int j)))) =
           (if q \<le> e then m * 2 ^ nat (e - q) else round_half_even m (nat (q - e)))"
  proof -
    consider "q \<le> e - int j" | "e - int j < q" "q \<le> e" | "e < q" by linarith
    then show ?thesis
    proof cases
      case 1
      then have "nat (e - q) = j + nat (e - int j - q)" by linarith
      with 1 show ?thesis by (simp add: power_add)
    next
      case 2
      define k where "k = nat (q - (e - int j))"
      have j: "j = nat (e - q) + k" using 2 unfolding k_def by linarith
      have "round_half_even (m * 2 ^ j) k = m * 2 ^ nat (e - q)"
        by (subst j) (simp add: power_add flip: mult.assoc)
      with 2 show ?thesis unfolding k_def by simp
    next
      case 3
      then have "nat (q - (e - int j)) = nat (q - e) + j" by linarith
      with 3 show ?thesis by (simp add: round_half_even_shift)
    qed
  qed
  show ?thesis using assms unfolding fp_bits_def q q_def [symmetric] n by (simp add: Let_def n)
qed

lemma fp_bits_decode:
  assumes "1 < p" shows "case fp_decode p qmin b of (m, e) \<Rightarrow> fp_bits p qmin m e = b"
proof -
  define e m where "e = b div 2 ^ (p - 1)" and "m = b mod 2 ^ (p - 1)"
  have b: "b = e * 2 ^ (p - 1) + m" by (simp only: e_def m_def div_mult_mod_eq)
  have m: "m < 2 ^ (p - 1)" by (simp add: m_def)
  have dec: "fp_decode p qmin b =
      (if e = 0 then (m, qmin) else (m + 2 ^ (p - 1), qmin + int e - 1))"
    by (simp add: fp_decode_def Let_def e_def m_def)
  obtain p' where p: "p = Suc p'" using assms by (cases p) auto
  show ?thesis
  proof (cases "e = 0")
    case True
    have "bit_length m \<le> p'" if "0 < m"
    proof -
      have "(2::nat) ^ (bit_length m - 1) < 2 ^ p'"
        using conjunct1 [OF bit_length_bounds [OF that]] m [unfolded p, simplified]
        by (rule le_less_trans)
      then have "bit_length m - 1 < p'" by simp
      then show ?thesis by simp
    qed
    then have "max (qmin + int (bit_length m) - int p) qmin = qmin" if "0 < m"
      using that p by simp
    then have "fp_bits p qmin m qmin = m"
      by (cases "m = 0") (simp_all add: fp_bits_def)
    moreover have "b = m" using b True by simp
    ultimately show ?thesis using True unfolding dec by simp
  next
    case False
    have len: "bit_length (m + 2 ^ p') = p"
      using m unfolding p by (intro bit_length_unique) simp_all
    have "fp_bits p qmin (m + 2 ^ p') (qmin + int e - 1) = nat (int e - 1) * 2 ^ p' + (m + 2 ^ p')"
      using False by (simp add: fp_bits_def len Let_def max_def p)
    also have "\<dots> = e * 2 ^ p' + m"
      using False by (cases e) simp_all
    finally have "fp_bits p qmin (m + 2 ^ (p - 1)) (qmin + int e - 1) = b"
      using b p by simp
    then show ?thesis
      using False unfolding dec by simp
  qed
qed


section \<open>The formats \<^verbatim>\<open>>d\<close> and \<^verbatim>\<open>>f\<close>\<close>

text \<open>Sign and magnitude of a binary64 pattern; the patterns of infinity.\<close>

definition f64_sign :: "pyfloat \<Rightarrow> bool" where
  "f64_sign x = (2 ^ 63 \<le> unat x)"

definition f64_mag :: "pyfloat \<Rightarrow> nat" where
  "f64_mag x = unat x mod 2 ^ 63"

definition f64_inf :: nat where
  "f64_inf = 2047 * 2 ^ 52"

definition f32_inf :: nat where
  "f32_inf = 255 * 2 ^ 23"

definition f64_make :: "bool \<Rightarrow> nat \<Rightarrow> pyfloat" where
  "f64_make s m = of_nat ((if s then 2 ^ 63 else 0) + m)"

definition is_nan :: "pyfloat \<Rightarrow> bool" where
  "is_nan x = (f64_inf < f64_mag x)"

text \<open>
  The C conversion \<^verbatim>\<open>(float) x\<close> on magnitudes, and its inverse direction.  A NaN keeps the
  upper bits of its payload and becomes quiet.
\<close>

definition f32_narrow_mag :: "nat \<Rightarrow> nat res" where
  "f32_narrow_mag m =
     (if f64_inf < m then Inr (f32_inf + ((m mod 2 ^ 52) div 2 ^ 29 mod 2 ^ 22 + 2 ^ 22))
      else if m = f64_inf then Inr f32_inf
      else case fp_decode 53 (-1074) m of (n, e) \<Rightarrow>
        let r = fp_bits 24 (-149) n e in
        if f32_inf \<le> r then Inl OverflowError else Inr r)"

definition f32_widen_mag :: "nat \<Rightarrow> nat" where
  "f32_widen_mag m =
     (if f32_inf < m then f64_inf + (m mod 2 ^ 22 + 2 ^ 22) * 2 ^ 29
      else if m = f32_inf then f64_inf
      else case fp_decode 24 (-149) m of (n, e) \<Rightarrow> fp_bits 53 (-1074) n e)"

definition pack_f64 :: "pyfloat \<Rightarrow> byte list" where
  "pack_f64 x = be_encode 8 (uint x)"

definition unpack_f64 :: "byte list \<Rightarrow> pyfloat" where
  "unpack_f64 bs = word_of_int (be_decode bs)"

definition pack_f32 :: "pyfloat \<Rightarrow> byte list res" where
  "pack_f32 x =
     rbind (f32_narrow_mag (f64_mag x)) (\<lambda>m.
       Inr (be_encode 4 (int ((if f64_sign x then 2 ^ 31 else 0) + m))))"

definition unpack_f32 :: "byte list \<Rightarrow> pyfloat" where
  "unpack_f32 bs =
     (let b = nat (be_decode bs) in f64_make (2 ^ 31 \<le> b) (f32_widen_mag (b mod 2 ^ 31)))"

text \<open>The conversion of a Python integer to a float: \<open>None\<close> when it is too large.\<close>

definition float_of_int :: "int \<Rightarrow> pyfloat option" where
  "float_of_int i =
     (let r = fp_bits 53 (-1074) (nat \<bar>i\<bar>) 0 in
      if f64_inf \<le> r then None else Some (f64_make (i < 0) r))"

text \<open>
  The floats that a binary32 value can carry: the widened patterns that are not NaN.
\<close>

definition f32_representable :: "pyfloat \<Rightarrow> bool" where
  "f32_representable x =
     (case f32_narrow_mag (f64_mag x) of
        Inl _ \<Rightarrow> False
      | Inr m \<Rightarrow> \<not> is_nan x \<and> f32_widen_mag m = f64_mag x)"

lemma f64_make_sign_mag: "f64_make (f64_sign x) (f64_mag x) = x"
proof -
  have x: "unat x < 2 ^ 64" using unsigned_less [of x] by simp
  have "(if f64_sign x then 2 ^ 63 else 0) + f64_mag x = unat x"
  proof (cases "2 ^ 63 \<le> unat x")
    case True
    with x have "unat x mod 2 ^ 63 = unat x - 2 ^ 63" by (subst le_mod_geq) simp_all
    with True show ?thesis by (simp add: f64_sign_def f64_mag_def)
  next
    case False
    then show ?thesis by (simp add: f64_sign_def f64_mag_def)
  qed
  then show ?thesis by (simp add: f64_make_def)
qed

lemma f64_roundtrip [codec_simps]: "unpack_f64 (pack_f64 x) = x"
proof -
  have "uint x < 256 ^ 8" using uint_bounded [of x] by simp
  then show ?thesis by (simp add: unpack_f64_def pack_f64_def be_decode_encode_id)
qed

lemma length_pack_f64 [simp]: "length (pack_f64 x) = 8"
  by (simp add: pack_f64_def)

lemma length_pack_f32: "pack_f32 x = Inr bs \<Longrightarrow> length bs = 4"
  by (auto simp: pack_f32_def rbind_Inr_iff)

lemma f32_narrow_bound: "f32_narrow_mag m = Inr r \<Longrightarrow> r < 2 ^ 31"
proof -
  assume r: "f32_narrow_mag m = Inr r"
  have nan: "f32_inf + (k mod 2 ^ 22 + 2 ^ 22) < 2 ^ 31" for k :: nat
    using mod_less_divisor [of "2 ^ 22" k] by (simp add: f32_inf_def)
  from r show ?thesis
    by (auto simp: f32_narrow_mag_def Let_def nan f32_inf_def split: if_splits prod.splits)
qed

lemma f32_roundtrip:
  assumes "f32_representable x"
  shows "\<exists>bs. pack_f32 x = Inr bs \<and> unpack_f32 bs = x"
proof -
  obtain m where m: "f32_narrow_mag (f64_mag x) = Inr m" and w: "f32_widen_mag m = f64_mag x"
    using assms by (auto simp: f32_representable_def split: sum.splits)
  have lt: "m < 2 ^ 31" using m by (rule f32_narrow_bound)
  let ?b = "(if f64_sign x then 2 ^ 31 else 0) + m"
  have "int ?b < 256 ^ 4" using lt by simp
  then have "be_decode (be_encode 4 (int ?b)) = int ?b"
    by (intro be_decode_encode_id) simp_all
  moreover have "2 ^ 31 \<le> ?b \<longleftrightarrow> f64_sign x" "?b mod 2 ^ 31 = m"
    using lt by (simp_all add: mod_add_left_eq)
  ultimately have "unpack_f32 (be_encode 4 (int ?b)) = x"
    unfolding unpack_f32_def Let_def by (simp only: nat_int w f64_make_sign_mag)
  then show ?thesis by (simp add: pack_f32_def m)
qed

text \<open>Every finite or infinite binary32 magnitude widens to a float that narrows back to it.\<close>

lemma f32_widen_narrow:
  assumes "m \<le> f32_inf"
  shows "f32_narrow_mag (f32_widen_mag m) = Inr m"
proof (cases "m = f32_inf")
  case True
  then show ?thesis by (simp add: f32_widen_mag_def f32_narrow_mag_def f64_inf_def)
next
  case False
  obtain n e where d: "fp_decode 24 (-149) m = (n, e)" by fastforce
  from fp_bits_decode [of 24 "-149" m] d have inv: "fp_bits 24 (-149) n e = m" by simp
  have w: "f32_widen_mag m = fp_bits 53 (-1074) n e"
    using False assms d by (simp add: f32_widen_mag_def)
  have e: "- 149 \<le> e" "e \<le> 104" and n: "n < 2 ^ 24"
  proof -
    have "m div 2 ^ 23 \<le> 254" using False assms by (simp add: f32_inf_def)
    moreover have "m mod 2 ^ 23 < 2 ^ 23" by simp
    ultimately show "-149 \<le> e" "e \<le> 104" "n < 2 ^ 24"
      using d by (auto simp: fp_decode_def Let_def split: if_splits)
  qed
  show ?thesis
  proof (cases "n = 0")
    case True
    then have "m = 0" using inv by (simp add: fp_bits_def)
    with True w show ?thesis
      by (simp add: f32_narrow_mag_def f64_inf_def fp_bits_def fp_decode_def f32_inf_def)
  next
    case False
    note bl = bit_length_bounds [of n]
    have len: "bit_length n \<le> 24" "0 < bit_length n"
    proof -
      have "(2::nat) ^ (bit_length n - 1) < 2 ^ 24"
        using conjunct1 [OF bl] False n by (meson le_less_trans gr0I)
      then have "bit_length n - 1 < 24"
        by (rule power_less_imp_less_exp [rotated]) simp
      then show "bit_length n \<le> 24" by simp
      show "0 < bit_length n" using False by (simp add: bit_length_pos)
    qed
    define j where "j = 53 - bit_length n"
    have j: "bit_length n + j = 53" using len by (simp add: j_def)
    have N: "2 ^ 52 \<le> n * 2 ^ j" "n * 2 ^ j < 2 ^ 53"
    proof -
      have "bit_length (n * 2 ^ j) = 53" using False j by (simp add: bit_length_mult_power)
      then show "2 ^ 52 \<le> n * 2 ^ j" "n * 2 ^ j < 2 ^ 53"
        using bit_length_bounds [of "n * 2 ^ j"] False by simp_all
    qed
    define q where "q = nat (e - int j + 1074)"
    have q: "int q = e - int j + 1074" "1 \<le> q" "q < 2045" using e j by (simp_all add: q_def)
    have wide: "fp_bits 53 (-1074) n e = q * 2 ^ 52 + n * 2 ^ j"
    proof -
      have "max (e + int (bit_length n) - int 53) (- 1074) = e - int j"
        using e j by simp
      then show ?thesis using False by (simp add: fp_bits_def Let_def q_def)
    qed
    have dec: "fp_decode 53 (-1074) (q * 2 ^ 52 + n * 2 ^ j) = (n * 2 ^ j, e - int j)"
    proof -
      define r where "r = n * 2 ^ j - 2 ^ 52"
      have r: "n * 2 ^ j = 2 ^ 52 + r" "r < 2 ^ 52" using N by (simp_all add: r_def)
      have "q * 2 ^ 52 + n * 2 ^ j = (q + 1) * 2 ^ 52 + r" by (simp add: r(1))
      moreover have "((q + 1) * 2 ^ 52 + r) div 2 ^ 52 = q + 1"
        and "((q + 1) * 2 ^ 52 + r) mod 2 ^ 52 = r"
        using r(2) by (simp_all only: div_mult_self3 mod_mult_self3 div_less mod_less)
      ultimately show ?thesis
        using q r(1) by (simp add: fp_decode_def Let_def)
    qed
    have small: "q * 2 ^ 52 + n * 2 ^ j < f64_inf"
    proof -
      have "q * 2 ^ 52 \<le> 2044 * 2 ^ 52" using q(3) by simp
      with N(2) show ?thesis by (simp add: f64_inf_def)
    qed
    have "fp_bits 24 (-149) (n * 2 ^ j) (e - int j) = m"
      using False inv by (simp add: fp_bits_scale)
    then show ?thesis
      using small assms \<open>m \<noteq> f32_inf\<close> unfolding f32_narrow_mag_def w wide dec by simp
  qed
qed

end
