(* ===== verification/Utf8.thy ===== *)
theory Utf8
  imports Prelude
begin

text \<open>
  The UTF-8 codec behind \<^verbatim>\<open>str.encode\<close> and \<^verbatim>\<open>bytes.decode\<close> with the default strict error
  handler.  A Python string is its list of code points.  Encoding fails on surrogates;
  decoding fails on a stray or missing continuation byte, on an overlong form, on a
  surrogate and above \<open>0x10FFFF\<close>.
\<close>

type_synonym pystr = "nat list"

definition utf8_encode_char :: "nat \<Rightarrow> byte list res" where
  "utf8_encode_char c =
     (if c < 0x80 then Inr [of_nat c]
      else if c < 0x800 then Inr [of_nat (0xC0 + c div 64), of_nat (0x80 + c mod 64)]
      else if 0xD800 \<le> c \<and> c < 0xE000 then Inl UnicodeEncodeError
      else if c < 0x10000 then
        Inr [of_nat (0xE0 + c div 4096), of_nat (0x80 + c div 64 mod 64), of_nat (0x80 + c mod 64)]
      else if c < 0x110000 then
        Inr [of_nat (0xF0 + c div 262144), of_nat (0x80 + c div 4096 mod 64),
             of_nat (0x80 + c div 64 mod 64), of_nat (0x80 + c mod 64)]
      else Inl ValueError)"

definition str_encode :: "pystr \<Rightarrow> byte list res" where
  "str_encode s = rbind (rmap utf8_encode_char s) (\<lambda>bss. Inr (concat bss))"

text \<open>A continuation byte and its six payload bits.\<close>

definition is_cont :: "byte \<Rightarrow> bool" where
  "is_cont b = (0x80 \<le> unat b \<and> unat b < 0xC0)"

definition cont_bits :: "byte \<Rightarrow> nat" where
  "cont_bits b = unat b - 0x80"

text \<open>One character off the front of a byte string.\<close>

definition utf8_decode_char :: "byte list \<Rightarrow> (nat \<times> byte list) res" where
  "utf8_decode_char bs =
     (case bs of [] \<Rightarrow> Inl UnicodeDecodeError
      | b # r \<Rightarrow>
        (let x = unat b in
         if x < 0x80 then Inr (x, r)
         else if x < 0xC2 then Inl UnicodeDecodeError
         else if x < 0xE0 then
           (case r of b1 # r1 \<Rightarrow>
              if is_cont b1 then Inr ((x - 0xC0) * 64 + cont_bits b1, r1)
              else Inl UnicodeDecodeError
            | _ \<Rightarrow> Inl UnicodeDecodeError)
         else if x < 0xF0 then
           (case r of b1 # b2 # r2 \<Rightarrow>
              (let c = (x - 0xE0) * 4096 + cont_bits b1 * 64 + cont_bits b2 in
               if is_cont b1 \<and> is_cont b2 \<and> 0x800 \<le> c \<and> \<not> (0xD800 \<le> c \<and> c < 0xE000)
               then Inr (c, r2) else Inl UnicodeDecodeError)
            | _ \<Rightarrow> Inl UnicodeDecodeError)
         else if x < 0xF5 then
           (case r of b1 # b2 # b3 # r3 \<Rightarrow>
              (let c = (x - 0xF0) * 262144 + cont_bits b1 * 4096 + cont_bits b2 * 64 + cont_bits b3 in
               if is_cont b1 \<and> is_cont b2 \<and> is_cont b3 \<and> 0x10000 \<le> c \<and> c < 0x110000
               then Inr (c, r3) else Inl UnicodeDecodeError)
            | _ \<Rightarrow> Inl UnicodeDecodeError)
         else Inl UnicodeDecodeError))"

lemma utf8_decode_char_shorter:
  "utf8_decode_char bs = Inr (c, r) \<Longrightarrow> length r < length bs"
  by (auto simp: utf8_decode_char_def Let_def split: list.splits if_splits)

function bytes_decode :: "byte list \<Rightarrow> pystr res" where
  "bytes_decode bs =
     (if bs = [] then Inr []
      else rbind (utf8_decode_char bs) (\<lambda>p.
             rbind (bytes_decode (snd p)) (\<lambda>cs. Inr (fst p # cs))))"
  by pat_completeness auto
termination
  by (relation "measure length") (auto dest: utf8_decode_char_shorter)

declare bytes_decode.simps [simp del]

lemma bytes_decode_Nil [simp]: "bytes_decode [] = Inr []"
  by (simp add: bytes_decode.simps)

text \<open>The code points a strict UTF-8 string may hold.\<close>

definition scalar_value :: "nat \<Rightarrow> bool" where
  "scalar_value c = (c < 0x110000 \<and> \<not> (0xD800 \<le> c \<and> c < 0xE000))"

lemma unat_byte_of_nat: "n < 256 \<Longrightarrow> unat (of_nat n :: byte) = n"
  by (simp add: unat_of_nat)

lemma utf8_encode_char_total: "scalar_value c \<Longrightarrow> \<exists>bs. utf8_encode_char c = Inr bs"
  by (auto simp: utf8_encode_char_def scalar_value_def)

lemma utf8_encode_char_scalar: "utf8_encode_char c = Inr bs \<Longrightarrow> scalar_value c"
  by (auto simp: utf8_encode_char_def scalar_value_def split: if_splits)

lemma base64_digits:
  fixes c :: nat
  shows "c div 4096 * 4096 + (c div 64 mod 64) * 64 + c mod 64 = c"
    and "c div 262144 * 262144 + (c div 4096 mod 64) * 4096 + (c div 64 mod 64) * 64 + c mod 64 = c"
proof -
  have a: "c div 64 * 64 + c mod 64 = c" by simp
  have b: "c div 4096 * 64 + c div 64 mod 64 = c div 64"
    using div_mult_mod_eq [of "c div 64" 64] by (simp flip: div_mult2_eq)
  have d: "c div 262144 * 64 + c div 4096 mod 64 = c div 4096"
    using div_mult_mod_eq [of "c div 4096" 64] by (simp flip: div_mult2_eq)
  show "c div 4096 * 4096 + (c div 64 mod 64) * 64 + c mod 64 = c"
    using a b by linarith
  then show "c div 262144 * 262144 + (c div 4096 mod 64) * 4096 + (c div 64 mod 64) * 64 + c mod 64 = c"
    using d by linarith
qed

lemma utf8_char_roundtrip:
  assumes "utf8_encode_char c = Inr bs"
  shows "utf8_decode_char (bs @ r) = Inr (c, r) \<and> bs \<noteq> []"
proof -
  have c: "c < 0x110000" and s: "\<not> (0xD800 \<le> c \<and> c < 0xE000)"
    using utf8_encode_char_scalar [OF assms] by (simp_all add: scalar_value_def)
  have cont: "is_cont (of_nat (0x80 + k mod 64))" "cont_bits (of_nat (0x80 + k mod 64)) = k mod 64" for k
  proof -
    have "unat (of_nat (0x80 + k mod 64) :: byte) = 0x80 + k mod 64"
      by (rule unat_byte_of_nat) (use mod_less_divisor [of 64 k] in linarith)
    moreover have "k mod 64 < 64" by simp
    ultimately show "is_cont (of_nat (0x80 + k mod 64))"
      "cont_bits (of_nat (0x80 + k mod 64)) = k mod 64"
      unfolding is_cont_def cont_bits_def by linarith+
  qed
  consider "c < 0x80" | "0x80 \<le> c" "c < 0x800" | "0x800 \<le> c" "c < 0x10000" | "0x10000 \<le> c"
    by linarith
  then show ?thesis
  proof cases
    case 1
    with assms show ?thesis
      by (auto simp: utf8_encode_char_def utf8_decode_char_def unat_byte_of_nat)
  next
    case 2
    have h: "unat (of_nat (0xC0 + c div 64) :: byte) = 0xC0 + c div 64"
      using 2 by (intro unat_byte_of_nat) simp
    have d: "2 \<le> c div 64" "c div 64 < 32" "c div 64 * 64 + c mod 64 = c" using 2 by simp_all
    have bs: "bs = [of_nat (0xC0 + c div 64), of_nat (0x80 + c mod 64)]"
      using assms 2 by (simp add: utf8_encode_char_def)
    show ?thesis unfolding bs utf8_decode_char_def Let_def
      using d by (simp only: append_Cons append_Nil list.case h cont) simp
  next
    case 3
    have h: "unat (of_nat (0xE0 + c div 4096) :: byte) = 0xE0 + c div 4096"
      using 3 by (intro unat_byte_of_nat) simp
    have d: "c div 4096 < 16" "c div 4096 * 4096 + (c div 64 mod 64) * 64 + c mod 64 = c"
      using 3 base64_digits(1) by simp_all
    have bs: "bs = [of_nat (0xE0 + c div 4096), of_nat (0x80 + c div 64 mod 64), of_nat (0x80 + c mod 64)]"
      using assms 3 s by (simp add: utf8_encode_char_def split: if_splits)
    show ?thesis unfolding bs utf8_decode_char_def Let_def
      using d 3 s by (simp only: append_Cons append_Nil list.case h cont) simp
  next
    case 4
    have h: "unat (of_nat (0xF0 + c div 262144) :: byte) = 0xF0 + c div 262144"
      using c by (intro unat_byte_of_nat) simp
    have d: "c div 262144 < 5"
      "c div 262144 * 262144 + (c div 4096 mod 64) * 4096 + (c div 64 mod 64) * 64 + c mod 64 = c"
      using c base64_digits(2) by simp_all
    have bs: "bs = [of_nat (0xF0 + c div 262144), of_nat (0x80 + c div 4096 mod 64),
                    of_nat (0x80 + c div 64 mod 64), of_nat (0x80 + c mod 64)]"
      using assms 4 c s by (simp add: utf8_encode_char_def split: if_splits)
    show ?thesis unfolding bs utf8_decode_char_def Let_def
      using d 4 c by (simp only: append_Cons append_Nil list.case h cont) simp
  qed
qed

lemma bytes_decode_step:
  assumes "utf8_encode_char c = Inr bs"
  shows "bytes_decode (bs @ r) = rbind (bytes_decode r) (\<lambda>cs. Inr (c # cs))"
  using utf8_char_roundtrip [OF assms, of r] by (subst bytes_decode.simps) simp

lemma str_encode_Cons:
  "str_encode (c # s) = rbind (utf8_encode_char c) (\<lambda>b. rbind (str_encode s) (\<lambda>bs. Inr (b @ bs)))"
  by (cases "utf8_encode_char c"; cases "rmap utf8_encode_char s") (simp_all add: str_encode_def)

lemma utf8_roundtrip: "str_encode s = Inr bs \<Longrightarrow> bytes_decode bs = Inr s"
proof (induction s arbitrary: bs)
  case Nil
  then show ?case by (simp add: str_encode_def)
next
  case (Cons c s)
  then obtain b bs' where b: "utf8_encode_char c = Inr b" and "str_encode s = Inr bs'"
    and bs: "bs = b @ bs'"
    by (auto simp: str_encode_Cons rbind_Inr_iff)
  then have "bytes_decode bs' = Inr s" by (simp add: Cons.IH)
  with b bs show ?case by (simp add: bytes_decode_step)
qed

lemma str_encode_total: "list_all scalar_value s \<Longrightarrow> \<exists>bs. str_encode s = Inr bs"
proof (induction s)
  case Nil
  then show ?case by (simp add: str_encode_def)
next
  case (Cons c s)
  then show ?case using utf8_encode_char_total [of c] by (auto simp: str_encode_Cons)
qed

text \<open>Every string of scalar values can be encoded, and its bytes decode to it.\<close>

lemma string_roundtrip:
  assumes "list_all scalar_value s"
  shows "\<exists>bs. str_encode s = Inr bs \<and> bytes_decode bs = Inr s"
  using str_encode_total [OF assms] utf8_roundtrip by blast

end
