(* ===== verification/PyStruct.thy ===== *)
theory PyStruct
  imports Floats Utf8
begin

text \<open>
  Python values as the codec sees them, and the standard-library module \<^verbatim>\<open>struct\<close> for the
  format characters the program uses.  The interface that the payload codec relies on is the
  locale \<open>fixed_codec\<close>: an encoder of fixed width that its decoder inverts.  It is
  interpreted on \<^verbatim>\<open>struct.pack\<close> and \<^verbatim>\<open>struct.unpack\<close> for every format.
\<close>

section \<open>Values\<close>

text \<open>
  A \<open>VStruct\<close> is an instance of a dataclass, with the class name and the field values in
  order; a \<open>VEnum\<close> is a member of an enumeration class, with the class name and its integer
  value.  Both enumeration members and plain integers are \<^verbatim>\<open>int\<close> instances.
\<close>

datatype pyval =
    VInt int
  | VFloat pyfloat
  | VStr pystr
  | VBytes "byte list"
  | VList "pyval list"
  | VTuple "pyval list"
  | VStruct string "pyval list"
  | VEnum string int

fun as_index :: "pyval \<Rightarrow> int option" where
  "as_index (VInt i) = Some i"
| "as_index (VEnum _ i) = Some i"
| "as_index _ = None"

fun as_double :: "pyval \<Rightarrow> pyfloat option" where
  "as_double (VFloat x) = Some x"
| "as_double (VInt i) = float_of_int i"
| "as_double (VEnum _ i) = float_of_int i"
| "as_double _ = None"

section \<open>The struct module\<close>

datatype fmt =
    Fmt_B | Fmt_b | Fmt_H | Fmt_h | Fmt_I | Fmt_i | Fmt_Q | Fmt_q | Fmt_f | Fmt_d

fun fmt_width :: "fmt \<Rightarrow> nat" where
  "fmt_width Fmt_B = 1" | "fmt_width Fmt_b = 1"
| "fmt_width Fmt_H = 2" | "fmt_width Fmt_h = 2"
| "fmt_width Fmt_I = 4" | "fmt_width Fmt_i = 4"
| "fmt_width Fmt_Q = 8" | "fmt_width Fmt_q = 8"
| "fmt_width Fmt_f = 4" | "fmt_width Fmt_d = 8"

fun fmt_signed :: "fmt \<Rightarrow> bool" where
  "fmt_signed Fmt_b = True"
| "fmt_signed Fmt_h = True"
| "fmt_signed Fmt_i = True"
| "fmt_signed Fmt_q = True"
| "fmt_signed _ = False"

fun fmt_float :: "fmt \<Rightarrow> bool" where
  "fmt_float Fmt_f = True"
| "fmt_float Fmt_d = True"
| "fmt_float _ = False"

definition fmt_range :: "fmt \<Rightarrow> int \<Rightarrow> bool" where
  "fmt_range f i =
     (let w = 8 * fmt_width f in
      if fmt_signed f then - (2 ^ (w - 1)) \<le> i \<and> i < 2 ^ (w - 1)
      else 0 \<le> i \<and> i < 2 ^ w)"

definition struct_pack :: "fmt \<Rightarrow> pyval \<Rightarrow> byte list res" where
  "struct_pack f v =
     (if fmt_float f then
        (case as_double v of None \<Rightarrow> Inl StructError
         | Some x \<Rightarrow> if f = Fmt_f then pack_f32 x else Inr (pack_f64 x))
      else
        (case as_index v of None \<Rightarrow> Inl StructError
         | Some i \<Rightarrow> if fmt_range f i then Inr (be_encode (fmt_width f) i) else Inl StructError))"

definition sign_extend :: "nat \<Rightarrow> int \<Rightarrow> int" where
  "sign_extend w u = (if 2 ^ (w - 1) \<le> u then u - 2 ^ w else u)"

definition struct_unpack :: "fmt \<Rightarrow> byte list \<Rightarrow> pyval" where
  "struct_unpack f bs =
     (if f = Fmt_f then VFloat (unpack_f32 bs)
      else if f = Fmt_d then VFloat (unpack_f64 bs)
      else if fmt_signed f then VInt (sign_extend (8 * fmt_width f) (be_decode bs))
      else VInt (be_decode bs))"

definition unpack_from :: "fmt \<Rightarrow> byte list \<Rightarrow> nat \<Rightarrow> pyval res" where
  "unpack_from f buf off =
     (if off + fmt_width f \<le> length buf then Inr (struct_unpack f (slice off (fmt_width f) buf))
      else Inl StructError)"

text \<open>The values a format carries without loss.\<close>

fun fmt_dom :: "fmt \<Rightarrow> pyval \<Rightarrow> bool" where
  "fmt_dom f (VInt i) = (\<not> fmt_float f \<and> fmt_range f i)"
| "fmt_dom f (VFloat x) = (if f = Fmt_f then f32_representable x else f = Fmt_d)"
| "fmt_dom f _ = False"

lemma fmt_width_pos [simp]: "0 < fmt_width f"
  by (cases f) simp_all

lemma fmt_width_le [simp]: "fmt_width f \<le> 8"
  by (cases f) simp_all

lemma be_encode_mod: "be_encode n (v mod 256 ^ n) = be_encode n v"
proof (induction n arbitrary: v)
  case (Suc n)
  have 1: "v mod 256 ^ Suc n div 256 = v div 256 mod 256 ^ n"
    by (simp add: zmod_zmult2_eq)
  have 2: "(word_of_int (v mod 256 ^ Suc n) :: byte) = word_of_int v"
  proof (rule word_uint_eqI, unfold uint_byte_of_int)
    show "v mod 256 ^ Suc n mod 256 = v mod 256"
      by (simp add: mod_mod_cancel)
  qed
  show ?case by (simp only: be_encode.simps 1 2 Suc.IH)
qed simp

lemma be_decode_encode_signed:
  assumes "0 < n" and "- (2 ^ (8 * n - 1)) \<le> i" and "i < 2 ^ (8 * n - 1)"
  shows "sign_extend (8 * n) (be_decode (be_encode n i)) = i"
proof -
  have p: "(256::int) ^ n = 2 ^ (8 * n)" by (simp add: power_mult)
  have h: "(2::int) ^ (8 * n) = 2 * 2 ^ (8 * n - 1)"
    using assms(1) by (cases "8 * n") simp_all
  show ?thesis
  proof (cases "0 \<le> i")
    case True
    then have "i mod 2 ^ (8 * n) = i" using assms(3) h by simp
    with True assms(3) show ?thesis by (simp add: sign_extend_def be_decode_encode p)
  next
    case False
    have "i mod 2 ^ (8 * n) = i + 2 ^ (8 * n)"
      using False assms(2) h by (intro int_mod_pos_eq [where q = "-1"]) simp_all
    with False assms(2) h show ?thesis by (simp add: sign_extend_def be_decode_encode p)
  qed
qed

lemma struct_pack_width: "struct_pack f v = Inr bs \<Longrightarrow> length bs = fmt_width f"
  by (cases f)
     (auto simp: struct_pack_def length_pack_f32 split: option.splits if_splits)

lemma struct_pack_int:
  "\<not> fmt_float f \<Longrightarrow> as_index v = Some i \<Longrightarrow>
   struct_pack f v = (if fmt_range f i then Inr (be_encode (fmt_width f) i) else Inl StructError)"
  by (simp add: struct_pack_def)

lemma struct_int_roundtrip:
  assumes "\<not> fmt_float f" and "fmt_range f i"
  shows "struct_unpack f (be_encode (fmt_width f) i) = VInt i"
proof (cases "fmt_signed f")
  case True
  with assms show ?thesis
    by (auto simp: struct_unpack_def fmt_range_def Let_def be_decode_encode_signed)
next
  case False
  have "(256::int) ^ fmt_width f = 2 ^ (8 * fmt_width f)" by (simp add: power_mult)
  with False assms show ?thesis
    by (auto simp: struct_unpack_def fmt_range_def Let_def be_decode_encode_id)
qed

lemma struct_roundtrip:
  assumes "fmt_dom f v"
  shows "\<exists>bs. struct_pack f v = Inr bs \<and> struct_unpack f bs = v"
proof (cases v)
  case (VInt i)
  with assms show ?thesis by (simp add: struct_pack_int struct_int_roundtrip)
next
  case (VFloat x)
  with assms have "f = Fmt_f \<and> f32_representable x \<or> f = Fmt_d" by (auto split: if_splits)
  then show ?thesis
    using VFloat f32_roundtrip [of x] by (auto simp: struct_pack_def struct_unpack_def f64_roundtrip)
qed (use assms in auto)

section \<open>Fixed-width codecs\<close>

text \<open>
  The contract of an element encoder: it produces a fixed number of bytes, and what it
  produces for a value of its domain decodes to that value.  Sequences of elements laid out
  one after the other are then recovered chunk by chunk, whatever the element type is.
\<close>

fun decode_chunks :: "(byte list \<Rightarrow> 'v) \<Rightarrow> nat \<Rightarrow> nat \<Rightarrow> byte list \<Rightarrow> 'v list" where
  "decode_chunks dec w 0 bs = []"
| "decode_chunks dec w (Suc n) bs = dec (take w bs) # decode_chunks dec w n (drop w bs)"

locale fixed_codec =
  fixes enc :: "'v \<Rightarrow> byte list res"
    and dec :: "byte list \<Rightarrow> 'v"
    and domain :: "'v \<Rightarrow> bool"
    and width :: nat
  assumes enc_width: "enc v = Inr bs \<Longrightarrow> length bs = width"
    and enc_dec: "domain v \<Longrightarrow> \<exists>bs. enc v = Inr bs \<and> dec bs = v"
begin

lemma enc_domain: "domain v \<Longrightarrow> \<exists>bs. enc v = Inr bs \<and> length bs = width \<and> dec bs = v"
  using enc_dec enc_width by blast

lemma enc_decode: "domain v \<Longrightarrow> enc v = Inr bs \<Longrightarrow> dec bs = v"
  using enc_dec by fastforce

lemma enc_inj: "domain v \<Longrightarrow> domain v' \<Longrightarrow> enc v = enc v' \<Longrightarrow> v = v'"
  using enc_dec by (metis sum.inject(2))

lemma enc_list_length: "rmap enc vs = Inr bss \<Longrightarrow> length (concat bss) = length vs * width"
  by (induction vs arbitrary: bss) (auto simp: rbind_Inr_iff dest: enc_width)

lemma enc_list_total: "list_all domain vs \<Longrightarrow> \<exists>bss. rmap enc vs = Inr bss"
proof (induction vs)
  case (Cons v vs)
  then show ?case using enc_dec [of v] by auto
qed simp

lemma enc_list_roundtrip:
  "list_all domain vs \<Longrightarrow> rmap enc vs = Inr bss \<Longrightarrow>
   decode_chunks dec width (length vs) (concat bss @ rest) = vs"
proof (induction vs arbitrary: bss)
  case (Cons v vs)
  then obtain b bs where b: "enc v = Inr b" and bs: "rmap enc vs = Inr bs" and "bss = b # bs"
    by (auto simp: rbind_Inr_iff)
  with Cons show ?case by (simp add: enc_width [OF b] enc_decode [OF _ b])
qed simp

end

interpretation st: fixed_codec "struct_pack f" "struct_unpack f" "fmt_dom f" "fmt_width f" for f
  by unfold_locales (simp_all add: struct_pack_width struct_roundtrip)

end
