(* ===== verification/BitU.thy ===== *)
theory BitU
  imports PyStruct
begin

text \<open>
  Memory sizes (class \<^verbatim>\<open>MemUnit\<close>) and bit-precise integers (class \<^verbatim>\<open>BitU\<close>).  The two loops of
  \<^verbatim>\<open>BitU.pack\<close> and \<^verbatim>\<open>BitU.unpack\<close> are specified bit by bit: bits of a buffer are numbered
  from the most significant bit of byte 0, and a field of \<open>w\<close> bits at offset \<open>o\<close> holds its
  value most significant bit first.  The locale \<open>bit_field\<close> states that contract; everything
  a client needs (a load sees the last store, disjoint fields do not interfere, stores to
  disjoint fields commute) is proved in it once.
\<close>

section \<open>MemUnit\<close>

text \<open>
  A \<^verbatim>\<open>MemUnit\<close> is its number of bits, its only field.  Every size in the program is a literal,
  a checked non-negative \<^verbatim>\<open>BitU\<close> width or a sum of such, so it is a natural number.  The
  methods that assign to \<^verbatim>\<open>self._bits\<close> return the new value.
\<close>

type_synonym memunit = nat

definition BITS_PER_BYTE :: nat where
  "BITS_PER_BYTE = 8"

definition mu_from_bytes :: "nat \<Rightarrow> memunit" where
  "mu_from_bytes n = n * BITS_PER_BYTE"

definition mu_bytes :: "memunit \<Rightarrow> nat" where
  "mu_bytes b = (b + BITS_PER_BYTE - 1) div BITS_PER_BYTE"

definition mu_set_bytes :: "memunit \<Rightarrow> nat \<Rightarrow> memunit" where
  "mu_set_bytes b n = n * BITS_PER_BYTE"

definition mu_is_byte_aligned :: "memunit \<Rightarrow> bool" where
  "mu_is_byte_aligned b = (b mod BITS_PER_BYTE = 0)"

definition mu_byte_align :: "memunit \<Rightarrow> memunit" where
  "mu_byte_align b = (if \<not> mu_is_byte_aligned b then mu_bytes b * BITS_PER_BYTE else b)"

definition mu_add :: "memunit \<Rightarrow> memunit \<Rightarrow> memunit" where
  "mu_add a b = a + b"

lemmas mu_defs = BITS_PER_BYTE_def mu_from_bytes_def mu_bytes_def mu_set_bytes_def
  mu_is_byte_aligned_def mu_add_def

lemma mu_byte_align_eq: "mu_byte_align b = 8 * mu_bytes b"
  by (simp add: mu_byte_align_def mu_defs) presburger

lemma mu_bytes_mult [simp]: "mu_bytes (8 * n) = n"
  by (simp add: mu_defs)

lemma mu_bytes_add_mult: "mu_bytes (b + 8 * n) = mu_bytes b + n"
  by (simp add: mu_defs)

lemma mu_bytes_bounds: "b \<le> 8 * mu_bytes b" "8 * mu_bytes b < b + 8"
  by (simp_all add: mu_defs)

lemma mu_bytes_mono: "a \<le> b \<Longrightarrow> mu_bytes a \<le> mu_bytes b"
  by (simp add: mu_defs div_le_mono)

lemma mu_bytes_le_iff: "mu_bytes b \<le> n \<longleftrightarrow> b \<le> 8 * n"
  using mu_bytes_bounds [of b] by linarith

section \<open>Bits of a buffer\<close>

definition buf_bit :: "byte list \<Rightarrow> nat \<Rightarrow> bool" where
  "buf_bit buf i = bit (buf ! (i div 8)) (7 - i mod 8)"

lemma buf_bit_byte: "j < 8 \<Longrightarrow> buf_bit buf (8 * i + j) = bit (buf ! i) (7 - j)"
  by (simp add: buf_bit_def)

lemma byte_eqI:
  assumes "\<And>j. j < 8 \<Longrightarrow> bit (a :: byte) (7 - j) = bit b (7 - j)"
  shows "a = b"
proof (rule bit_word_eqI)
  fix n assume "n < LENGTH(8)"
  then show "bit a n = bit b n" using assms [of "7 - n"] by simp
qed

lemma buf_eqI:
  assumes "length a = length b" and "\<And>i. i < 8 * length a \<Longrightarrow> buf_bit a i = buf_bit b i"
  shows "a = b"
proof (rule nth_equalityI [OF assms(1)])
  fix i assume i: "i < length a"
  show "a ! i = b ! i"
  proof (rule byte_eqI)
    fix j :: nat assume "j < 8"
    with i assms(2) [of "8 * i + j"] show "bit (a ! i) (7 - j) = bit (b ! i) (7 - j)"
      by (simp add: buf_bit_byte)
  qed
qed

lemma slice_eqI:
  assumes "i + n \<le> length a" and "i + n \<le> length b"
    and "\<And>k. 8 * i \<le> k \<Longrightarrow> k < 8 * (i + n) \<Longrightarrow> buf_bit a k = buf_bit b k"
  shows "slice i n a = slice i n b"
proof (rule buf_eqI)
  show "length (slice i n a) = length (slice i n b)" using assms(1,2) by simp
  fix k assume "k < 8 * length (slice i n a)"
  then have k: "k div 8 < n" "k < 8 * n" using assms(1) by auto
  have "buf_bit (slice i n c) k = buf_bit c (8 * i + k)" if "i + n \<le> length c" for c
    using that k by (simp add: buf_bit_def nth_slice)
  with assms(1,2) k assms(3) [of "8 * i + k"] show "buf_bit (slice i n a) k = buf_bit (slice i n b) k"
    by simp
qed

lemma buf_bit_append: "i < 8 * length a \<Longrightarrow> buf_bit (a @ b) i = buf_bit a i"
  by (simp add: buf_bit_def nth_append less_mult_imp_div_less mult.commute)

lemma buf_bit_take: "i < 8 * n \<Longrightarrow> buf_bit (take n a) i = buf_bit a i"
  by (simp add: buf_bit_def less_mult_imp_div_less mult.commute)

section \<open>BitU\<close>

text \<open>\<^verbatim>\<open>BitU[key]\<close> for an integer key: the class of that width.\<close>

definition BitU_class_getitem :: "int \<Rightarrow> memunit res" where
  "BitU_class_getitem key =
     (if key < 0 then Inl ValueError else if key > 32 then Inl ValueError else Inr (nat key))"

definition BitU_new :: "memunit \<Rightarrow> int \<Rightarrow> int res" where
  "BitU_new sz v =
     (if v < 0 then Inl ValueError else if v \<ge> 2 ^ sz then Inl ValueError else Inr v)"

text \<open>Each round of the two loops places at least one bit.\<close>

lemma bits_step_less: "0 < r \<Longrightarrow> r - min r (8 - b mod 8) < (r :: nat)"
  using mod_less_divisor [of 8 b] by linarith

lemma bits_step_less':
  "0 < r \<Longrightarrow> r - (if r \<le> 8 - b mod 8 then r else 8 - b mod 8) < (r :: nat)"
  using bits_step_less by (simp add: min_def)

text \<open>
  The loop of \<^verbatim>\<open>BitU.unpack\<close>; reading past the end of the buffer raises \<^verbatim>\<open>IndexError\<close>.
\<close>

function BitU_unpack_loop :: "byte list \<Rightarrow> nat \<Rightarrow> nat \<Rightarrow> nat \<Rightarrow> int \<Rightarrow> int res" where
  "BitU_unpack_loop buffer byte_index bits_remaining bit_position val =
     (if bits_remaining > 0 then
        let bits_to_fill = 8 - bit_position mod 8;
            bits_to_place = min bits_remaining bits_to_fill;
            shift = bits_to_fill - bits_to_place;
            mask' = push_bit bits_to_place 1 - 1
        in if byte_index < length buffer then
             let bit_value = drop_bit shift (uint (buffer ! byte_index)) AND mask';
                 bits_remaining' = bits_remaining - bits_to_place
             in BitU_unpack_loop buffer (byte_index + 1) bits_remaining'
                  (bit_position + bits_to_place) (val OR push_bit bits_remaining' bit_value)
           else Inl IndexError
      else Inr val)"
  by pat_completeness auto
termination
  by (relation "measure (\<lambda>(_, _, r, _, _). r)")
     (simp, simp only: in_measure split_conv bits_step_less)

definition BitU_unpack :: "memunit \<Rightarrow> byte list \<Rightarrow> memunit \<Rightarrow> (int \<times> memunit) res" where
  "BitU_unpack sz buffer offset =
     rbind (BitU_unpack_loop buffer (offset div BITS_PER_BYTE) sz offset 0) (\<lambda>val.
       Inr (val, mu_add offset sz))"

text \<open>Item assignment on a \<^verbatim>\<open>memoryview\<close> of bytes.\<close>

definition set_byte :: "byte list \<Rightarrow> nat \<Rightarrow> int \<Rightarrow> byte list res" where
  "set_byte buf i v =
     (if i < length buf then
        if 0 \<le> v \<and> v < 256 then Inr (buf[i := word_of_int v]) else Inl ValueError
      else Inl IndexError)"

function BitU_pack_loop :: "byte list \<Rightarrow> nat \<Rightarrow> nat \<Rightarrow> nat \<Rightarrow> int \<Rightarrow> byte list res" where
  "BitU_pack_loop buffer byte_index bits_remaining bit_position v =
     (if bits_remaining > 0 then
        let bits_to_fill = BITS_PER_BYTE - bit_position mod BITS_PER_BYTE;
            bits_to_place = (if bits_remaining \<le> bits_to_fill then bits_remaining else bits_to_fill);
            shift = bits_to_fill - bits_to_place;
            mask' = push_bit bits_to_place 1 - 1;
            bit_value = drop_bit (bits_remaining - bits_to_place) v AND mask'
        in if byte_index < length buffer then
             rbind (set_byte buffer byte_index
                      (uint (buffer ! byte_index) AND NOT (push_bit shift mask'))) (\<lambda>buffer1.
             rbind (set_byte buffer1 byte_index
                      (uint (buffer1 ! byte_index) OR push_bit shift bit_value)) (\<lambda>buffer2.
             BitU_pack_loop buffer2 (byte_index + 1) (bits_remaining - bits_to_place)
               (bit_position + bits_to_place) v))
           else Inl IndexError
      else Inr buffer)"
  by pat_completeness auto
termination
  by (relation "measure (\<lambda>(_, _, r, _, _). r)")
     (simp, simp only: in_measure split_conv BITS_PER_BYTE_def bits_step_less')

definition BitU_pack :: "memunit \<Rightarrow> byte list \<Rightarrow> memunit \<Rightarrow> int \<Rightarrow> (byte list \<times> memunit) res" where
  "BitU_pack sz buffer offset v =
     rbind (BitU_pack_loop buffer (offset div BITS_PER_BYTE) sz offset v) (\<lambda>buffer'.
       Inr (buffer', mu_add offset sz))"

declare BitU_unpack_loop.simps [simp del] BitU_pack_loop.simps [simp del]


section \<open>The loops, bit by bit\<close>

lemma bits_next_byte: "(bp + (8 - bp mod 8)) div 8 = bp div 8 + (1 :: nat)"
proof -
  have "bp + (8 - bp mod 8) = 8 * (bp div 8 + 1)"
    using mod_less_divisor [of 8 bp] by (simp add: minus_mod_eq_mult_div [symmetric])
  then show ?thesis by simp
qed

lemma bit_chunk_index:
  fixes t p bp :: nat
  assumes "t < p" and "p \<le> 8 - bp mod 8"
  shows "(bp + p - 1 - t) div 8 = bp div 8"
    and "7 - (bp + p - 1 - t) mod 8 = 8 - bp mod 8 - p + t"
proof -
  define q m where "q = bp div 8" and "m = bp mod 8"
  have bp: "bp = 8 * q + m" and m: "m < 8" by (simp_all add: q_def m_def)
  have p: "p \<le> 8 - m" using assms(2) by (simp only: m_def)
  have e: "bp + p - 1 - t = 8 * q + (m + p - 1 - t)" and l: "m + p - 1 - t < 8"
    using assms(1) p m by (simp_all add: bp)
  have "(bp + p - 1 - t) div 8 = q" "(bp + p - 1 - t) mod 8 = m + p - 1 - t"
    using l by (simp_all only: e) simp_all
  moreover have "7 - (m + p - 1 - t) = 8 - m - p + t"
    using assms(1) p m by linarith
  ultimately show "(bp + p - 1 - t) div 8 = bp div 8"
    "7 - (bp + p - 1 - t) mod 8 = 8 - bp mod 8 - p + t"
    by (simp_all only: q_def m_def)
qed

lemma mask_int: "(push_bit p 1 - 1 :: int) = mask p"
  by (simp add: mask_eq_exp_minus_1 push_bit_eq_mult)

lemma BitU_unpack_loop_bits:
  assumes "0 < br \<longrightarrow> bi = bp div 8" and "bp + br \<le> 8 * length buf"
  shows "\<exists>r. BitU_unpack_loop buf bi br bp v = Inr r \<and>
           (\<forall>k. bit r k = (bit v k \<or> k < br \<and> buf_bit buf (bp + br - 1 - k)))"
  using assms
proof (induction buf bi br bp v rule: BitU_unpack_loop.induct)
  case (1 buf bi br bp v)
  show ?case
  proof (cases "0 < br")
    case False
    then show ?thesis by (simp add: BitU_unpack_loop.simps)
  next
    case True
    define p where "p = min br (8 - bp mod 8)"
    define bv where "bv = (drop_bit (8 - bp mod 8 - p) (uint (buf ! bi)) AND (push_bit p 1 - 1) :: int)"
    have p: "0 < p" "p \<le> br" "p \<le> 8 - bp mod 8" using True by (simp_all add: p_def)
    have bi: "bi = bp div 8" "bi < length buf" using "1.prems" True by simp_all
    have next_bi: "0 < br - p \<longrightarrow> bi + 1 = (bp + p) div 8"
      using bi(1) bits_next_byte [of bp] by (simp add: p_def min_def)
    have bits_bv: "bit (push_bit (br - p) bv) k \<longleftrightarrow>
        br - p \<le> k \<and> k < br \<and> buf_bit buf (bp + br - 1 - k)" for k
    proof (cases "br - p \<le> k \<and> k < br")
      case k: True
      define t where "t = k - (br - p)"
      have t: "t < p" "bp + br - 1 - k = bp + p - 1 - t" using k p(1,2) unfolding t_def by linarith+
      have "8 - bp mod 8 - p + t < 8" using t(1) p(3) by linarith
      then show ?thesis
        using k t(1) bit_chunk_index [OF t(1) p(3)] bi unfolding t(2) bv_def mask_int
        by (simp add: buf_bit_def bit_push_bit_iff bit_and_iff bit_drop_bit_eq bit_mask_iff
            bit_uint_iff flip: t_def)
    next
      case False
      then show ?thesis using p(2) unfolding bv_def mask_int
        by (auto simp: bit_push_bit_iff bit_and_iff bit_mask_iff)
    qed
    obtain r where r: "BitU_unpack_loop buf (bi + 1) (br - p) (bp + p) (v OR push_bit (br - p) bv) = Inr r"
      and br: "\<And>k. bit r k = (bit (v OR push_bit (br - p) bv) k \<or>
                k < br - p \<and> buf_bit buf (bp + br - 1 - k))"
      using "1.IH" [OF True refl p_def refl refl bi(2) bv_def refl] next_bi "1.prems"(2) p(2)
      by auto
    have "BitU_unpack_loop buf bi br bp v = Inr r"
      using True bi(2) r
      by (subst BitU_unpack_loop.simps) (simp only: Let_def if_True flip: p_def bv_def)
    moreover have "bit r k = (bit v k \<or> k < br \<and> buf_bit buf (bp + br - 1 - k))" for k
      using br [of k] p(2) by (auto simp: bit_or_iff bits_bv)
    ultimately show ?thesis by blast
  qed
qed



text \<open>One byte of the packing loop: clear the field's bits, then set them.\<close>

lemma byte_clear_bounds: "0 \<le> uint (b :: byte) AND x" "uint (b :: byte) AND x < 256"
proof -
  show "0 \<le> uint b AND x" by (simp add: AND_lower)
  have "uint b AND x \<le> uint b" by (simp add: AND_upper1)
  with uint_byte_lt [of b] show "uint b AND x < 256" by simp
qed

lemma byte_field_bounds:
  fixes b :: byte
  assumes "s + p \<le> 8"
  shows "0 \<le> uint b OR push_bit s (y AND mask p)" "uint b OR push_bit s (y AND mask p) < 256"
proof -
  have f: "0 \<le> push_bit s (take_bit p y)" by (simp add: push_bit_eq_mult)
  have "take_bit p y < 2 ^ p" by simp
  then have "push_bit s (take_bit p y) < 2 ^ s * 2 ^ p" by (simp add: push_bit_eq_mult)
  also have "(2 :: int) ^ s * 2 ^ p \<le> 2 ^ 8"
    unfolding power_add [symmetric] by (rule power_increasing) (use assms in simp_all)
  finally have g: "push_bit s (take_bit p y) < 2 ^ 8" .
  show "0 \<le> uint b OR push_bit s (y AND mask p)"
    using f by (simp add: OR_lower flip: take_bit_eq_mask)
  have "uint b OR push_bit s (take_bit p y) < 2 ^ 8"
    by (rule OR_upper [OF _ _ g]) (use uint_byte_lt [of b] in simp_all)
  then show "uint b OR push_bit s (y AND mask p) < 256"
    by (simp add: take_bit_eq_mask)
qed

lemma byte_field_bits:
  fixes b :: byte
  assumes "n < 8"
  shows "bit (word_of_int (uint (word_of_int (uint b AND NOT (push_bit s (mask p))) :: byte)
                 OR push_bit s (y AND mask p)) :: byte) n =
         (if s \<le> n \<and> n < s + p then bit y (n - s) else bit b n)"
  using assms
  by (auto simp: bit_word_of_int_iff bit_or_iff bit_and_iff bit_not_iff bit_push_bit_iff bit_mask_iff
      bit_uint_iff)

text \<open>Replacing the field part of one byte changes exactly the field's bits of the buffer.\<close>

lemma buf_bit_field_update:
  assumes p: "0 < p" "p \<le> 8 - bp mod 8" and s: "s = 8 - bp mod 8 - p"
    and bi: "bi = bp div 8" "bi < length buf"
    and b2: "\<And>n. n < 8 \<Longrightarrow> bit b2 n = (if s \<le> n \<and> n < s + p then f (n - s) else bit (buf ! bi) n)"
  shows "buf_bit (buf[bi := b2]) i =
    (if bp \<le> i \<and> i < bp + p then f (bp + p - 1 - i) else buf_bit buf i)"
proof (cases "bp \<le> i \<and> i < bp + p")
  case inside: True
  define t where "t = bp + p - 1 - i"
  have t: "t < p" "i = bp + p - 1 - t" using inside p(1) unfolding t_def by linarith+
  have "buf_bit (buf[bi := b2]) i = bit b2 (s + t)"
    using bit_chunk_index [OF t(1) p(2)] bi unfolding t(2) by (simp add: buf_bit_def s)
  also have "\<dots> = f t"
  proof -
    have "s + t < 8" using t(1) p(2) s by linarith
    then show ?thesis using b2 [of "s + t"] t(1) by simp
  qed
  finally show ?thesis using inside by (simp add: t_def)
next
  case outside: False
  show ?thesis
  proof (cases "i div 8 = bi")
    case True
    have "\<not> (s \<le> 7 - i mod 8 \<and> 7 - i mod 8 < s + p)"
    proof
      assume a: "s \<le> 7 - i mod 8 \<and> 7 - i mod 8 < s + p"
      have "8 * (i div 8) + i mod 8 = i" "8 * (bp div 8) + bp mod 8 = bp"
        "i mod 8 < 8" "bp mod 8 < 8" by simp_all
      with True bi(1) outside p(2) s a show False by linarith
    qed
    then show ?thesis using True bi(2) b2 [of "7 - i mod 8"] outside by (auto simp: buf_bit_def)
  next
    case False
    with outside show ?thesis by (auto simp: buf_bit_def)
  qed
qed

lemma BitU_pack_loop_bits:
  assumes "0 < br \<longrightarrow> bi = bp div 8" and "bp + br \<le> 8 * length buf"
  shows "\<exists>buf'. BitU_pack_loop buf bi br bp v = Inr buf' \<and> length buf' = length buf \<and>
           (\<forall>i < 8 * length buf. buf_bit buf' i =
              (if bp \<le> i \<and> i < bp + br then bit v (bp + br - 1 - i) else buf_bit buf i))"
  using assms
proof (induction buf bi br bp v rule: BitU_pack_loop.induct)
  case (1 buf bi br bp v)
  show ?case
  proof (cases "0 < br")
    case False
    then show ?thesis by (auto simp: BitU_pack_loop.simps)
  next
    case True
    define p where "p = (if br \<le> BITS_PER_BYTE - bp mod BITS_PER_BYTE then br
                         else BITS_PER_BYTE - bp mod BITS_PER_BYTE)"
    define s where "s = BITS_PER_BYTE - bp mod BITS_PER_BYTE - p"
    define bv where "bv = drop_bit (br - p) v AND (push_bit p 1 - 1)"
    have p: "0 < p" "p \<le> br" "p \<le> 8 - bp mod 8" "s = 8 - bp mod 8 - p" "s + p \<le> 8"
      using True by (auto simp: p_def s_def BITS_PER_BYTE_def)
    have bi: "bi = bp div 8" "bi < length buf" using "1.prems" True by simp_all
    have next_bi: "0 < br - p \<longrightarrow> bi + 1 = (bp + p) div 8"
      using bi(1) bits_next_byte [of bp] by (simp add: p_def BITS_PER_BYTE_def)
    define b1 :: byte where "b1 = word_of_int (uint (buf ! bi) AND NOT (push_bit s (push_bit p 1 - 1)))"
    define b2 :: byte where "b2 = word_of_int (uint b1 OR push_bit s bv)"
    have s1: "set_byte buf bi (uint (buf ! bi) AND NOT (push_bit s (push_bit p 1 - 1))) = Inr (buf[bi := b1])"
      using bi(2) byte_clear_bounds by (simp add: set_byte_def b1_def)
    have s2: "set_byte (buf[bi := b1]) bi (uint (buf[bi := b1] ! bi) OR push_bit s bv) = Inr (buf[bi := b2])"
    proof -
      have "0 \<le> uint b1 OR push_bit s bv" "uint b1 OR push_bit s bv < 256"
        unfolding bv_def mask_int by (rule byte_field_bounds [OF p(5)])+
      then show ?thesis using bi(2) unfolding set_byte_def b2_def by simp
    qed
    have bits2: "bit b2 n = (if s \<le> n \<and> n < s + p then bit v (br - p + (n - s)) else bit (buf ! bi) n)"
      if "n < 8" for n
      using byte_field_bits [OF that, of "buf ! bi" s p "drop_bit (br - p) v"]
      unfolding b2_def b1_def bv_def mask_int by (simp add: bit_drop_bit_eq)
    have e: "bp + p + (br - p) = bp + br" using p(2) by simp
    obtain buf' where r: "BitU_pack_loop (buf[bi := b2]) (bi + 1) (br - p) (bp + p) v = Inr buf'"
      and len: "length buf' = length buf"
      and br: "\<And>i. i < 8 * length buf \<Longrightarrow> buf_bit buf' i =
              (if bp + p \<le> i \<and> i < bp + br then bit v (bp + br - 1 - i) else buf_bit (buf[bi := b2]) i)"
      using "1.IH" [OF True refl p_def s_def refl bv_def bi(2) s1 s2,
          unfolded e length_list_update, OF next_bi "1.prems"(2)] by blast
    have "BitU_pack_loop buf bi br bp v = Inr buf'"
      using True bi(2) s1 s2 r
      by (subst BitU_pack_loop.simps)
         (simp only: Let_def if_True rbind_simps flip: p_def s_def bv_def)
    moreover have "buf_bit buf' i =
        (if bp \<le> i \<and> i < bp + br then bit v (bp + br - 1 - i) else buf_bit buf i)"
      if i: "i < 8 * length buf" for i
      using br [OF i] p(2) buf_bit_field_update [OF p(1,3,4) bi bits2, of i]
      by (auto intro!: arg_cong [of _ _ "bit v"])
    ultimately show ?thesis using len by blast
  qed
qed


text \<open>A field that does not fit into the buffer raises \<^verbatim>\<open>IndexError\<close> in both directions.\<close>

lemma bits_last_byte:
  fixes bp br :: nat
  assumes "br \<le> 8 - bp mod 8" and "bp div 8 < n"
  shows "bp + br \<le> 8 * n"
proof -
  have "8 * (bp div 8) + bp mod 8 = bp" "bp mod 8 < 8" by simp_all
  with assms show ?thesis by linarith
qed

lemma BitU_unpack_loop_IndexError:
  assumes "bi = bp div 8" and "0 < br" and "8 * length buf < bp + br"
  shows "BitU_unpack_loop buf bi br bp v = Inl IndexError"
  using assms
proof (induction buf bi br bp v rule: BitU_unpack_loop.induct)
  case (1 buf bi br bp v)
  show ?case
  proof (cases "bi < length buf")
    case False
    then show ?thesis using "1.prems"(2) by (subst BitU_unpack_loop.simps) (simp add: Let_def)
  next
    case True
    have big: "8 - bp mod 8 < br"
      using bits_last_byte [of br bp "length buf"] "1.prems" True by linarith
    then have m: "min br (8 - bp mod 8) = 8 - bp mod 8" by simp
    show ?thesis
      using "1.IH" [OF "1.prems"(2) refl refl refl refl True refl refl] "1.prems" True big
        bits_next_byte [of bp]
      by (subst BitU_unpack_loop.simps) (simp add: Let_def m)
  qed
qed

lemma BitU_pack_loop_IndexError:
  assumes "bi = bp div 8" and "0 < br" and "8 * length buf < bp + br"
  shows "BitU_pack_loop buf bi br bp v = Inl IndexError"
  using assms
proof (induction buf bi br bp v rule: BitU_pack_loop.induct)
  case (1 buf bi br bp v)
  show ?case
  proof (cases "bi < length buf")
    case False
    then show ?thesis using "1.prems"(2) by (subst BitU_pack_loop.simps) (simp add: Let_def)
  next
    case True
    have big: "8 - bp mod 8 < br"
      using bits_last_byte [of br bp "length buf"] "1.prems" True by linarith
    define p where "p = (8 - bp mod 8)"
    have ite: "(if br \<le> BITS_PER_BYTE - bp mod BITS_PER_BYTE then br
         else BITS_PER_BYTE - bp mod BITS_PER_BYTE) = p"
      using big by (simp add: p_def BITS_PER_BYTE_def)
    define b1 :: byte where "b1 = word_of_int (uint (buf ! bi) AND NOT (push_bit 0 (push_bit p 1 - 1)))"
    define bv where "bv = drop_bit (br - p) v AND (push_bit p 1 - 1)"
    define b2 :: byte where "b2 = word_of_int (uint b1 OR push_bit 0 bv)"
    have s1: "set_byte buf bi (uint (buf ! bi) AND NOT (push_bit 0 (push_bit p 1 - 1))) = Inr (buf[bi := b1])"
      using True byte_clear_bounds by (simp add: set_byte_def b1_def)
    have s2: "set_byte (buf[bi := b1]) bi (uint (buf[bi := b1] ! bi) OR push_bit 0 bv) = Inr (buf[bi := b2])"
    proof -
      have "0 \<le> uint b1 OR push_bit 0 bv" "uint b1 OR push_bit 0 bv < 256"
        unfolding bv_def mask_int by (rule byte_field_bounds; simp add: p_def)+
      then show ?thesis using True unfolding set_byte_def b2_def by simp
    qed
    have d: "BITS_PER_BYTE - bp mod BITS_PER_BYTE - p = 0" by (simp add: p_def BITS_PER_BYTE_def)
    have "BitU_pack_loop (buf[bi := b2]) (bi + 1) (br - p) (bp + p) v = Inl IndexError"
      using "1.IH" [OF "1.prems"(2) refl ite [symmetric] d [symmetric] refl bv_def True s1 s2]
        "1.prems" big bits_next_byte [of bp] by (simp add: p_def)
    then show ?thesis
      using True "1.prems"(2) s1 s2
      by (subst BitU_pack_loop.simps) (simp only: Let_def if_True rbind_simps ite d flip: bv_def)
  qed
qed

section \<open>The contract of a bit field\<close>

locale bit_field =
  fixes store :: "nat \<Rightarrow> byte list \<Rightarrow> nat \<Rightarrow> int \<Rightarrow> byte list res"
    and load :: "nat \<Rightarrow> byte list \<Rightarrow> nat \<Rightarrow> int res"
    and ok :: "nat \<Rightarrow> nat \<Rightarrow> bool"
  assumes store_bits: "ok w off \<Longrightarrow> off + w \<le> 8 * length buf \<Longrightarrow>
      \<exists>buf'. store w buf off v = Inr buf' \<and> length buf' = length buf \<and>
        (\<forall>i < 8 * length buf. buf_bit buf' i =
           (if off \<le> i \<and> i < off + w then bit v (off + w - 1 - i) else buf_bit buf i))"
    and load_bits: "ok w off \<Longrightarrow> off + w \<le> 8 * length buf \<Longrightarrow>
      \<exists>r. load w buf off = Inr r \<and> (\<forall>k. bit r k = (k < w \<and> buf_bit buf (off + w - 1 - k)))"
begin

lemma store_result:
  assumes "ok w off" and "off + w \<le> 8 * length buf" and "store w buf off v = Inr buf'"
  shows "length buf' = length buf"
    and "i < 8 * length buf \<Longrightarrow> buf_bit buf' i =
      (if off \<le> i \<and> i < off + w then bit v (off + w - 1 - i) else buf_bit buf i)"
  using store_bits [OF assms(1,2), of v] assms(3) by auto

lemma load_result:
  assumes "ok w off" and "off + w \<le> 8 * length buf" and "load w buf off = Inr r"
  shows "bit r k = (k < w \<and> buf_bit buf (off + w - 1 - k))"
  using load_bits [OF assms(1,2)] assms(3) by auto

lemma load_range:
  assumes "ok w off" and "off + w \<le> 8 * length buf" and "load w buf off = Inr r"
  shows "0 \<le> r \<and> r < 2 ^ w"
proof -
  have "take_bit w r = r"
    by (rule bit_eqI) (auto simp: bit_take_bit_iff load_result [OF assms])
  then show ?thesis by (metis take_bit_nonnegative take_bit_int_less_exp)
qed

lemma load_cong:
  assumes "ok w off" and "off + w \<le> 8 * length a" and "off + w \<le> 8 * length b"
    and "\<And>i. off \<le> i \<Longrightarrow> i < off + w \<Longrightarrow> buf_bit a i = buf_bit b i"
  shows "load w a off = load w b off"
proof -
  obtain ra rb where r: "load w a off = Inr ra" "load w b off = Inr rb"
    using load_bits [OF assms(1,2)] load_bits [OF assms(1,3)] by blast
  have "ra = rb"
  proof (rule bit_eqI)
    fix k
    show "bit ra k = bit rb k"
      using load_result [OF assms(1,2) r(1), of k] load_result [OF assms(1,3) r(2), of k]
        assms(4) [of "off + w - 1 - k"] by (cases "k < w") simp_all
  qed
  with r show ?thesis by simp
qed

text \<open>A load sees the low bits of the last store to the same field.\<close>

lemma load_store:
  assumes "ok w off" and "off + w \<le> 8 * length buf" and "store w buf off v = Inr buf'"
  shows "load w buf' off = Inr (take_bit w v)"
proof -
  note s = store_result [OF assms]
  have fit: "off + w \<le> 8 * length buf'" using assms(2) s(1) by simp
  obtain r where r: "load w buf' off = Inr r" using load_bits [OF assms(1) fit] by blast
  have "r = take_bit w v"
  proof (rule bit_eqI)
    fix k
    show "bit r k = bit (take_bit w v) k"
    proof (cases "k < w")
      case True
      define i where "i = off + w - 1 - k"
      have i: "off \<le> i \<and> i < off + w" "off + w - 1 - i = k" "i < 8 * length buf"
        using True assms(2) unfolding i_def by linarith+
      show ?thesis
        using load_result [OF assms(1) fit r, of k] s(2) [OF i(3)] True i(1)
        unfolding i_def [symmetric] i(2) bit_take_bit_iff by simp
    next
      case False
      then show ?thesis
        using load_result [OF assms(1) fit r, of k] by (simp add: bit_take_bit_iff)
    qed
  qed
  with r show ?thesis by simp
qed

text \<open>A store does not disturb a disjoint field.\<close>

lemma load_store_disjoint:
  assumes "ok w off" and "off + w \<le> 8 * length buf" and "store w buf off v = Inr buf'"
    and "ok w' off'" and "off' + w' \<le> 8 * length buf"
    and "off + w \<le> off' \<or> off' + w' \<le> off"
  shows "load w' buf' off' = load w' buf off'"
  using store_result [OF assms(1-3)] assms(4-6) by (intro load_cong) auto

text \<open>Stores to disjoint fields commute.\<close>

lemma store_commute:
  assumes "ok w off" and "off + w \<le> 8 * length buf"
    and "ok w' off'" and "off' + w' \<le> 8 * length buf"
    and "off + w \<le> off' \<or> off' + w' \<le> off"
  shows "rbind (store w buf off v) (\<lambda>b. store w' b off' v') =
         rbind (store w' buf off' v') (\<lambda>b. store w b off v)"
proof -
  obtain b1 b2 where b: "store w buf off v = Inr b1" "store w' buf off' v' = Inr b2"
    using store_bits [OF assms(1,2)] store_bits [OF assms(3,4)] by blast
  note r1 = store_result [OF assms(1,2) b(1)] and r2 = store_result [OF assms(3,4) b(2)]
  have fit: "off' + w' \<le> 8 * length b1" "off + w \<le> 8 * length b2"
    using assms(2,4) r1(1) r2(1) by simp_all
  obtain c1 c2 where c: "store w' b1 off' v' = Inr c1" "store w b2 off v = Inr c2"
    using store_bits [OF assms(3) fit(1)] store_bits [OF assms(1) fit(2)] by blast
  note s1 = store_result [OF assms(3) fit(1) c(1)] and s2 = store_result [OF assms(1) fit(2) c(2)]
  have "c1 = c2"
  proof (rule buf_eqI)
    show "length c1 = length c2" using r1 r2 s1 s2 by simp
    fix i assume "i < 8 * length c1"
    then show "buf_bit c1 i = buf_bit c2 i"
      using r1 r2 s1 s2 assms(5) by auto
  qed
  with b c show ?thesis by simp
qed

end

text \<open>
  Two implementations of the contract agree wherever both are specified: the contract
  determines the bytes.
\<close>

locale bit_field_pair = a: bit_field sa la ok + b: bit_field sb lb ok
  for sa la sb lb ok
begin

lemma stores_agree:
  assumes "ok w off" and "off + w \<le> 8 * length buf"
  shows "sa w buf off v = sb w buf off v"
proof -
  obtain x y where x: "sa w buf off v = Inr x" and y: "sb w buf off v = Inr y"
    using a.store_bits [OF assms] b.store_bits [OF assms] by blast
  have "x = y"
    using a.store_result [OF assms x] b.store_result [OF assms y] by (intro buf_eqI) auto
  with x y show ?thesis by simp
qed

lemma loads_agree:
  assumes "ok w off" and "off + w \<le> 8 * length buf"
  shows "la w buf off = lb w buf off"
proof -
  obtain x y where x: "la w buf off = Inr x" and y: "lb w buf off = Inr y"
    using a.load_bits [OF assms] b.load_bits [OF assms] by blast
  have "x = y"
    by (rule bit_eqI) (simp add: a.load_result [OF assms x] b.load_result [OF assms y])
  with x y show ?thesis by simp
qed

end

text \<open>The Python class implements the contract for every width.\<close>

definition BitU_store :: "nat \<Rightarrow> byte list \<Rightarrow> nat \<Rightarrow> int \<Rightarrow> byte list res" where
  "BitU_store w buf off v = rbind (BitU_pack w buf off v) (\<lambda>p. Inr (fst p))"

definition BitU_load :: "nat \<Rightarrow> byte list \<Rightarrow> nat \<Rightarrow> int res" where
  "BitU_load w buf off = rbind (BitU_unpack w buf off) (\<lambda>p. Inr (fst p))"

interpretation bitu: bit_field BitU_store BitU_load "\<lambda>w off. True"
proof
  fix w off :: nat and buf :: "byte list" and v assume fit: "off + w \<le> 8 * length buf"
  show "\<exists>buf'. BitU_store w buf off v = Inr buf' \<and> length buf' = length buf \<and>
      (\<forall>i < 8 * length buf. buf_bit buf' i =
         (if off \<le> i \<and> i < off + w then bit v (off + w - 1 - i) else buf_bit buf i))"
    using BitU_pack_loop_bits [of w "off div 8" off buf v] fit
    by (auto simp: BitU_store_def BitU_pack_def BITS_PER_BYTE_def)
  show "\<exists>r. BitU_load w buf off = Inr r \<and> (\<forall>k. bit r k = (k < w \<and> buf_bit buf (off + w - 1 - k)))"
    using BitU_unpack_loop_bits [of w "off div 8" off buf 0] fit
    by (auto simp: BitU_load_def BitU_unpack_def BITS_PER_BYTE_def)
qed

lemma BitU_pack_eq: "BitU_pack w buf off v = rbind (BitU_store w buf off v) (\<lambda>b. Inr (b, off + w))"
  by (cases "BitU_pack w buf off v")
     (auto simp: BitU_store_def BitU_pack_def mu_add_def rbind_Inr_iff)

lemma BitU_unpack_eq: "BitU_unpack w buf off = rbind (BitU_load w buf off) (\<lambda>r. Inr (r, off + w))"
  by (cases "BitU_unpack w buf off")
     (auto simp: BitU_load_def BitU_unpack_def mu_add_def rbind_Inr_iff)

lemma BitU_store_IndexError:
  "0 < w \<Longrightarrow> 8 * length buf < off + w \<Longrightarrow> BitU_store w buf off v = Inl IndexError"
  by (simp add: BitU_store_def BitU_pack_def BITS_PER_BYTE_def BitU_pack_loop_IndexError)

lemma BitU_load_IndexError:
  "0 < w \<Longrightarrow> 8 * length buf < off + w \<Longrightarrow> BitU_load w buf off = Inl IndexError"
  by (simp add: BitU_load_def BitU_unpack_def BITS_PER_BYTE_def BitU_unpack_loop_IndexError)

section \<open>Properties of bit fields\<close>

text \<open>
  A bit field packed into a buffer and unpacked at the same offset gives back the low bits
  of the packed value, and the rest of the buffer keeps its bits.
\<close>

lemma bit_field_roundtrip:
  assumes "off + w \<le> 8 * length buf"
  shows "\<exists>buf'. BitU_pack w buf off v = Inr (buf', off + w) \<and> length buf' = length buf \<and>
    BitU_unpack w buf' off = Inr (take_bit w v, off + w) \<and>
    (\<forall>i. i < 8 * length buf \<longrightarrow> \<not> (off \<le> i \<and> i < off + w) \<longrightarrow> buf_bit buf' i = buf_bit buf i)"
proof -
  obtain buf' where b: "BitU_store w buf off v = Inr buf'"
    using bitu.store_bits [OF TrueI assms, of v] by blast
  note s = bitu.store_result [OF TrueI assms b] and l = bitu.load_store [OF TrueI assms b]
  show ?thesis using b s l by (auto simp: BitU_pack_eq BitU_unpack_eq)
qed

text \<open>
  Packing two bit fields that do not overlap gives the same buffer in either order.
\<close>

lemma bit_stores_commute:
  assumes "off + w \<le> 8 * length buf" and "off' + w' \<le> 8 * length buf"
    and "off + w \<le> off' \<or> off' + w' \<le> off"
  shows "rbind (BitU_pack w buf off v) (\<lambda>p. rbind (BitU_pack w' (fst p) off' v') (\<lambda>r. Inr (fst r))) =
         rbind (BitU_pack w' buf off' v') (\<lambda>p. rbind (BitU_pack w (fst p) off v) (\<lambda>r. Inr (fst r)))"
  using bitu.store_commute [OF TrueI assms(1) TrueI assms(2,3), of v v']
  by (simp add: BitU_pack_eq rbind_assoc rbind_right)

end
