(* ===== verification/Types.thy ===== *)
theory Types
  imports BitU
begin

text \<open>
  The data types of the protocol language: the numeric classes with their range checks, the
  annotations a protocol definition may use (\<open>ctype\<close>), and the decorators \<^verbatim>\<open>enum\<close> and \<^verbatim>\<open>struct\<close>
  with the validation and the layout computation they perform when a class is defined.
\<close>

section \<open>Numeric classes\<close>

datatype numty = U64 | I64 | U32 | I32 | U16 | I16 | U8 | I8 | F32 | F64

definition U64_new :: "int \<Rightarrow> int res" where
  "U64_new v = (if v < 0 then Inl ValueError else if v \<ge> 2 ^ 64 then Inl ValueError else Inr v)"

definition I64_new :: "int \<Rightarrow> int res" where
  "I64_new v = (if v < - (2 ^ 64) then Inl ValueError else if v \<ge> 2 ^ 64 then Inl ValueError else Inr v)"

definition U32_new :: "int \<Rightarrow> int res" where
  "U32_new v = (if v < 0 then Inl ValueError else if v \<ge> 2 ^ 32 then Inl ValueError else Inr v)"

definition I32_new :: "int \<Rightarrow> int res" where
  "I32_new v = (if v < - (2 ^ 31) then Inl ValueError else if v \<ge> 2 ^ 31 then Inl ValueError else Inr v)"

definition U16_new :: "int \<Rightarrow> int res" where
  "U16_new v = (if v < 0 then Inl ValueError else if v \<ge> 2 ^ 16 then Inl ValueError else Inr v)"

definition I16_new :: "int \<Rightarrow> int res" where
  "I16_new v = (if v < - (2 ^ 15) then Inl ValueError else if v \<ge> 2 ^ 15 then Inl ValueError else Inr v)"

definition U8_new :: "int \<Rightarrow> int res" where
  "U8_new v = (if v < 0 then Inl ValueError else if v \<ge> 2 ^ 8 then Inl ValueError else Inr v)"

definition I8_new :: "int \<Rightarrow> int res" where
  "I8_new v = (if v < - (2 ^ 7) then Inl ValueError else if v \<ge> 2 ^ 7 then Inl ValueError else Inr v)"

text \<open>The constructor of each integer class; the float classes are the built-in float.\<close>

fun int_class_new :: "numty \<Rightarrow> (int \<Rightarrow> int res) option" where
  "int_class_new U64 = Some U64_new" | "int_class_new I64 = Some I64_new"
| "int_class_new U32 = Some U32_new" | "int_class_new I32 = Some I32_new"
| "int_class_new U16 = Some U16_new" | "int_class_new I16 = Some I16_new"
| "int_class_new U8 = Some U8_new" | "int_class_new I8 = Some I8_new"
| "int_class_new F32 = None" | "int_class_new F64 = None"

text \<open>The class attributes \<^verbatim>\<open>size\<close> and \<^verbatim>\<open>fmt\<close>.\<close>

fun num_size :: "numty \<Rightarrow> memunit" where
  "num_size U64 = 64" | "num_size I64 = 64" | "num_size U32 = 32" | "num_size I32 = 32"
| "num_size U16 = 16" | "num_size I16 = 16" | "num_size U8 = 8" | "num_size I8 = 8"
| "num_size F32 = 32" | "num_size F64 = 64"

fun num_fmt :: "numty \<Rightarrow> fmt" where
  "num_fmt U64 = Fmt_Q" | "num_fmt I64 = Fmt_q" | "num_fmt U32 = Fmt_I" | "num_fmt I32 = Fmt_i"
| "num_fmt U16 = Fmt_H" | "num_fmt I16 = Fmt_h" | "num_fmt U8 = Fmt_B" | "num_fmt I8 = Fmt_b"
| "num_fmt F32 = Fmt_f" | "num_fmt F64 = Fmt_d"

lemma num_size_width: "num_size k = 8 * fmt_width (num_fmt k)"
  by (cases k) simp_all

lemmas int_class_new_defs = U64_new_def I64_new_def U32_new_def I32_new_def U16_new_def
  I16_new_def U8_new_def I8_new_def

section \<open>Annotations\<close>

text \<open>
  A type annotation of a protocol definition.  \<open>TEnum\<close> is an enumeration class with its first
  base (a numeric class, a \<^verbatim>\<open>BitU\<close> of some width, or none) and its members; \<open>TList args\<close> is
  \<^verbatim>\<open>list[args]\<close>; \<open>TStruct\<close> is a class produced by the \<^verbatim>\<open>struct\<close> decorator with its annotated
  members; \<open>TOther\<close> is any other class, by name.
\<close>

datatype backing = BNum numty | BBitU memunit | BNone

datatype ctype =
    TNum numty
  | TBitU memunit
  | TEnum string backing "(string \<times> int) list"
  | TStr
  | TBytes
  | TList "ctype list"
  | TStruct string "(string \<times> ctype) list"
  | TOther string

type_synonym members = "(string \<times> ctype) list"

text \<open>\<^verbatim>\<open>_issubclass(t, _NUMERIC_PRIMITIVE_TYPES)\<close>: an enumeration over a numeric class is one.\<close>

fun is_numeric_primitive :: "ctype \<Rightarrow> bool" where
  "is_numeric_primitive (TNum _) = True"
| "is_numeric_primitive (TEnum _ (BNum _) _) = True"
| "is_numeric_primitive _ = False"

fun is_list_type :: "ctype \<Rightarrow> bool" where
  "is_list_type (TList _) = True"
| "is_list_type _ = False"

fun is_bytes_or_str :: "ctype \<Rightarrow> bool" where
  "is_bytes_or_str TStr = True"
| "is_bytes_or_str TBytes = True"
| "is_bytes_or_str _ = False"

fun is_compost_struct :: "ctype \<Rightarrow> bool" where
  "is_compost_struct (TStruct _ _) = True"
| "is_compost_struct _ = False"

definition validate_type :: "ctype \<Rightarrow> unit res" where
  "validate_type t =
     (case t of
        TList args \<Rightarrow>
          (case args of
             [inner_type] \<Rightarrow> if is_numeric_primitive inner_type then Inr () else Inl TypeError
           | _ \<Rightarrow> Inl TypeError)
      | _ \<Rightarrow> Inr ())"

section \<open>The struct decorator\<close>

text \<open>\<^verbatim>\<open>datacls.layout[-1] = datacls.layout[-1] + n\<close>\<close>

definition add_last :: "memunit list \<Rightarrow> memunit \<Rightarrow> memunit list" where
  "add_last layout n = butlast layout @ [mu_add (last layout) n]"

definition backing_size :: "backing \<Rightarrow> memunit res" where
  "backing_size b = (case b of BNum k \<Rightarrow> Inr (num_size k) | BBitU w \<Rightarrow> Inr w | BNone \<Rightarrow> Inl AttributeError)"

text \<open>
  The loop of the decorator over the annotations, with the attributes \<^verbatim>\<open>layout\<close> and
  \<^verbatim>\<open>dynamic_members\<close> built so far.  The attributes of a nested structure are those its own
  decoration computed.
\<close>

function struct_loop :: "members \<Rightarrow> memunit list \<Rightarrow> members \<Rightarrow> (memunit list \<times> members) res" where
  "struct_loop [] layout dyn = Inr (layout, dyn)"
| "struct_loop ((name, t) # ms) layout dyn =
     rbind (validate_type t) (\<lambda>_.
     rbind (case t of
        TStruct _ ms' \<Rightarrow>
          rbind (struct_loop ms' [0] []) (\<lambda>p.
            if snd p \<noteq> []
            then Inr (add_last layout (hd (fst p)) @ tl (fst p), dyn @ [(name, t)])
            else Inr (add_last layout (sum_list (fst p)), dyn))
      | TList _ \<Rightarrow> Inr (add_last layout (mu_from_bytes 2) @ [0], dyn @ [(name, t)])
      | TStr \<Rightarrow> Inr (add_last layout (mu_from_bytes 2) @ [0], dyn @ [(name, t)])
      | TBytes \<Rightarrow> Inr (add_last layout (mu_from_bytes 2) @ [0], dyn @ [(name, t)])
      | TNum k \<Rightarrow> Inr (add_last layout (num_size k), dyn)
      | TBitU w \<Rightarrow> Inr (add_last layout w, dyn)
      | TEnum _ b _ \<Rightarrow> rbind (backing_size b) (\<lambda>s. Inr (add_last layout s, dyn))
      | TOther _ \<Rightarrow> Inl AttributeError) (\<lambda>q.
     struct_loop ms (fst q) (snd q)))"
  by pat_completeness auto
termination
  by (relation "measure (\<lambda>(ms, _, _). size_list (size_prod (\<lambda>_. 0) size) ms)") auto

definition struct_attrs :: "members \<Rightarrow> (memunit list \<times> members) res" where
  "struct_attrs ms = struct_loop ms [0] []"

text \<open>The attribute \<^verbatim>\<open>size\<close> of a decorated class: the sum of its layout.\<close>

definition struct_size :: "members \<Rightarrow> memunit res" where
  "struct_size ms = rbind (struct_attrs ms) (\<lambda>p. Inr (foldl mu_add 0 (fst p)))"

text \<open>Decoration succeeds with the class, or raises what the loop raises.\<close>

definition struct_decorator :: "string \<Rightarrow> members \<Rightarrow> ctype res" where
  "struct_decorator name ms = rbind (struct_attrs ms) (\<lambda>_. Inr (TStruct name ms))"

section \<open>The enum decorator\<close>

fun is_enum_class :: "ctype \<Rightarrow> bool" where
  "is_enum_class (TEnum _ _ _) = True"
| "is_enum_class _ = False"

definition enum_backing_ok :: "backing \<Rightarrow> bool" where
  "enum_backing_ok b =
     (case b of BNum k \<Rightarrow> k \<in> {I8, U8, I16} | BBitU _ \<Rightarrow> True | BNone \<Rightarrow> False)"

definition enum_decorator :: "ctype \<Rightarrow> ctype res" where
  "enum_decorator t =
     (case t of
        TEnum _ b _ \<Rightarrow> if enum_backing_ok b then Inr t else Inl TypeError
      | _ \<Rightarrow> Inl TypeError)"

text \<open>Class creation runs the base class's constructor on every member value.\<close>

definition backing_new :: "backing \<Rightarrow> int \<Rightarrow> int res" where
  "backing_new b v =
     (case b of
        BNum k \<Rightarrow> (case int_class_new k of Some f \<Rightarrow> f v | None \<Rightarrow> Inr v)
      | BBitU w \<Rightarrow> BitU_new w v
      | BNone \<Rightarrow> Inr v)"

definition enum_class_ok :: "backing \<Rightarrow> (string \<times> int) list \<Rightarrow> bool" where
  "enum_class_ok b ms = list_all (\<lambda>m. backing_new b (snd m) = Inr (snd m)) ms"

section \<open>Attributes of annotations\<close>

definition type_size :: "ctype \<Rightarrow> memunit res" where
  "type_size t =
     (case t of
        TNum k \<Rightarrow> Inr (num_size k)
      | TBitU w \<Rightarrow> Inr w
      | TEnum _ b _ \<Rightarrow> backing_size b
      | TStruct _ ms \<Rightarrow> struct_size ms
      | _ \<Rightarrow> Inl AttributeError)"

definition type_fmt :: "ctype \<Rightarrow> fmt res" where
  "type_fmt t =
     (case t of
        TNum k \<Rightarrow> Inr (num_fmt k)
      | TEnum _ (BNum k) _ \<Rightarrow> Inr (num_fmt k)
      | _ \<Rightarrow> Inl AttributeError)"

definition is_type_dynamic :: "ctype \<Rightarrow> bool" where
  "is_type_dynamic t =
     (case t of
        TList _ \<Rightarrow> True
      | TStr \<Rightarrow> True
      | TBytes \<Rightarrow> True
      | TStruct _ ms \<Rightarrow> (case struct_attrs ms of Inr p \<Rightarrow> snd p \<noteq> [] | Inl _ \<Rightarrow> False)
      | _ \<Rightarrow> False)"

section \<open>Property of the numeric classes\<close>

text \<open>
  The constructor of every integer class accepts exactly the values its wire format
  carries, except for \<^verbatim>\<open>I64\<close>, which also accepts values of one more bit.
\<close>

lemma constructor_range:
  assumes "int_class_new k = Some new"
  shows "(new v = Inr v \<longleftrightarrow> (if k = I64 then - (2 ^ 64) \<le> v \<and> v < 2 ^ 64 else fmt_range (num_fmt k) v)) \<and>
    (new v = Inr v \<or> new v = Inl ValueError)"
  using assms by (cases k) (auto simp: int_class_new_defs fmt_range_def)

end
