(* ===== verification/Payload.thy ===== *)
theory Payload
  imports Types
begin

text \<open>
  The payload codec: \<^verbatim>\<open>pack_payload\<close> and \<^verbatim>\<open>unpack_payload\<close>.  Packing writes into a fixed
  buffer of 1024 bytes and threads a bit offset through it; unpacking threads a bit offset
  through the received bytes.  Both follow the order in which the code tests the type.
\<close>

section \<open>Packing\<close>

text \<open>
  \<^verbatim>\<open>dataclasses.astuple\<close>: the fields of a dataclass instance, in which nested instances have
  become plain tuples; anything that is not a dataclass instance is a \<^verbatim>\<open>TypeError\<close>.
\<close>

fun astuple_inner :: "pyval \<Rightarrow> pyval" where
  "astuple_inner (VStruct _ vs) = VTuple (map astuple_inner vs)"
| "astuple_inner (VList vs) = VList (map astuple_inner vs)"
| "astuple_inner (VTuple vs) = VTuple (map astuple_inner vs)"
| "astuple_inner v = v"

definition astuple :: "pyval \<Rightarrow> pyval list res" where
  "astuple v = (case v of VStruct _ vs \<Rightarrow> Inr (map astuple_inner vs) | _ \<Rightarrow> Inl TypeError)"

text \<open>
  The built-in \<^verbatim>\<open>bytes(value)\<close>: a copy of a bytes object, the bytes of a list or tuple of
  integers, or that many zero bytes for an integer.
\<close>

definition byte_of_item :: "pyval \<Rightarrow> byte res" where
  "byte_of_item v =
     (case as_index v of None \<Rightarrow> Inl TypeError
      | Some i \<Rightarrow> if 0 \<le> i \<and> i < 256 then Inr (word_of_int i) else Inl ValueError)"

definition py_bytes :: "pyval \<Rightarrow> byte list res" where
  "py_bytes v =
     (case v of
        VBytes bs \<Rightarrow> Inr bs
      | VList vs \<Rightarrow> rmap byte_of_item vs
      | VTuple vs \<Rightarrow> rmap byte_of_item vs
      | VInt n \<Rightarrow> if n < 0 then Inl ValueError else Inr (replicate (nat n) 0)
      | VEnum _ n \<Rightarrow> if n < 0 then Inl ValueError else Inr (replicate (nat n) 0)
      | _ \<Rightarrow> Inl TypeError)"

definition py_str_encode :: "pyval \<Rightarrow> byte list res" where
  "py_str_encode v = (case v of VStr s \<Rightarrow> str_encode s | _ \<Rightarrow> Inl TypeError)"

text \<open>A buffer together with the offset behind what has been written.\<close>

type_synonym packed = "byte list \<times> memunit"

text \<open>\<^verbatim>\<open>buffer[offset.bytes:offset.bytes+n] = data\<close>\<close>

definition put_bytes :: "byte list \<Rightarrow> memunit \<Rightarrow> nat \<Rightarrow> byte list \<Rightarrow> byte list res" where
  "put_bytes buf off n bs = slice_assign buf (mu_bytes off) n bs"

text \<open>A length prefix and the data behind it.\<close>

definition pack_blob :: "byte list \<Rightarrow> byte list \<Rightarrow> memunit \<Rightarrow> packed res" where
  "pack_blob bs buf off =
     rbind (struct_pack Fmt_H (VInt (int (length bs)))) (\<lambda>hdr.
     rbind (put_bytes buf off 2 hdr) (\<lambda>buf.
     let off = mu_set_bytes off (mu_bytes off + 2) in
     rbind (put_bytes buf off (length bs) bs) (\<lambda>buf.
     Inr (buf, mu_set_bytes off (mu_bytes off + length bs)))))"

text \<open>The element loop of a list.\<close>

fun pack_items :: "ctype \<Rightarrow> pyval list \<Rightarrow> byte list \<Rightarrow> memunit \<Rightarrow> packed res" where
  "pack_items inner [] buf off = Inr (buf, off)"
| "pack_items inner (i # is) buf off =
     rbind (type_fmt inner) (\<lambda>f.
     rbind (struct_pack f i) (\<lambda>bs.
     rbind (type_size inner) (\<lambda>s.
     rbind (put_bytes buf off (mu_bytes s) bs) (\<lambda>buf.
     pack_items inner is buf (mu_add off s)))))"

definition pack_list :: "ctype list \<Rightarrow> pyval \<Rightarrow> byte list \<Rightarrow> memunit \<Rightarrow> packed res" where
  "pack_list args v buf off =
     (case v of
        VList vs \<Rightarrow>
          (case args of
             [inner] \<Rightarrow>
               rbind (type_size inner) (\<lambda>s.
               rbind (struct_pack Fmt_H (VInt (int (length vs * mu_bytes s)))) (\<lambda>hdr.
               rbind (put_bytes buf off 2 hdr) (\<lambda>buf.
               pack_items inner vs buf (mu_set_bytes off (mu_bytes off + 2)))))
           | _ \<Rightarrow> Inl ValueError)
      | _ \<Rightarrow> Inl TypeError)"

definition pack_bitu :: "memunit \<Rightarrow> pyval \<Rightarrow> byte list \<Rightarrow> memunit \<Rightarrow> packed res" where
  "pack_bitu w v buf off =
     (case as_index v of
        Some i \<Rightarrow> BitU_pack w buf off i
      | None \<Rightarrow> if w = 0 then Inr (buf, off) else Inl TypeError)"

definition pack_num :: "numty \<Rightarrow> pyval \<Rightarrow> byte list \<Rightarrow> memunit \<Rightarrow> packed res" where
  "pack_num k v buf off =
     (let off = mu_byte_align off in
      rbind (struct_pack (num_fmt k) v) (\<lambda>bs.
      rbind (put_bytes buf off (mu_bytes (num_size k)) bs) (\<lambda>buf.
      Inr (buf, mu_add off (num_size k)))))"

text \<open>
  The function \<^verbatim>\<open>_pack\<close>.  A subclass test for the numeric classes or \<^verbatim>\<open>BitU\<close> comes before the
  one for enumerations, so the branch for enumerations is reached only by those without a
  Compost base class, for which it writes nothing.
\<close>

fun pack_value :: "ctype \<Rightarrow> pyval \<Rightarrow> byte list \<Rightarrow> memunit \<Rightarrow> packed res"
  and pack_members :: "members \<Rightarrow> pyval list \<Rightarrow> byte list \<Rightarrow> memunit \<Rightarrow> packed res" where
  "pack_value (TStruct _ ms) v buf off =
     (let off = mu_byte_align off in rbind (astuple v) (\<lambda>vs. pack_members ms vs buf off))"
| "pack_value TStr v buf off =
     (let off = mu_byte_align off in
      rbind (py_str_encode v) (\<lambda>bs. rbind (py_bytes (VBytes bs)) (\<lambda>bs. pack_blob bs buf off)))"
| "pack_value TBytes v buf off =
     (let off = mu_byte_align off in rbind (py_bytes v) (\<lambda>bs. pack_blob bs buf off))"
| "pack_value (TList args) v buf off = pack_list args v buf (mu_byte_align off)"
| "pack_value (TBitU w) v buf off = pack_bitu w v buf off"
| "pack_value (TEnum _ (BBitU w) _) v buf off = pack_bitu w v buf off"
| "pack_value (TNum k) v buf off = pack_num k v buf off"
| "pack_value (TEnum _ (BNum k) _) v buf off = pack_num k v buf off"
| "pack_value (TEnum _ BNone _) v buf off = Inr (buf, off)"
| "pack_value (TOther _) v buf off = Inl TypeError"
| "pack_members ((_, t) # ms) (v # vs) buf off =
     rbind (pack_value t v buf off) (\<lambda>p. pack_members ms vs (fst p) (snd p))"
| "pack_members ms vs buf off = Inr (buf, off)"

fun pack_args :: "ctype list \<Rightarrow> pyval list \<Rightarrow> byte list \<Rightarrow> memunit \<Rightarrow> packed res" where
  "pack_args (t # ts) (v # vs) buf off =
     rbind (pack_value t v buf off) (\<lambda>p. pack_args ts vs (fst p) (snd p))"
| "pack_args ts vs buf off = Inr (buf, off)"

definition pack_payload :: "ctype list \<Rightarrow> pyval list \<Rightarrow> byte list res" where
  "pack_payload types args =
     (let buffer = replicate 1024 0 in
      if length args \<noteq> length types then Inl ValueError
      else rbind (pack_args types args buffer 0) (\<lambda>p.
             Inr (slice 0 (mu_bytes (snd p)) (fst p))))"

section \<open>Unpacking\<close>

text \<open>Values read so far and the offset behind them.\<close>

type_synonym unpacked = "pyval list \<times> memunit"

fun int_of_val :: "pyval \<Rightarrow> int" where
  "int_of_val (VInt i) = i"
| "int_of_val _ = 0"

definition unpack_u16 :: "byte list \<Rightarrow> memunit \<Rightarrow> nat res" where
  "unpack_u16 payload off =
     rbind (unpack_from Fmt_H payload (mu_bytes off)) (\<lambda>v. Inr (nat (int_of_val v)))"

text \<open>The branch for byte strings and strings; the slice of the payload is clipped at its end.\<close>

definition unpack_blob :: "byte list \<Rightarrow> memunit \<Rightarrow> (byte list \<times> memunit) res" where
  "unpack_blob payload off =
     rbind (unpack_u16 payload off) (\<lambda>len.
     let off = mu_set_bytes off (mu_bytes off + 2) in
     Inr (slice (mu_bytes off) len payload, mu_set_bytes off (mu_bytes off + len)))"

fun unpack_items :: "ctype \<Rightarrow> nat \<Rightarrow> nat \<Rightarrow> byte list \<Rightarrow> nat \<Rightarrow> pyval list res" where
  "unpack_items inner w 0 payload o' = Inr []"
| "unpack_items inner w (Suc n) payload o' =
     rbind (type_fmt inner) (\<lambda>f.
     rbind (unpack_from f payload o') (\<lambda>v.
     rbind (unpack_items inner w n payload (o' + w)) (\<lambda>vs.
     Inr (v # vs))))"

definition unpack_list :: "ctype list \<Rightarrow> byte list \<Rightarrow> memunit \<Rightarrow> unpacked res" where
  "unpack_list args payload off =
     rbind (unpack_u16 payload off) (\<lambda>len.
     let off = mu_set_bytes off (mu_bytes off + 2) in
     (case args of
        [inner] \<Rightarrow>
          rbind (type_size inner) (\<lambda>s.
          if mu_bytes s = 0 then Inl ZeroDivisionError
          else
            let n = len div mu_bytes s in
            rbind (unpack_items inner (mu_bytes s) n payload (mu_bytes off)) (\<lambda>vs.
            Inr ([VList vs], mu_set_bytes off (mu_bytes off + n * mu_bytes s))))
      | _ \<Rightarrow> Inl ValueError))"

text \<open>\<^verbatim>\<open>t(val)\<close> for an enumeration class: the member with that value.\<close>

definition enum_lookup :: "string \<Rightarrow> (string \<times> int) list \<Rightarrow> int \<Rightarrow> pyval res" where
  "enum_lookup n ms v = (if v \<in> snd ` set ms then Inr (VEnum n v) else Inl ValueError)"

definition unpack_num :: "numty \<Rightarrow> byte list \<Rightarrow> memunit \<Rightarrow> (pyval \<times> memunit) res" where
  "unpack_num k payload off =
     rbind (unpack_from (num_fmt k) payload (mu_bytes off)) (\<lambda>v. Inr (v, mu_add off (num_size k)))"

text \<open>
  The function \<^verbatim>\<open>_unpack\<close>.  The two \<^verbatim>\<open>TypeError(...)\<close> expressions of the code are not raised:
  for an unsupported type no value is produced and the offset stays.  Inside a structure
  \<^verbatim>\<open>members.append(*values)\<close> then raises, since it takes exactly one argument.
\<close>

fun unpack_value :: "ctype \<Rightarrow> byte list \<Rightarrow> memunit \<Rightarrow> unpacked res"
  and unpack_members :: "members \<Rightarrow> byte list \<Rightarrow> memunit \<Rightarrow> unpacked res" where
  "unpack_value (TStruct n ms) payload off =
     rbind (unpack_members ms payload (mu_byte_align off)) (\<lambda>p. Inr ([VStruct n (fst p)], snd p))"
| "unpack_value TBytes payload off =
     rbind (unpack_blob payload off) (\<lambda>p. Inr ([VBytes (fst p)], snd p))"
| "unpack_value TStr payload off =
     rbind (unpack_blob payload off) (\<lambda>p.
     rbind (bytes_decode (fst p)) (\<lambda>s. Inr ([VStr s], snd p)))"
| "unpack_value (TList args) payload off = unpack_list args payload off"
| "unpack_value (TEnum n (BBitU w) ms) payload off =
     rbind (BitU_unpack w payload off) (\<lambda>p.
     rbind (enum_lookup n ms (fst p)) (\<lambda>v. Inr ([v], snd p)))"
| "unpack_value (TEnum n (BNum k) ms) payload off =
     (if k \<in> {I8, U8, I16} then
        rbind (unpack_num k payload off) (\<lambda>p.
        rbind (enum_lookup n ms (int_of_val (fst p))) (\<lambda>v. Inr ([v], snd p)))
      else Inr ([], off))"
| "unpack_value (TEnum n BNone ms) payload off = Inr ([], off)"
| "unpack_value (TBitU w) payload off =
     rbind (BitU_unpack w payload off) (\<lambda>p. Inr ([VInt (fst p)], snd p))"
| "unpack_value (TNum k) payload off =
     rbind (unpack_num k payload off) (\<lambda>p. Inr ([fst p], snd p))"
| "unpack_value (TOther _) payload off = Inr ([], off)"
| "unpack_members [] payload off = Inr ([], off)"
| "unpack_members ((_, t) # ms) payload off =
     rbind (unpack_value t payload off) (\<lambda>p.
     if length (fst p) \<noteq> 1 then Inl TypeError
     else rbind (unpack_members ms payload (snd p)) (\<lambda>q. Inr (fst p @ fst q, snd q)))"

fun unpack_args :: "ctype list \<Rightarrow> byte list \<Rightarrow> memunit \<Rightarrow> unpacked res" where
  "unpack_args [] payload off = Inr ([], off)"
| "unpack_args (t # ts) payload off =
     rbind (unpack_value t payload off) (\<lambda>p.
     rbind (unpack_args ts payload (snd p)) (\<lambda>q. Inr (fst p @ fst q, snd q)))"

definition unpack_payload :: "ctype list \<Rightarrow> byte list \<Rightarrow> pyval list res" where
  "unpack_payload types payload = rbind (unpack_args types payload 0) (\<lambda>p. Inr (fst p))"


section \<open>What packing does to the buffer\<close>

text \<open>
  A step from \<open>(buf, off)\<close> to \<open>(buf', off')\<close> only appends: the length is kept, the offset grows
  within the buffer, and no bit in front of \<open>off\<close> changes.
\<close>

definition appends :: "byte list \<Rightarrow> memunit \<Rightarrow> byte list \<Rightarrow> memunit \<Rightarrow> bool" where
  "appends buf off buf' off' \<longleftrightarrow>
     length buf' = length buf \<and> off \<le> off' \<and> off' \<le> 8 * length buf \<and>
     (\<forall>i < off. buf_bit buf' i = buf_bit buf i)"

lemma appends_refl: "off \<le> 8 * length buf \<Longrightarrow> appends buf off buf off"
  by (simp add: appends_def)

lemma appends_trans [trans]:
  "appends a p b q \<Longrightarrow> appends b q c r \<Longrightarrow> appends a p c r"
  by (auto simp: appends_def)

lemma appends_mono: "appends a p b q \<Longrightarrow> p' \<le> p \<Longrightarrow> appends a p' b q"
  by (auto simp: appends_def)

lemma appends_fit: "appends a p b q \<Longrightarrow> q \<le> 8 * length b"
  by (simp add: appends_def)

text \<open>A received payload agrees with the written buffer up to the offset \<open>n\<close>.\<close>

definition agrees :: "byte list \<Rightarrow> byte list \<Rightarrow> memunit \<Rightarrow> bool" where
  "agrees B buf n \<longleftrightarrow> mu_bytes n \<le> length B \<and> (\<forall>i < n. buf_bit B i = buf_bit buf i)"

lemma agrees_appends: "agrees B buf' q \<Longrightarrow> appends buf p buf' q \<Longrightarrow> agrees B buf p"
  using mu_bytes_mono [of p q] by (auto simp: agrees_def appends_def)

lemma agrees_slice:
  assumes "agrees B buf n" and "8 * (k + m) \<le> n" and "n \<le> 8 * length buf"
  shows "slice k m B = slice k m buf" "k + m \<le> length B"
proof -
  have "k + m \<le> mu_bytes n"
    using mu_bytes_mono [OF assms(2)] unfolding mu_bytes_mult .
  with assms show B: "k + m \<le> length B" by (simp add: agrees_def)
  show "slice k m B = slice k m buf"
    using assms B by (intro slice_eqI) (auto simp: agrees_def)
qed

lemma agrees_payload:
  assumes "n \<le> 8 * length buf"
  shows "agrees (slice 0 (mu_bytes n) buf @ rest) buf n"
proof -
  have b: "mu_bytes n \<le> length buf" using assms by (simp add: mu_bytes_le_iff)
  have "buf_bit (take (mu_bytes n) buf @ rest) i = buf_bit buf i" if "i < n" for i
    using that b mu_bytes_bounds(1) [of n] by (simp add: buf_bit_append buf_bit_take)
  with b show ?thesis by (simp add: agrees_def slice_def)
qed

lemma mu_set_bytes_eq: "mu_set_bytes b n = 8 * n"
  by (simp add: mu_set_bytes_def BITS_PER_BYTE_def)

lemma mu_bytes_header [simp]: "mu_bytes (16 + 8 * n) = n + 2"
  using mu_bytes_mult [of "n + 2"] by simp

lemma slice_assign_spec:
  assumes "slice_assign buf k n ys = Inr buf'" and "length ys = n" and "k \<le> length buf"
  shows "k + n \<le> length buf" "length buf' = length buf" "slice k n buf' = ys"
    "i < 8 * k \<Longrightarrow> buf_bit buf' i = buf_bit buf i"
proof -
  from slice_assign_fit [OF assms(2,1)] assms(3) show fit: "k + n \<le> length buf" by auto
  then have b: "buf' = take k buf @ ys @ drop (k + n) buf"
    using assms by (simp add: slice_assign_Inr)
  show "length buf' = length buf" using b fit assms(2) by simp
  show "slice k n buf' = ys" using b fit assms(2) by (simp add: slice_def)
  show "buf_bit buf' i = buf_bit buf i" if "i < 8 * k"
    using that b assms(3) by (simp add: buf_bit_append buf_bit_take)
qed

lemma put_bytes_spec:
  assumes "put_bytes buf off n bs = Inr buf'" and "length bs = n" and "off \<le> 8 * length buf"
  shows "appends buf off buf' (8 * (mu_bytes off + n))" "slice (mu_bytes off) n buf' = bs"
proof -
  have "mu_bytes off \<le> length buf" using assms(3) by (simp add: mu_bytes_le_iff)
  note s = slice_assign_spec [OF assms(1) [unfolded put_bytes_def] assms(2) this]
  show "slice (mu_bytes off) n buf' = bs" by (rule s(3))
  show "appends buf off buf' (8 * (mu_bytes off + n))"
    using s(1,2) s(4) mu_bytes_bounds(1) [of off] by (auto simp: appends_def)
qed

lemma put_bytes_total:
  assumes "length bs = n" and "8 * (mu_bytes off + n) \<le> 8 * length buf"
  shows "\<exists>buf'. put_bytes buf off n bs = Inr buf'"
  using assms by (simp add: put_bytes_def slice_assign_Inr)

lemma mu_bytes_num_size [simp]: "mu_bytes (num_size k) = fmt_width (num_fmt k)"
  by (simp add: num_size_width)

lemma pack_num_spec:
  assumes "pack_num k v buf off = Inr (buf', off')" and "off \<le> 8 * length buf"
  shows "\<exists>bs. struct_pack (num_fmt k) v = Inr bs \<and> off' = 8 * (mu_bytes off + fmt_width (num_fmt k)) \<and>
           slice (mu_bytes off) (fmt_width (num_fmt k)) buf' = bs \<and> appends buf off buf' off'"
proof -
  let ?w = "fmt_width (num_fmt k)"
  from assms(1) obtain bs where bs: "struct_pack (num_fmt k) v = Inr bs"
    and p: "put_bytes buf (8 * mu_bytes off) ?w bs = Inr buf'"
    and off': "off' = 8 * (mu_bytes off + ?w)"
    by (auto simp: pack_num_def Let_def mu_byte_align_eq rbind_Inr_iff mu_add_def num_size_width)
  have fit: "8 * mu_bytes off \<le> 8 * length buf" using assms(2) by (simp add: mu_bytes_le_iff)
  show ?thesis
    using put_bytes_spec [OF p struct_pack_width [OF bs] fit] bs off' mu_bytes_bounds(1) [of off]
    by (auto intro: appends_mono)
qed

lemma u16_header:
  "struct_pack Fmt_H (VInt (int n)) = Inr hdr \<Longrightarrow>
   length hdr = 2 \<and> hdr = be_encode 2 (int n) \<and> n < 65536"
  by (auto simp: struct_pack_def fmt_range_def split: if_splits)

lemma pack_blob_spec:
  assumes "pack_blob bs buf off = Inr (buf', off')" and "off \<le> 8 * length buf"
  shows "length bs < 65536 \<and> off' = 8 * (mu_bytes off + 2 + length bs) \<and>
    slice (mu_bytes off) 2 buf' = be_encode 2 (int (length bs)) \<and>
    slice (mu_bytes off + 2) (length bs) buf' = bs \<and> appends buf off buf' off'"
proof -
  let ?n = "length bs" and ?o = "8 * (mu_bytes off + 2)"
  from assms(1) obtain hdr b1 where h: "struct_pack Fmt_H (VInt (int ?n)) = Inr hdr"
    and p1: "put_bytes buf off 2 hdr = Inr b1" and p2: "put_bytes b1 ?o ?n bs = Inr buf'"
    and off': "off' = 8 * (mu_bytes off + 2 + ?n)"
    by (auto simp: pack_blob_def Let_def rbind_Inr_iff mu_set_bytes_eq)
  note h = u16_header [OF h]
  note s1 = put_bytes_spec [OF p1 _ assms(2)]
  have a1: "appends buf off b1 ?o" "slice (mu_bytes off) 2 b1 = hdr" using s1 h by simp_all
  note s2 = put_bytes_spec [OF p2 refl appends_fit [OF a1(1)]]
  have a2: "appends b1 ?o buf' off'" using s2(1) off' by simp
  have "slice (mu_bytes off) 2 buf' = slice (mu_bytes off) 2 b1"
    using a2 by (intro slice_eqI) (auto simp: appends_def)
  with a1 a2 s2(2) off' h show ?thesis by (auto intro: appends_trans)
qed

lemma type_fmt_size: "type_fmt t = Inr f \<Longrightarrow> type_size t = Inr (8 * fmt_width f)"
  by (auto simp: type_fmt_def type_size_def backing_size_def num_size_width
      split: ctype.splits backing.splits)

lemma pack_items_spec:
  assumes "pack_items inner vs buf off = Inr (buf', off')" and "off = 8 * b"
    and "off \<le> 8 * length buf"
  shows "appends buf off buf' off' \<and>
    (vs = [] \<and> off' = off \<or>
     (\<exists>f bss. type_fmt inner = Inr f \<and> rmap (struct_pack f) vs = Inr bss \<and>
        off' = 8 * (b + length vs * fmt_width f) \<and>
        slice b (length vs * fmt_width f) buf' = concat bss))"
  using assms
proof (induction vs arbitrary: buf off b)
  case Nil
  then show ?case by (simp add: appends_refl)
next
  case (Cons v vs)
  from Cons.prems(1) obtain f bs b1 where f: "type_fmt inner = Inr f"
    and bs: "struct_pack f v = Inr bs" and p: "put_bytes buf off (fmt_width f) bs = Inr b1"
    and rest: "pack_items inner vs b1 (8 * (b + fmt_width f)) = Inr (buf', off')"
    using type_fmt_size
    by (auto simp: rbind_Inr_iff mu_add_def Cons.prems(2))
  let ?w = "fmt_width f"
  note s = put_bytes_spec [OF p struct_pack_width [OF bs] Cons.prems(3), unfolded Cons.prems(2) mu_bytes_mult]
  note IH = Cons.IH [OF rest refl appends_fit [OF s(1)]]
  obtain bss where bss: "rmap (struct_pack f) vs = Inr bss"
    and off': "off' = 8 * (b + ?w + length vs * ?w)"
    and sl: "slice (b + ?w) (length vs * ?w) buf' = concat bss"
    using IH f by (cases "vs = []") (auto simp: slice_def)
  have a2: "appends b1 (8 * (b + ?w)) buf' off'" using IH by blast
  have "slice b ?w buf' = bs"
    using a2 by (subst s(2) [symmetric], intro slice_eqI) (auto simp: appends_def)
  then have "slice b (?w + length vs * ?w) buf' = bs @ concat bss"
    using sl by (simp add: slice_def take_add add.commute)
  then show ?case
    using f bs bss off' appends_trans [OF s(1) a2] Cons.prems(2) by auto
qed


lemma pack_list_spec:
  assumes "pack_list args v buf off = Inr (buf', off')" and "off \<le> 8 * length buf"
  shows "appends buf off buf' off' \<and>
    (\<exists>vs inner s. v = VList vs \<and> args = [inner] \<and> type_size inner = Inr s \<and>
       length vs * mu_bytes s < 65536 \<and>
       slice (mu_bytes off) 2 buf' = be_encode 2 (int (length vs * mu_bytes s)) \<and>
       8 * (mu_bytes off + 2) \<le> off' \<and>
       (vs = [] \<and> off' = 8 * (mu_bytes off + 2) \<or>
        (\<exists>f bss. type_fmt inner = Inr f \<and> rmap (struct_pack f) vs = Inr bss \<and>
           off' = 8 * (mu_bytes off + 2 + length vs * fmt_width f) \<and>
           slice (mu_bytes off + 2) (length vs * fmt_width f) buf' = concat bss)))"
proof -
  obtain vs inner s hdr b1 where v: "v = VList vs" "args = [inner]" and s: "type_size inner = Inr s"
    and h: "struct_pack Fmt_H (VInt (int (length vs * mu_bytes s))) = Inr hdr"
    and p: "put_bytes buf off 2 hdr = Inr b1"
    and items: "pack_items inner vs b1 (8 * (mu_bytes off + 2)) = Inr (buf', off')"
    using assms(1)
    by (auto simp: pack_list_def rbind_Inr_iff mu_set_bytes_eq split: pyval.splits list.splits)
  note h = u16_header [OF h]
  note s1 = put_bytes_spec [OF p _ assms(2)]
  have a1: "appends buf off b1 (8 * (mu_bytes off + 2))" "slice (mu_bytes off) 2 b1 = hdr"
    using s1 h by simp_all
  note it = pack_items_spec [OF items refl appends_fit [OF a1(1)]]
  then have a2: "appends b1 (8 * (mu_bytes off + 2)) buf' off'" by blast
  have "slice (mu_bytes off) 2 buf' = slice (mu_bytes off) 2 b1"
    using a2 by (intro slice_eqI) (auto simp: appends_def)
  then have hdr: "slice (mu_bytes off) 2 buf' = be_encode 2 (int (length vs * mu_bytes s))"
    "length vs * mu_bytes s < 65536" using h a1(2) by simp_all
  have "8 * (mu_bytes off + 2) \<le> off'" using a2 by (simp add: appends_def)
  then show ?thesis
    using appends_trans [OF a1(1) a2] v s hdr it by blast
qed

lemma pack_bitu_spec:
  assumes "pack_bitu w v buf off = Inr (buf', off')" and "off \<le> 8 * length buf"
  shows "appends buf off buf' off' \<and> off' = off + w \<and>
    (\<forall>i. as_index v = Some i \<longrightarrow> BitU_load w buf' off = Inr (take_bit w i))"
proof (cases "as_index v")
  case None
  with assms show ?thesis by (auto simp: pack_bitu_def appends_refl split: if_splits)
next
  case (Some i)
  with assms(1) have st: "BitU_store w buf off i = Inr buf'" and off': "off' = off + w"
    by (auto simp: pack_bitu_def BitU_pack_eq rbind_Inr_iff)
  have fit: "off + w \<le> 8 * length buf"
  proof (rule ccontr)
    assume "\<not> off + w \<le> 8 * length buf"
    with assms(2) have "0 < w" "8 * length buf < off + w" by linarith+
    with st show False by (simp add: BitU_store_IndexError)
  qed
  show ?thesis
    using bitu.store_result [OF TrueI fit st] bitu.load_store [OF TrueI fit st] fit off' Some
    by (auto simp: appends_def)
qed

text \<open>Packing any value against any type only appends.\<close>

lemma pack_value_appends:
  "pack_value t v buf off = Inr (buf', off') \<Longrightarrow> off \<le> 8 * length buf \<Longrightarrow> appends buf off buf' off'"
  "pack_members ms vs buf off = Inr (buf', off') \<Longrightarrow> off \<le> 8 * length buf \<Longrightarrow> appends buf off buf' off'"
proof (induction t v buf off and ms vs buf off arbitrary: buf' off' and buf' off'
    rule: pack_value_pack_members.induct)
  case (1 n ms v buf off)
  have fit: "8 * mu_bytes off \<le> 8 * length buf" using "1.prems"(2) by (simp add: mu_bytes_le_iff)
  from "1.prems"(1) obtain vs where "astuple v = Inr vs"
    "pack_members ms vs buf (8 * mu_bytes off) = Inr (buf', off')"
    by (auto simp: Let_def rbind_Inr_iff mu_byte_align_eq)
  then have "appends buf (8 * mu_bytes off) buf' off'"
    using "1.IH" [OF mu_byte_align_eq [symmetric]] fit by simp
  then show ?case by (rule appends_mono) (rule mu_bytes_bounds)
next
  case (11 x t ms v vs buf off)
  then obtain b1 o1 where 2: "pack_value t v buf off = Inr (b1, o1)"
    and 3: "pack_members ms vs b1 o1 = Inr (buf', off')"
    by (auto simp: rbind_Inr_iff)
  note a = "11.IH"(1) [OF 2 "11.prems"(2)]
  show ?case
    using appends_trans [OF a] "11.IH"(2) [OF 2] 3 appends_fit [OF a] by simp
qed (auto simp: Let_def rbind_Inr_iff mu_byte_align_eq mu_bytes_le_iff appends_refl
       dest!: pack_blob_spec pack_list_spec pack_bitu_spec pack_num_spec
       intro: appends_mono [OF _ mu_bytes_bounds(1)])

lemma pack_args_appends:
  "pack_args ts vs buf off = Inr (buf', off') \<Longrightarrow> off \<le> 8 * length buf \<Longrightarrow> appends buf off buf' off'"
proof (induction ts vs buf off rule: pack_args.induct)
  case (1 t ts v vs buf off)
  then obtain b1 o1 where 2: "pack_value t v buf off = Inr (b1, o1)"
    and 3: "pack_args ts vs b1 o1 = Inr (buf', off')"
    by (auto simp: rbind_Inr_iff)
  note a = pack_value_appends(1) [OF 2 "1.prems"(2)]
  show ?case using appends_trans [OF a] "1.IH" [OF 2] 3 appends_fit [OF a] by auto
qed (simp_all add: appends_refl)


section \<open>Well-typed values and the offsets of the two directions\<close>

text \<open>
  The values that unpacking can return for a type: numbers the format carries exactly,
  enumeration members of the class, strings of scalar values, lists over a numeric class.
\<close>

fun wt :: "ctype \<Rightarrow> pyval \<Rightarrow> bool" and wt_members :: "members \<Rightarrow> pyval list \<Rightarrow> bool" where
  "wt (TNum k) v = fmt_dom (num_fmt k) v"
| "wt (TBitU w) v = (case v of VInt i \<Rightarrow> 0 \<le> i \<and> i < 2 ^ w | _ \<Rightarrow> False)"
| "wt (TEnum n b ms) v =
     (case v of
        VEnum n' i \<Rightarrow> n' = n \<and> i \<in> snd ` set ms \<and>
          (case b of BNum k \<Rightarrow> k \<in> {I8, U8, I16} \<and> fmt_range (num_fmt k) i
           | BBitU w \<Rightarrow> 0 \<le> i \<and> i < 2 ^ w | BNone \<Rightarrow> False)
      | _ \<Rightarrow> False)"
| "wt TStr v = (case v of VStr s \<Rightarrow> list_all scalar_value s | _ \<Rightarrow> False)"
| "wt TBytes v = (case v of VBytes _ \<Rightarrow> True | _ \<Rightarrow> False)"
| "wt (TList args) v =
     (case args of
        [TNum k] \<Rightarrow> (case v of VList vs \<Rightarrow> list_all (fmt_dom (num_fmt k)) vs | _ \<Rightarrow> False)
      | _ \<Rightarrow> False)"
| "wt (TStruct n ms) v = (case v of VStruct n' vs \<Rightarrow> n' = n \<and> wt_members ms vs | _ \<Rightarrow> False)"
| "wt (TOther _) v = False"
| "wt_members [] vs = (vs = [])"
| "wt_members ((_, t) # ms) vs = (case vs of v # vs' \<Rightarrow> wt t v \<and> wt_members ms vs' | [] \<Rightarrow> False)"

text \<open>
  Packing aligns the offset to a byte before every number; unpacking reads at the next byte
  boundary but adds the size to the unaligned offset.  The two offsets therefore have the same
  ceiling in bytes and may differ within the last byte.  \<open>phase\<close> computes, from the two offsets
  modulo 8, the offsets modulo 8 behind a type, and fails when a bit field is reached while
  they differ.
\<close>

definition bit_phase :: "memunit \<Rightarrow> nat \<times> nat \<Rightarrow> (nat \<times> nat) option" where
  "bit_phase w pu =
     (if w = 0 then Some pu
      else if fst pu = snd pu then Some ((fst pu + w) mod 8, (snd pu + w) mod 8) else None)"

fun phase :: "ctype \<Rightarrow> nat \<times> nat \<Rightarrow> (nat \<times> nat) option"
  and phases :: "members \<Rightarrow> nat \<times> nat \<Rightarrow> (nat \<times> nat) option" where
  "phase (TNum _) pu = Some (0, snd pu)"
| "phase (TBitU w) pu =
     bit_phase w pu"
| "phase (TEnum n b ms) pu =
     (case b of
        BNum _ \<Rightarrow> Some (0, snd pu)
      | BBitU w \<Rightarrow> bit_phase w pu
      | BNone \<Rightarrow> Some pu)"
| "phase TStr pu = Some (0, 0)"
| "phase TBytes pu = Some (0, 0)"
| "phase (TList _) pu = Some (0, 0)"
| "phase (TStruct _ ms) pu = phases ms (0, 0)"
| "phase (TOther _) pu = Some pu"
| "phases [] pu = Some pu"
| "phases ((_, t) # ms) pu = (case phase t pu of None \<Rightarrow> None | Some pu' \<Rightarrow> phases ms pu')"

fun phases_args :: "ctype list \<Rightarrow> nat \<times> nat \<Rightarrow> (nat \<times> nat) option" where
  "phases_args [] pu = Some pu"
| "phases_args (t # ts) pu = (case phase t pu of None \<Rightarrow> None | Some pu' \<Rightarrow> phases_args ts pu')"

definition in_step :: "ctype list \<Rightarrow> bool" where
  "in_step ts = (phases_args ts (0, 0) \<noteq> None)"

definition tracks :: "memunit \<Rightarrow> memunit \<Rightarrow> bool" where
  "tracks off u \<longleftrightarrow> u \<le> off \<and> mu_bytes u = mu_bytes off"

lemma tracks_refl: "tracks off off"
  by (simp add: tracks_def)

lemma tracks_eq:
  assumes "tracks off u" and "off mod 8 = u mod 8" shows "u = off"
proof -
  have "u \<le> off" "off < u + 8"
    using assms(1) mu_bytes_bounds [of off] mu_bytes_bounds [of u] by (auto simp: tracks_def)
  moreover have "8 dvd off - u" using assms(2) calculation(1) by (simp add: mod_eq_dvd_iff_nat)
  then obtain k where "off - u = 8 * k" by (elim dvdE)
  ultimately show ?thesis by (cases k) simp_all
qed

lemma bit_phase_Some:
  "bit_phase w (off mod 8, u mod 8) = Some ph \<Longrightarrow>
   ph = ((off + w) mod 8, (u + w) mod 8) \<and> (w = 0 \<or> off mod 8 = u mod 8)"
  by (auto simp: bit_phase_def mod_add_left_eq split: if_splits intro: mod_add_cong)

lemma tracks_num: "tracks off u \<Longrightarrow> tracks (8 * (mu_bytes off + n)) (u + 8 * n)"
  using mu_bytes_bounds(1) [of off] mu_bytes_mult [of "mu_bytes off + n"]
  by (simp add: tracks_def mu_bytes_add_mult)

section \<open>Reading back what was packed\<close>

lemma unpack_from_agrees:
  assumes "agrees B buf n" and "8 * (k + fmt_width f) \<le> n" and "n \<le> 8 * length buf"
  shows "unpack_from f B k = Inr (struct_unpack f (slice k (fmt_width f) buf))"
  using agrees_slice [OF assms] by (simp add: unpack_from_def)

lemma unpack_num_readback:
  assumes p: "pack_num k v buf off = Inr (buf', off')" and fit: "off \<le> 8 * length buf"
    and v: "struct_pack (num_fmt k) v = struct_pack (num_fmt k) v'" "fmt_dom (num_fmt k) v'"
    and u: "tracks off u" and B: "agrees B buf' off'"
  shows "unpack_num k B u = Inr (v', u + num_size k)" "tracks off' (u + num_size k)"
    "off' mod 8 = 0" "(u + num_size k) mod 8 = u mod 8"
proof -
  let ?w = "fmt_width (num_fmt k)"
  obtain bs where bs: "struct_pack (num_fmt k) v = Inr bs" and o: "off' = 8 * (mu_bytes off + ?w)"
    and s: "slice (mu_bytes off) ?w buf' = bs" and a: "appends buf off buf' off'"
    using pack_num_spec [OF p fit] by blast
  have "struct_unpack (num_fmt k) bs = v'"
    using st.enc_decode [OF v(2)] bs v(1) by simp
  moreover have "mu_bytes u = mu_bytes off" using u by (simp add: tracks_def)
  ultimately show "unpack_num k B u = Inr (v', u + num_size k)"
    using unpack_from_agrees [OF B _ appends_fit [OF a], of "mu_bytes off" "num_fmt k"] o s
    by (simp add: unpack_num_def mu_add_def)
  show "tracks off' (u + num_size k)" using tracks_num [OF u] by (simp add: o num_size_width)
  show "off' mod 8 = 0" "(u + num_size k) mod 8 = u mod 8" by (simp_all add: o num_size_width)
qed

lemma unpack_u16_agrees:
  assumes "agrees B buf n" and "n \<le> 8 * length buf" and "8 * (mu_bytes off + 2) \<le> n"
    and "slice (mu_bytes off) 2 buf = be_encode 2 (int len)" and "len < 65536"
    and "mu_bytes u = mu_bytes off"
  shows "unpack_u16 B u = Inr len"
proof -
  have "unpack_from Fmt_H B (mu_bytes off) = Inr (struct_unpack Fmt_H (be_encode 2 (int len)))"
    using unpack_from_agrees [OF assms(1) _ assms(2), of "mu_bytes off" Fmt_H] assms(3,4) by simp
  moreover have "struct_unpack Fmt_H (be_encode 2 (int len)) = VInt (int len)"
    using struct_int_roundtrip [of Fmt_H "int len"] assms(5) by (simp add: fmt_range_def)
  ultimately show ?thesis using assms(6) by (simp add: unpack_u16_def)
qed

lemma unpack_blob_readback:
  assumes p: "pack_blob bs buf off = Inr (buf', off')" and fit: "off \<le> 8 * length buf"
    and u: "mu_bytes u = mu_bytes off" and B: "agrees B buf' off'"
  shows "unpack_blob B u = Inr (bs, off')" "off' mod 8 = 0"
proof -
  note s = pack_blob_spec [OF p fit]
  have fit': "off' \<le> 8 * length buf'" using s appends_fit by blast
  have len: "unpack_u16 B u = Inr (length bs)"
    using s u by (intro unpack_u16_agrees [OF B fit']) auto
  have "slice (mu_bytes off + 2) (length bs) B = bs"
    using s agrees_slice(1) [OF B _ fit', of "mu_bytes off + 2" "length bs"] by simp
  then show "unpack_blob B u = Inr (bs, off')"
    using s u by (simp add: unpack_blob_def len Let_def mu_set_bytes_eq)
  show "off' mod 8 = 0" using s by simp
qed

lemma unpack_items_chunks:
  assumes "type_fmt inner = Inr f"
  shows "o' + n * fmt_width f \<le> length B \<Longrightarrow>
    unpack_items inner (fmt_width f) n B o' =
      Inr (decode_chunks (struct_unpack f) (fmt_width f) n (drop o' B))"
proof (induction n arbitrary: o')
  case (Suc n)
  then show ?case
    using assms by (simp add: unpack_from_def slice_def add.commute add.left_commute)
qed simp

lemma unpack_list_readback:
  assumes p: "pack_list [TNum k] (VList vs) buf off = Inr (buf', off')"
    and fit: "off \<le> 8 * length buf" and v: "list_all (fmt_dom (num_fmt k)) vs"
    and u: "mu_bytes u = mu_bytes off" and B: "agrees B buf' off'"
  shows "unpack_list [TNum k] B u = Inr ([VList vs], off')" "off' mod 8 = 0"
proof -
  let ?f = "num_fmt k" and ?b = "mu_bytes off + 2"
  let ?n = "length vs * fmt_width ?f"
  have ty: "type_fmt (TNum k) = Inr ?f" "type_size (TNum k) = Inr (8 * fmt_width ?f)"
    by (simp_all add: type_fmt_def type_size_def num_size_width)
  note s = pack_list_spec [OF p fit]
  have fit': "off' \<le> 8 * length buf'" using s appends_fit by blast
  obtain bss where lt: "?n < 65536" and bss: "rmap (struct_pack ?f) vs = Inr bss"
    and hdr: "slice (mu_bytes off) 2 buf' = be_encode 2 (int ?n)"
    and o: "off' = 8 * (?b + ?n)" and c: "slice ?b ?n buf' = concat bss"
  proof -
    from s ty show ?thesis by (cases "vs = []") (auto intro!: that simp: slice_def)
  qed
  have len: "unpack_u16 B u = Inr ?n"
    using hdr lt u o by (intro unpack_u16_agrees [OF B fit']) auto
  have sl: "slice ?b ?n B = concat bss" and l: "?b + ?n \<le> length B"
    using agrees_slice [OF B _ fit', of ?b ?n] o c by simp_all
  have "drop ?b B = concat bss @ drop ?n (drop ?b B)"
    using sl append_take_drop_id [of ?n "drop ?b B"] unfolding slice_def by metis
  then have "decode_chunks (struct_unpack ?f) (fmt_width ?f) (length vs) (drop ?b B) = vs"
    using st.enc_list_roundtrip [OF v bss] by metis
  then have "unpack_items (TNum k) (fmt_width ?f) (length vs) B ?b = Inr vs"
    using unpack_items_chunks [OF ty(1) l] by simp
  then show "unpack_list [TNum k] B u = Inr ([VList vs], off')"
    using o u by (simp add: unpack_list_def len ty(2) Let_def mu_set_bytes_eq)
  show "off' mod 8 = 0" using o by simp
qed

lemma BitU_load_0: "BitU_load 0 B u = Inr 0"
  by (simp add: BitU_load_def BitU_unpack_def BitU_unpack_loop.simps)

lemma unpack_bitu_readback:
  assumes p: "pack_bitu w v buf off = Inr (buf', off')" and fit: "off \<le> 8 * length buf"
    and v: "as_index v = Some i" "0 \<le> i" "i < 2 ^ w"
    and u: "tracks off u" "w = 0 \<or> off mod 8 = u mod 8" and B: "agrees B buf' off'"
  shows "BitU_unpack w B u = Inr (i, u + w)" "tracks off' (u + w)" "off' = off + w"
proof -
  note s = pack_bitu_spec [OF p fit]
  have i: "take_bit w i = i" using v by (simp add: take_bit_int_eq_self)
  show off': "off' = off + w" using s by simp
  have "BitU_load w B u = Inr i \<and> tracks (off + w) (u + w)"
  proof (cases "w = 0")
    case True
    with u v show ?thesis by (simp add: BitU_load_0)
  next
    case False
    with u have "u = off" using tracks_eq by blast
    moreover have "BitU_load w B off = BitU_load w buf' off"
    proof (rule bitu.load_cong)
      show "off + w \<le> 8 * length B" "off + w \<le> 8 * length buf'"
        using B s appends_fit by (auto simp: agrees_def mu_bytes_le_iff)
    qed (use B off' in \<open>auto simp: agrees_def\<close>)
    ultimately show ?thesis using s v i by (simp add: tracks_refl)
  qed
  then show "BitU_unpack w B u = Inr (i, u + w)" "tracks off' (u + w)"
    by (simp_all add: BitU_unpack_eq off')
qed

text \<open>
  A value is read back from every payload that agrees with the packed buffer, from every
  unpacking offset that tracks the packing offset.
\<close>

definition reads_back ::
  "ctype \<Rightarrow> pyval \<Rightarrow> byte list \<Rightarrow> memunit \<Rightarrow> memunit \<Rightarrow> nat \<times> nat \<Rightarrow> bool" where
  "reads_back t v buf' off' u ph \<longleftrightarrow>
     (\<forall>B. agrees B buf' off' \<longrightarrow>
        (\<exists>u'. unpack_value t B u = Inr ([v], u') \<and> tracks off' u' \<and> ph = (off' mod 8, u' mod 8)))"

lemma fmt_dom_astuple: "fmt_dom f v \<Longrightarrow> astuple_inner v = v"
  by (cases v) simp_all

lemma wt_TListE:
  assumes "wt (TList args) v"
  obtains k vs where "args = [TNum k]" "v = VList vs" "list_all (fmt_dom (num_fmt k)) vs"
proof (cases args)
  case (Cons a as)
  with assms that show ?thesis
    by (cases as) (auto split: ctype.splits pyval.splits)
qed (use assms in auto)

lemma wt_astuple: "wt t v \<Longrightarrow> \<not> is_compost_struct t \<Longrightarrow> astuple_inner v = v"
proof (cases t)
  case (TList args)
  assume "wt t v"
  with TList obtain k vs where "v = VList vs" "list_all (fmt_dom (num_fmt k)) vs"
    by (auto simp del: wt.simps elim: wt_TListE)
  then show ?thesis by (auto simp: list_all_iff intro!: map_idI fmt_dom_astuple)
qed (auto split: pyval.splits backing.splits dest: fmt_dom_astuple)

lemma pack_nested_struct: "pack_value (TStruct n ms) (astuple_inner v) buf off = Inl TypeError"
  by (cases v) (simp_all add: astuple_def)

lemma struct_pack_enum: "\<not> fmt_float f \<Longrightarrow> struct_pack f (VEnum n i) = struct_pack f (VInt i)"
  by (simp add: struct_pack_def)

lemma reads_back_basic:
  assumes p: "pack_value t v buf off = Inr (buf', off')" and fit: "off \<le> 8 * length buf"
    and t: "wt t v" "\<not> is_compost_struct t" and u: "tracks off u"
    and ph: "phase t (off mod 8, u mod 8) = Some ph"
  shows "reads_back t v buf' off' u ph"
  unfolding reads_back_def
proof (intro allI impI)
  fix B assume B: "agrees B buf' off'"
  have ub: "mu_bytes u = mu_bytes (8 * mu_bytes off)" using u by (simp add: tracks_def)
  have fit8: "8 * mu_bytes off \<le> 8 * length buf" using fit by (simp add: mu_bytes_le_iff)
  show "\<exists>u'. unpack_value t B u = Inr ([v], u') \<and> tracks off' u' \<and> ph = (off' mod 8, u' mod 8)"
  proof (cases t)
    case (TNum k)
    with p t have p': "pack_num k v buf off = Inr (buf', off')" and d: "fmt_dom (num_fmt k) v" by simp_all
    show ?thesis
      using unpack_num_readback [OF p' fit refl d u B] TNum ph by (simp add: mod_add_right_eq)
  next
    case (TBitU w)
    with p t obtain i where v: "v = VInt i" "0 \<le> i" "i < 2 ^ w"
      and p': "pack_bitu w v buf off = Inr (buf', off')"
      by (auto split: pyval.splits)
    have ph': "ph = ((off + w) mod 8, (u + w) mod 8)" "w = 0 \<or> off mod 8 = u mod 8"
      using TBitU ph bit_phase_Some by simp_all
    show ?thesis
      using unpack_bitu_readback [OF p' fit _ v(2,3) u ph'(2) B] v TBitU ph'(1) by simp
  next
    case (TEnum n b ms)
    with t obtain i where v: "v = VEnum n i" and m: "i \<in> snd ` set ms" by (auto split: pyval.splits)
    show ?thesis
    proof (cases b)
      case (BNum k)
      with TEnum t v have k: "k \<in> {I8, U8, I16}" and d: "fmt_dom (num_fmt k) (VInt i)"
        by auto
      have p': "pack_num k v buf off = Inr (buf', off')" using p TEnum BNum by simp
      have e: "struct_pack (num_fmt k) v = struct_pack (num_fmt k) (VInt i)"
        using d v by (simp add: struct_pack_enum)
      show ?thesis
        using unpack_num_readback [OF p' fit e d u B] k m v TEnum BNum ph by (simp add: enum_lookup_def)
    next
      case (BBitU w)
      with TEnum t v have r: "as_index v = Some i" "0 \<le> i" "i < 2 ^ w" by auto
      have p': "pack_bitu w v buf off = Inr (buf', off')" using p TEnum BBitU by simp
      have ph': "ph = ((off + w) mod 8, (u + w) mod 8)" "w = 0 \<or> off mod 8 = u mod 8"
        using TEnum BBitU ph bit_phase_Some by simp_all
      show ?thesis
        using unpack_bitu_readback [OF p' fit r u ph'(2) B] m v TEnum BBitU ph'(1)
        by (simp add: enum_lookup_def)
    qed (use TEnum t v in auto)
  next
    case TStr
    with p t obtain s bs where v: "v = VStr s" and bs: "str_encode s = Inr bs"
      and p': "pack_blob bs buf (8 * mu_bytes off) = Inr (buf', off')"
      by (auto simp: Let_def rbind_Inr_iff mu_byte_align_eq py_str_encode_def py_bytes_def split: pyval.splits)
    show ?thesis
      using unpack_blob_readback [OF p' fit8 ub B] utf8_roundtrip [OF bs] v TStr ph
      by (simp add: tracks_refl)
  next
    case TBytes
    with p t obtain bs where v: "v = VBytes bs"
      and p': "pack_blob bs buf (8 * mu_bytes off) = Inr (buf', off')"
      by (auto simp: Let_def rbind_Inr_iff mu_byte_align_eq py_bytes_def split: pyval.splits)
    show ?thesis
      using unpack_blob_readback [OF p' fit8 ub B] v TBytes ph by (simp add: tracks_refl)
  next
    case (TList args)
    with p t obtain k vs where v: "v = VList vs" and a: "args = [TNum k]"
      and d: "list_all (fmt_dom (num_fmt k)) vs"
      and p': "pack_list [TNum k] (VList vs) buf (8 * mu_bytes off) = Inr (buf', off')"
      by (auto simp: mu_byte_align_eq simp del: wt.simps elim!: wt_TListE)
    show ?thesis
      using unpack_list_readback [OF p' fit8 d ub B] v a TList ph by (simp add: tracks_refl)
  qed (use t in auto)
qed

lemma reads_back_members:
  assumes "pack_members ms (map astuple_inner vs) buf off = Inr (buf', off')"
    and "off \<le> 8 * length buf" and "wt_members ms vs" and "tracks off u"
    and "phases ms (off mod 8, u mod 8) = Some ph" and "agrees B buf' off'"
  shows "\<exists>u'. unpack_members ms B u = Inr (vs, u') \<and> tracks off' u' \<and> ph = (off' mod 8, u' mod 8)"
  using assms
proof (induction ms arbitrary: vs buf off u)
  case Nil
  then show ?case by simp
next
  case (Cons m ms)
  obtain n t where m: "m = (n, t)" by fastforce
  with Cons.prems(3) obtain v vs' where vs: "vs = v # vs'" and wt: "wt t v" "wt_members ms vs'"
    by (auto split: list.splits)
  from Cons.prems(1) m vs obtain b1 o1 where p1: "pack_value t (astuple_inner v) buf off = Inr (b1, o1)"
    and p2: "pack_members ms (map astuple_inner vs') b1 o1 = Inr (buf', off')"
    by (auto simp: rbind_Inr_iff)
  have ns: "\<not> is_compost_struct t" using p1 pack_nested_struct by (cases t) auto
  have p1: "pack_value t v buf off = Inr (b1, o1)" using p1 wt_astuple [OF wt(1) ns] by simp
  obtain ph1 where ph1: "phase t (off mod 8, u mod 8) = Some ph1" and ph: "phases ms ph1 = Some ph"
    using Cons.prems(5) m by (auto split: option.splits)
  note a1 = pack_value_appends(1) [OF p1 Cons.prems(2)]
  have B1: "agrees B b1 o1"
    using agrees_appends [OF Cons.prems(6) pack_value_appends(2) [OF p2 appends_fit [OF a1]]] .
  obtain u1 where u1: "unpack_value t B u = Inr ([v], u1)" "tracks o1 u1" "ph1 = (o1 mod 8, u1 mod 8)"
    using reads_back_basic [OF p1 Cons.prems(2) wt(1) ns Cons.prems(4) ph1] B1
    by (auto simp: reads_back_def)
  from Cons.IH [OF p2 appends_fit [OF a1] wt(2) u1(2) _ Cons.prems(6)] ph u1(3)
  show ?case using u1 m vs by auto
qed

lemma reads_back_value:
  assumes "pack_value t v buf off = Inr (buf', off')" and "off \<le> 8 * length buf" and "wt t v"
    and "tracks off u" and "phase t (off mod 8, u mod 8) = Some ph"
  shows "reads_back t v buf' off' u ph"
proof (cases "is_compost_struct t")
  case False
  with assms show ?thesis by (intro reads_back_basic)
next
  case True
  then obtain n ms where t: "t = TStruct n ms" by (cases t) auto
  with assms(1,3) obtain vs where v: "v = VStruct n vs" and wt: "wt_members ms vs"
    and p: "pack_members ms (map astuple_inner vs) buf (8 * mu_bytes off) = Inr (buf', off')"
    by (auto simp: Let_def astuple_def mu_byte_align_eq split: pyval.splits)
  have fit: "8 * mu_bytes off \<le> 8 * length buf" using assms(2) by (simp add: mu_bytes_le_iff)
  have al: "mu_byte_align u = 8 * mu_bytes off" using assms(4) by (simp add: mu_byte_align_eq tracks_def)
  show ?thesis
    unfolding reads_back_def
  proof (intro allI impI)
    fix B assume "agrees B buf' off'"
    from reads_back_members [OF p fit wt tracks_refl _ this] assms(5) t v al
    show "\<exists>u'. unpack_value t B u = Inr ([v], u') \<and> tracks off' u' \<and> ph = (off' mod 8, u' mod 8)"
      by auto
  qed
qed

lemma reads_back_args:
  assumes "pack_args ts vs buf off = Inr (buf', off')" and "length vs = length ts"
    and "off \<le> 8 * length buf" and "list_all2 wt ts vs" and "tracks off u"
    and "phases_args ts (off mod 8, u mod 8) \<noteq> None" and "agrees B buf' off'"
  shows "\<exists>u'. unpack_args ts B u = Inr (vs, u')"
  using assms
proof (induction ts arbitrary: vs buf off u)
  case Nil
  then show ?case by simp
next
  case (Cons t ts)
  obtain v vs' where vs: "vs = v # vs'" and wt: "wt t v" "list_all2 wt ts vs'"
    using Cons.prems(4) by (auto simp: list_all2_Cons1)
  from Cons.prems(1) vs obtain b1 o1 where p1: "pack_value t v buf off = Inr (b1, o1)"
    and p2: "pack_args ts vs' b1 o1 = Inr (buf', off')"
    by (auto simp: rbind_Inr_iff)
  obtain ph1 where ph1: "phase t (off mod 8, u mod 8) = Some ph1" and ph: "phases_args ts ph1 \<noteq> None"
    using Cons.prems(6) by (auto split: option.splits)
  note a1 = pack_value_appends(1) [OF p1 Cons.prems(3)]
  have B1: "agrees B b1 o1"
    using agrees_appends [OF Cons.prems(7) pack_args_appends [OF p2 appends_fit [OF a1]]] .
  obtain u1 where u1: "unpack_value t B u = Inr ([v], u1)" "tracks o1 u1" "ph1 = (o1 mod 8, u1 mod 8)"
    using reads_back_value [OF p1 Cons.prems(3) wt(1) Cons.prems(5) ph1] B1
    by (auto simp: reads_back_def)
  from Cons.IH [OF p2 _ appends_fit [OF a1] wt(2) u1(2) _ Cons.prems(7)] ph u1(3) Cons.prems(2)
  show ?case using u1 vs by auto
qed

text \<open>
  The round trip, for a payload followed by any further bytes (the zero padding of a message,
  or the padding a transport adds).
\<close>

lemma unpack_pack_payload:
  assumes "pack_payload ts vs = Inr bs" and "list_all2 wt ts vs" and "in_step ts"
  shows "unpack_payload ts (bs @ rest) = Inr vs"
proof -
  let ?buf = "replicate 1024 0 :: byte list"
  obtain buf' off' where p: "pack_args ts vs ?buf 0 = Inr (buf', off')"
    and bs: "bs = slice 0 (mu_bytes off') buf'" and len: "length vs = length ts"
    using assms(1) by (auto simp: pack_payload_def Let_def rbind_Inr_iff split: if_splits)
  have fit: "off' \<le> 8 * length buf'" using pack_args_appends [OF p] by (auto dest: appends_fit)
  have "agrees (bs @ rest) buf' off'" unfolding bs by (rule agrees_payload [OF fit])
  from reads_back_args [OF p len _ assms(2) tracks_refl _ this] assms(3) show ?thesis
    by (auto simp: unpack_payload_def in_step_def)
qed

section \<open>Properties of the payload codec\<close>

text \<open>
  C6. What was packed is unpacked: for well-typed arguments of types whose offsets stay in
  step, \<^verbatim>\<open>unpack_payload\<close> returns the arguments from the packed payload, whatever bytes follow.
\<close>

theorem payload_roundtrip:
  assumes "pack_payload ts vs = Inr bs" and "list_all2 wt ts vs" and "in_step ts"
  shows "unpack_payload ts (bs @ rest) = Inr vs"
  using assms by (rule unpack_pack_payload)

theorem payload_roundtrip_witness:
  "unpack_payload [TNum U32, TStr, TList [TNum I16]] ([0, 0, 1, 2, 0, 2, 72, 105, 0, 4, 255, 254, 0, 7] @ [9]) =
     Inr [VInt 258, VStr [72, 105], VList [VInt (- 2), VInt 7]]"
proof (rule payload_roundtrip)
  show "pack_payload [TNum U32, TStr, TList [TNum I16]] [VInt 258, VStr [72, 105], VList [VInt (- 2), VInt 7]] =
      Inr [0, 0, 1, 2, 0, 2, 72, 105, 0, 4, 255, 254, 0, 7]" by code_simp
  show "list_all2 wt [TNum U32, TStr, TList [TNum I16]] [VInt 258, VStr [72, 105], VList [VInt (- 2), VInt 7]]"
    by (simp add: fmt_range_def scalar_value_def)
  show "in_step [TNum U32, TStr, TList [TNum I16]]" by code_simp
qed

text \<open>
  A structure that contains a structure cannot be packed: the inner value has become a
  tuple by then, and packing it raises \<^verbatim>\<open>TypeError\<close>.
\<close>

lemma nested_struct_refused:
  "pack_payload [TStruct n ((m, TStruct n' ms') # ms)] [VStruct n (VStruct n' vs' # vs)] = Inl TypeError"
  by (simp add: pack_payload_def Let_def astuple_def)

text \<open>The last byte of a number in wire format.\<close>

lemma be_encode_last:
  assumes "0 < n" shows "be_encode n v ! (n - 1) = word_of_int v"
  using assms by (cases n) (simp_all add: nth_append)

lemma number_low_bits:
  assumes "slice b n buf = be_encode n v" and "b + n \<le> length buf" and "0 < n" and "j < 8"
  shows "buf_bit buf (8 * (b + n) - 1 - j) \<longleftrightarrow> bit v j"
proof -
  have i: "8 * (b + n) - 1 - j = 8 * (b + n - 1) + (7 - j)" using assms(3,4) by simp
  have "buf ! (b + n - 1) = slice b n buf ! (n - 1)" using assms(2,3) by (simp add: nth_slice)
  then have "buf ! (b + n - 1) = word_of_int v" using assms(1) be_encode_last [OF assms(3)] by simp
  moreover have "buf_bit buf (8 * (b + n - 1) + (7 - j)) = bit (buf ! (b + n - 1)) (7 - (7 - j))" by (rule buf_bit_byte) simp
  ultimately show ?thesis using assms(4) unfolding i by (simp only:) (simp add: bit_word_of_int_iff)
qed

text \<open>
  A field of \<open>w\<close> bits that is read \<open>d\<close> bits too early, behind a number: the low bits of the number come in front, and as many
  bits of the field are lost.
\<close>

lemma early_load:
  assumes num: "slice b n buf = be_encode n v" "0 < n" and d: "d < 8"
    and z: "0 \<le> z" "z < 2 ^ w" "BitU_load w buf (8 * (b + n)) = Inr z" and fit: "8 * (b + n) + w \<le> 8 * length buf"
  shows "BitU_load w buf (8 * (b + n) - d) = Inr ((v mod 2 ^ d * 2 ^ w + z) div 2 ^ d)"
proof -
  let ?e = "8 * (b + n)"
  have e: "8 \<le> ?e" using num(2) by simp
  have f: "?e - d + w \<le> 8 * length buf" using fit by simp
  obtain r where r: "BitU_load w buf (?e - d) = Inr r" using bitu.load_bits [OF TrueI f] by blast
  have "r = drop_bit d (concat_bit w z (take_bit d v))"
  proof (rule bit_eqI)
    fix k
    have rk: "bit r k \<longleftrightarrow> k < w \<and> buf_bit buf (?e - d + w - 1 - k)" by (rule bitu.load_result [OF TrueI f r])
    have zk: "bit z (k + d) \<longleftrightarrow> k + d < w \<and> buf_bit buf (?e + w - 1 - (k + d))" by (rule bitu.load_result [OF TrueI fit z(3)])
    have t: "bit (drop_bit d (concat_bit w z (take_bit d v))) k \<longleftrightarrow>
        k + d < w \<and> bit z (k + d) \<or> w \<le> k + d \<and> k + d - w < d \<and> bit v (k + d - w)"
      by (auto simp: bit_drop_bit_eq bit_concat_bit_iff bit_take_bit_iff add.commute)
    show "bit r k = bit (drop_bit d (concat_bit w z (take_bit d v))) k"
    proof (cases "k + d < w")
      case True
      then have "?e - d + w - 1 - k = ?e + w - 1 - (k + d)" using e d by linarith
      then have "bit r k \<longleftrightarrow> bit z (k + d)" unfolding rk zk using True by (simp add: add.commute [of d k])
      then show ?thesis unfolding t using True by simp
    next
      case False
      show ?thesis
      proof (cases "k < w")
        case True
        have p: "?e - d + w - 1 - k = ?e - 1 - (k + d - w)" using False True e d by linarith
        have "k + d - w < 8" using True d by linarith
        then have "buf_bit buf (?e - d + w - 1 - k) \<longleftrightarrow> bit v (k + d - w)"
          unfolding p using number_low_bits [OF num(1) _ num(2)] fit by simp
        moreover have "k + d - w < d" using True False by linarith
        ultimately show ?thesis using rk t False True by auto
      next
        case ge: False
        then have "\<not> k + d - w < d" by linarith
        then show ?thesis using rk t ge False by auto
      qed
    qed
  qed
  also have "\<dots> = (v mod 2 ^ d * 2 ^ w + z) div 2 ^ d"
    using z(1,2) by (simp add: concat_bit_eq drop_bit_eq_div take_bit_eq_mod push_bit_eq_mult add.commute)
  finally show ?thesis using r by simp
qed

text \<open>
  C34. A structure of a bit field, an integer and a bit field, of any widths: the structure packs, but unpacking reads the
  second bit field \<open>d\<close> bits too early, where \<open>d\<close> is what the first one leaves of its last byte.  The value then consists of
  the low \<open>d\<close> bits of the integer and the field without its low \<open>d\<close> bits.  Only when the first field ends at a byte, or
  the second one is empty, are the offsets in step; then \<open>d\<close> is zero or the value is.
\<close>

theorem offsets_out_of_step:
  assumes "t = TStruct s [(a, TBitU w), (b, TNum k), (c, TBitU w')]" and "v = VStruct s [VInt x, VInt n, VInt z]"
    and "wt t v" and "w \<le> 32" and "w' \<le> 32" and "d = (8 - w mod 8) mod 8"
  shows "\<exists>bs. pack_payload [t] [v] = Inr bs \<and>
    unpack_payload [t] (bs @ rest) = Inr [VStruct s [VInt x, VInt n, VInt ((n mod 2 ^ d * 2 ^ w' + z) div 2 ^ d)]] \<and>
    (in_step [t] \<longleftrightarrow> d = 0 \<or> w' = 0)"
proof -
  let ?n = "fmt_width (num_fmt k)" and ?buf = "replicate 1024 0 :: byte list"
  define e where "e = 8 * (mu_bytes w + ?n)"
  have x: "0 \<le> x" "x < 2 ^ w" and nd: "fmt_dom (num_fmt k) (VInt n)" and z: "0 \<le> z" "z < 2 ^ w'"
    using assms(1-3) by auto
  have wb: "mu_bytes w \<le> 4" using mu_bytes_mono [OF assms(4)] by (simp add: mu_defs)
  have n8: "0 < ?n" "?n \<le> 8" by simp_all
  have d: "d < 8" "e - d = w + 8 * ?n" "d = 8 * mu_bytes w - w"
  proof -
    have "d = 8 * mu_bytes w - w"
    proof (cases "w mod 8 = 0")
      case True
      then obtain p where "w = 8 * p" by (metis mod_0_imp_dvd dvdE)
      then show ?thesis using assms(6) by simp
    next
      case False
      have w: "w = 8 * (w div 8) + w mod 8" "w mod 8 < 8" by simp_all
      have "mu_bytes w = w div 8 + 1" using mu_bytes_bounds [of w] False w by linarith
      moreover have "d = 8 - w mod 8" using assms(6) False by simp
      ultimately show ?thesis using w by linarith
    qed
    then show "d = 8 * mu_bytes w - w" "e - d = w + 8 * ?n" using mu_bytes_bounds [of w] by (simp_all add: e_def)
  qed (simp add: assms(6))
  have m0: "mu_bytes 0 = 0" by (simp add: mu_defs)
  obtain buf1 where 1: "pack_bitu w (VInt x) ?buf 0 = Inr (buf1, w)"
    using bitu.store_bits [OF TrueI, of 0 w ?buf x] assms(4) by (auto simp: pack_bitu_def BitU_pack_eq)
  note s1 = pack_bitu_spec [OF 1]
  have nb: "struct_pack (num_fmt k) (VInt n) = Inr (be_encode ?n n)" using nd by (simp add: struct_pack_def)
  have l1: "length buf1 = 1024" using s1 by (simp add: appends_def)
  obtain buf2 where "put_bytes buf1 (8 * mu_bytes w) ?n (be_encode ?n n) = Inr buf2"
    using put_bytes_total [of "be_encode ?n n" ?n "8 * mu_bytes w" buf1] l1 wb n8 by auto
  then have 2: "pack_num k (VInt n) buf1 w = Inr (buf2, e)"
    by (simp add: pack_num_def Let_def mu_byte_align_eq nb mu_add_def num_size_width e_def)
  have f1: "w \<le> 8 * length buf1" using l1 assms(4) by simp
  have s2: "slice (mu_bytes w) ?n buf2 = be_encode ?n n" "appends buf1 w buf2 e" using pack_num_spec [OF 2 f1] nb by auto
  have l2: "length buf2 = 1024" using s2(2) l1 by (simp add: appends_def)
  have "8 * (i + j) + y \<le> 8 * l" if "l = 1024" "i \<le> 4" "j \<le> 8" "y \<le> 32" for i j y l :: nat using that by presburger
  from this [OF l2 wb n8(2) assms(5)] have f2: "e + w' \<le> 8 * length buf2" unfolding e_def .
  obtain buf3 where 3: "pack_bitu w' (VInt z) buf2 e = Inr (buf3, e + w')"
    using bitu.store_bits [OF TrueI f2, of z] by (auto simp: pack_bitu_def BitU_pack_eq)
  have f2': "e \<le> 8 * length buf2" using f2 by simp
  note s3 = pack_bitu_spec [OF 3 f2']
  define bs where "bs = slice 0 (mu_bytes (e + w')) buf3"
  have pk: "pack_payload [t] [v] = Inr bs"
    by (simp add: assms(1,2) pack_payload_def Let_def astuple_def mu_byte_align_eq m0 1 2 3 bs_def)
  have ag: "agrees (bs @ rest) buf3 (e + w')" unfolding bs_def using s3 by (intro agrees_payload) (auto dest: appends_fit)
  have a3: "appends buf2 e buf3 (e + w')" using s3 by simp
  have ag2: "agrees (bs @ rest) buf2 e" by (rule agrees_appends [OF ag a3])
  have ag1: "agrees (bs @ rest) buf1 w" by (rule agrees_appends [OF ag2 s2(2)])
  have u1: "BitU_unpack w (bs @ rest) 0 = Inr (x, w)"
    using unpack_bitu_readback(1) [OF 1 _ _ x tracks_refl _ ag1] by simp
  have t: "tracks w w" by (rule tracks_refl)
  have u2: "unpack_num k (bs @ rest) w = Inr (VInt n, w + 8 * ?n)"
    using unpack_num_readback(1) [OF 2 f1 refl nd t ag2] by (simp add: num_size_width)
  have lz: "BitU_load w' (bs @ rest) e = Inr z"
    using unpack_bitu_readback(1) [OF 3 f2' _ z tracks_refl _ ag] by (auto simp: BitU_unpack_eq rbind_Inr_iff)
  have fB: "e + w' \<le> 8 * length (bs @ rest)" using ag by (simp add: agrees_def mu_bytes_le_iff)
  have "slice (mu_bytes w) ?n (bs @ rest) = be_encode ?n n"
    using agrees_slice(1) [OF ag2] f2' s2(1) by (simp add: e_def)
  from early_load [OF this n8(1) d(1) z lz [unfolded e_def] fB [unfolded e_def]] have
    u3: "BitU_unpack w' (bs @ rest) (w + 8 * ?n) = Inr ((n mod 2 ^ d * 2 ^ w' + z) div 2 ^ d, w + 8 * ?n + w')"
    unfolding e_def [symmetric] d(2) by (simp add: BitU_unpack_eq)
  have "unpack_payload [t] (bs @ rest) =
      Inr [VStruct s [VInt x, VInt n, VInt ((n mod 2 ^ d * 2 ^ w' + z) div 2 ^ d)]]"
    by (simp add: assms(1) unpack_payload_def mu_byte_align_eq m0 u1 u2 u3)
  moreover have "d = 0 \<longleftrightarrow> w mod 8 = 0" unfolding assms(6) by presburger
  then have "in_step [t] \<longleftrightarrow> d = 0 \<or> w' = 0" by (auto simp: assms(1) in_step_def bit_phase_def)
  ultimately show ?thesis using pk by blast
qed

theorem offsets_out_of_step_witness:
  "\<exists>bs bs'. pack_payload [TStruct ''s'' [(''a'', TBitU 3), (''b'', TNum U8), (''c'', TBitU 5)]] [VStruct ''s'' [VInt 1, VInt 2, VInt 3]] = Inr bs \<and>
     unpack_payload [TStruct ''s'' [(''a'', TBitU 3), (''b'', TNum U8), (''c'', TBitU 5)]] (bs @ []) =
       Inr [VStruct ''s'' [VInt 1, VInt 2, VInt 2]] \<and>
     pack_payload [TStruct ''s'' [(''a'', TBitU 8), (''b'', TNum I8), (''c'', TBitU 8)]] [VStruct ''s'' [VInt 1, VInt (- 2), VInt 3]] = Inr bs' \<and>
     unpack_payload [TStruct ''s'' [(''a'', TBitU 8), (''b'', TNum I8), (''c'', TBitU 8)]] (bs' @ []) =
       Inr [VStruct ''s'' [VInt 1, VInt (- 2), VInt 3]]"
proof -
  have 1: "\<exists>bs. pack_payload [TStruct ''s'' [(''a'', TBitU 3), (''b'', TNum U8), (''c'', TBitU 5)]] [VStruct ''s'' [VInt 1, VInt 2, VInt 3]] = Inr bs \<and>
      unpack_payload [TStruct ''s'' [(''a'', TBitU 3), (''b'', TNum U8), (''c'', TBitU 5)]] (bs @ []) =
        Inr [VStruct ''s'' [VInt 1, VInt 2, VInt ((2 mod 2 ^ 5 * 2 ^ 5 + 3) div 2 ^ 5)]] \<and>
      (in_step [TStruct ''s'' [(''a'', TBitU 3), (''b'', TNum U8), (''c'', TBitU 5)]] \<longleftrightarrow> (5 :: nat) = 0 \<or> (5 :: nat) = 0)"
    by (rule offsets_out_of_step [OF refl refl]) (simp_all add: fmt_range_def)
  have 2: "\<exists>bs. pack_payload [TStruct ''s'' [(''a'', TBitU 8), (''b'', TNum I8), (''c'', TBitU 8)]] [VStruct ''s'' [VInt 1, VInt (- 2), VInt 3]] = Inr bs \<and>
      unpack_payload [TStruct ''s'' [(''a'', TBitU 8), (''b'', TNum I8), (''c'', TBitU 8)]] (bs @ []) =
        Inr [VStruct ''s'' [VInt 1, VInt (- 2), VInt ((- 2 mod 2 ^ 0 * 2 ^ 8 + 3) div 2 ^ 0)]] \<and>
      (in_step [TStruct ''s'' [(''a'', TBitU 8), (''b'', TNum I8), (''c'', TBitU 8)]] \<longleftrightarrow> (0 :: nat) = 0 \<or> (8 :: nat) = 0)"
    by (rule offsets_out_of_step [OF refl refl]) (simp_all add: fmt_range_def)
  have "(2 mod 2 ^ 5 * 2 ^ 5 + 3) div 2 ^ 5 = (2 :: int)" "(- 2 mod 2 ^ 0 * 2 ^ 8 + 3) div 2 ^ 0 = (3 :: int)" by simp_all
  with 1 2 show ?thesis by metis
qed
end
