(* ===== verification/Message.thy ===== *)
theory Message
  imports Payload
begin

text \<open>
  Messages: the four-byte header with the length in words, the transaction number, the response
  flag and the twelve-bit procedure identifier, and the raw message that pads its payload with
  zeros to whole words.
\<close>

section \<open>Header and message\<close>

definition ceiling_division :: "int \<Rightarrow> int \<Rightarrow> int res" where
  "ceiling_division n d = (if - d = 0 then Inl ZeroDivisionError else Inr (- (n div (- d))))"

record header =
  len :: int
  txn :: int
  resp :: bool
  rpc_id :: int

definition payload_byte_len :: "header \<Rightarrow> int" where
  "payload_byte_len h = 4 * len h"

definition msg_byte_len :: "header \<Rightarrow> int" where
  "msg_byte_len h = 4 + payload_byte_len h"

definition rpc_id_and_flags :: "header \<Rightarrow> int" where
  "rpc_id_and_flags h = (let f = rpc_id h AND 0x0FFF in if resp h then f OR 0x1000 else f)"

definition Header_pack :: "header \<Rightarrow> byte list res" where
  "Header_pack h =
     rbind (struct_pack Fmt_B (VInt (len h))) (\<lambda>a.
     rbind (struct_pack Fmt_B (VInt (txn h))) (\<lambda>b.
     rbind (struct_pack Fmt_H (VInt (rpc_id_and_flags h))) (\<lambda>c.
     Inr (a @ b @ c))))"

definition Header_unpack :: "byte list \<Rightarrow> header res" where
  "Header_unpack hdr =
     (if length hdr \<noteq> 4 then Inl StructError
      else
        let len' = int_of_val (struct_unpack Fmt_B (slice 0 1 hdr));
            txn' = int_of_val (struct_unpack Fmt_B (slice 1 1 hdr));
            flags = int_of_val (struct_unpack Fmt_H (slice 2 2 hdr))
        in Inr \<lparr>len = len', txn = txn', resp = (flags AND 0x1000 \<noteq> 0), rpc_id = flags AND 0x0FFF\<rparr>)"

record msg =
  msg_header :: header
  payload :: "byte list"

definition Msg_len :: "msg \<Rightarrow> int" where
  "Msg_len m = 4 + 4 * len (msg_header m)"

text \<open>
  \<^verbatim>\<open>Msg.pack\<close> extends the payload of the object before it packs the header; the first component
  is the object afterwards.
\<close>

definition Msg_pack :: "msg \<Rightarrow> msg \<times> byte list res" where
  "Msg_pack m =
     (let n = 4 * len (msg_header m); k = int (length (payload m)) in
      if \<not> n \<ge> k then (m, Inl AssertionError)
      else
        let m = (if n > k then m\<lparr>payload := payload m @ replicate (nat (n - k)) 0\<rparr> else m) in
        (m, rbind (Header_pack (msg_header m)) (\<lambda>h. Inr (h @ payload m))))"

definition Msg_unpack :: "byte list \<Rightarrow> msg res" where
  "Msg_unpack bs =
     rbind (Header_unpack (slice 0 4 bs)) (\<lambda>h. Inr \<lparr>msg_header = h, payload = drop 4 bs\<rparr>)"

definition Msg_from_data :: "int \<Rightarrow> bool \<Rightarrow> int \<Rightarrow> byte list \<Rightarrow> msg res" where
  "Msg_from_data txn' response rpc bs =
     rbind (ceiling_division (int (length bs)) 4) (\<lambda>n.
     Inr \<lparr>msg_header = \<lparr>len = n, txn = txn', resp = response, rpc_id = rpc\<rparr>, payload = bs\<rparr>)"

text \<open>The serialiser object of a list of types.\<close>

record payload_serdes =
  types :: "ctype list"

definition PayloadSerdes_pack :: "payload_serdes \<Rightarrow> pyval list \<Rightarrow> byte list res" where
  "PayloadSerdes_pack s args = pack_payload (types s) args"

definition PayloadSerdes_unpack :: "payload_serdes \<Rightarrow> byte list \<Rightarrow> pyval list res" where
  "PayloadSerdes_unpack s data = unpack_payload (types s) data"

section \<open>Ceiling division\<close>

definition words :: "nat \<Rightarrow> nat" where
  "words n = (n + 3) div 4"

lemma ceiling_division_least:
  assumes "0 < d"
  shows "\<exists>q. ceiling_division n d = Inr q \<and> n \<le> q * d \<and> (q - 1) * d < n"
proof -
  let ?q = "- (n div (- d))"
  have "n = (n div (- d)) * (- d) + n mod (- d)" by (rule div_mult_mod_eq [symmetric])
  moreover have "- d < n mod (- d)" "n mod (- d) \<le> 0" using assms by simp_all
  ultimately have "n \<le> ?q * d \<and> (?q - 1) * d < n"
    by (simp add: algebra_simps)
  then show ?thesis using assms by (simp add: ceiling_division_def)
qed

lemma ceiling_division_words: "ceiling_division (int n) 4 = Inr (int (words n))"
proof -
  obtain q where q: "ceiling_division (int n) 4 = Inr q" "int n \<le> q * 4" "(q - 1) * 4 < int n"
    using ceiling_division_least [of 4 "int n"] by auto
  moreover have "q = int (words n)" using q(2,3) by (simp add: words_def zdiv_int)
  ultimately show ?thesis by simp
qed

lemma words_bounds: "n \<le> 4 * words n" "4 * words n < n + 4"
  unfolding words_def by linarith+

section \<open>Header lemmas\<close>

text \<open>The headers whose fields fit their place in the four bytes.\<close>

definition header_ok :: "header \<Rightarrow> bool" where
  "header_ok h \<longleftrightarrow> 0 \<le> len h \<and> len h < 256 \<and> 0 \<le> txn h \<and> txn h < 256 \<and> 0 \<le> rpc_id h \<and> rpc_id h < 4096"

lemma mask12: "(x :: int) AND 4095 = x mod 4096"
  using take_bit_eq_mask [of 12 x] by (simp add: mask_eq_exp_minus_1 take_bit_eq_mod)

lemma flag12: "((x :: int) AND 4096 \<noteq> 0) = odd (x div 4096)"
  using and_exp_eq_0_iff_not_bit [of x 12] by (simp add: bit_iff_odd)

lemma flags_or: "0 \<le> x \<Longrightarrow> x < 4096 \<Longrightarrow> (x :: int) OR 4096 = x + 4096"
proof -
  assume x: "0 \<le> x" "x < 4096"
  then have "x AND 4096 = 0" using flag12 [of x] by simp
  then show ?thesis using plus_and_or [of x 4096] by simp
qed

lemma flags_value:
  "rpc_id_and_flags h = rpc_id h mod 4096 + (if resp h then 4096 else 0)"
  by (simp add: rpc_id_and_flags_def Let_def mask12 flags_or)

lemma flags_range: "0 \<le> rpc_id_and_flags h" "rpc_id_and_flags h < 8192"
  using pos_mod_bound [of 4096 "rpc_id h"] pos_mod_sign [of 4096 "rpc_id h"]
  unfolding flags_value by (cases "resp h"; simp only: if_True if_False; linarith)+

lemma be_encode_12:
  "be_encode (Suc 0) v = [word_of_int v]" "be_encode 2 v = [word_of_int (v div 256), word_of_int v]"
  by (simp_all add: numeral_2_eq_2)

text \<open>The four bytes of a header, and that packing fails exactly when a field does not fit its byte.\<close>

lemma Header_pack_bytes:
  "Header_pack h =
     (if 0 \<le> len h \<and> len h < 256 \<and> 0 \<le> txn h \<and> txn h < 256
      then Inr [word_of_int (len h), word_of_int (txn h),
                word_of_int (rpc_id_and_flags h div 256), word_of_int (rpc_id_and_flags h)]
      else Inl StructError)"
  using flags_range [of h]
  by (simp add: Header_pack_def struct_pack_def fmt_range_def be_encode_12)

lemma Header_unpack_bytes:
  "Header_unpack [a, b, c, d] =
     Inr \<lparr>len = uint a, txn = uint b, resp = odd ((uint c * 256 + uint d) div 4096),
          rpc_id = (uint c * 256 + uint d) mod 4096\<rparr>"
  unfolding Header_unpack_def
  by (simp add: struct_unpack_def slice_def be_decode_def Let_def flag12 mask12)

lemma Header_unpack_length: "Header_unpack bs = Inr h \<Longrightarrow> length bs = 4"
  by (simp add: Header_unpack_def split: if_splits)

lemma Header_unpack_total: "length bs = 4 \<Longrightarrow> \<exists>h. Header_unpack bs = Inr h"
  by (simp add: Header_unpack_def Let_def)

lemma length4E:
  assumes "length bs = 4" obtains a b c d where "bs = [a, b, c, d]"
  using assms by (auto simp: numeral_eq_Suc length_Suc_conv)

lemma Header_unpack_ok:
  assumes "Header_unpack bs = Inr h" shows "header_ok h"
proof -
  obtain a b c d where bs: "bs = [a, b, c, d]" using Header_unpack_length [OF assms] by (rule length4E)
  show ?thesis
    using assms uint_byte_lt [of a] uint_byte_lt [of b]
    by (auto simp: bs Header_unpack_bytes header_ok_def)
qed

lemma Header_roundtrip:
  assumes "header_ok h"
  shows "\<exists>bs. Header_pack h = Inr bs \<and> length bs = 4 \<and> Header_unpack bs = Inr h"
proof -
  let ?f = "rpc_id_and_flags h"
  have "?f div 256 mod 256 = ?f div 256" using flags_range [of h] by simp
  then have f: "?f div 256 mod 256 * 256 + ?f mod 256 = ?f" by simp
  have "(rpc_id h + 4096) div 4096 = rpc_id h div 4096 + 1" by (rule div_add_self2) simp
  then have "odd (?f div 4096) = resp h" "?f mod 4096 = rpc_id h"
    using assms by (simp_all add: flags_value header_ok_def)
  then show ?thesis
    using assms
    by (simp add: Header_pack_bytes Header_unpack_bytes header_ok_def uint_byte_of_int f)
qed

text \<open>
  The other direction: a received header packs to the same bytes up to the three reserved bits,
  which are dropped.
\<close>

lemma mod_8192: "4096 * (y div 4096 mod 2) + y mod 4096 = 256 * (y div 256 mod 32) + (y :: int) mod 256"
proof -
  have a: "y mod (4096 * 2) = 4096 * (y div 4096 mod 2) + y mod 4096" by (rule zmod_zmult2_eq) simp
  have b: "y mod (256 * 32) = 256 * (y div 256 mod 32) + y mod 256" by (rule zmod_zmult2_eq) simp
  have "y mod (4096 * 2) = y mod (256 * 32)" by simp
  from this [unfolded a b] show ?thesis .
qed

lemma flags_of_bytes:
  assumes "0 \<le> d" "(d :: int) < 256"
  shows "(c * 256 + d) mod 4096 + (if odd ((c * 256 + d) div 4096) then 4096 else 0) = (c mod 32) * 256 + d"
proof -
  have z: "(if odd z then 4096 else 0) = 4096 * (z mod 2)" for z :: int
    by (simp add: mod2_eq_if)
  have "(c * 256 + d) div 256 = c" "(c * 256 + d) mod 256 = d" using assms by simp_all
  with mod_8192 [of "c * 256 + d"] show ?thesis
    unfolding z by (simp only: add.commute mult.commute)
qed

lemma Header_unpack_pack:
  assumes "Header_unpack bs = Inr h"
  shows "Header_pack h = Inr (bs[2 := bs ! 2 AND 0x1F])"
proof -
  obtain a b c d where bs: "bs = [a, b, c, d]" using Header_unpack_length [OF assms] by (rule length4E)
  have r: "uint a < 256" "uint b < 256" "uint d < 256" by (rule uint_byte_lt)+
  have h: "len h = uint a" "txn h = uint b" "resp h = odd ((uint c * 256 + uint d) div 4096)"
    "rpc_id h = (uint c * 256 + uint d) mod 4096"
    using assms by (auto simp: bs Header_unpack_bytes)
  have f: "rpc_id_and_flags h = (uint c mod 32) * 256 + uint d"
    using flags_of_bytes [of "uint d" "uint c"] r by (simp add: flags_value h)
  have c: "word_of_int (uint c mod 32) = c AND 0x1F"
  proof (rule word_uint_eqI)
    have "uint (c AND 0x1F) = uint c AND 0x1F" by (simp add: uint_and)
    also have "\<dots> = uint c mod 32"
      using take_bit_eq_mask [of 5 "uint c"] by (simp add: mask_eq_exp_minus_1 take_bit_eq_mod)
    finally show "uint (word_of_int (uint c mod 32) :: byte) = uint (c AND 0x1F)"
      by (simp add: uint_byte_of_int mod_mod_cancel)
  qed
  have "word_of_int ((uint c mod 32) * 256 + uint d) = d"
    using r by (intro word_uint_eqI) (simp only: uint_byte_of_int, simp)
  moreover have "((uint c mod 32) * 256 + uint d) div 256 = uint c mod 32" using r by simp
  ultimately show ?thesis
    using r h f c by (simp add: bs Header_pack_bytes)
qed

section \<open>Message lemmas\<close>

lemma Msg_from_data_eq:
  "Msg_from_data t r i bs =
     Inr \<lparr>msg_header = \<lparr>len = int (words (length bs)), txn = t, resp = r, rpc_id = i\<rparr>, payload = bs\<rparr>"
  by (simp add: Msg_from_data_def ceiling_division_words)

text \<open>What a message made from data packs to: never an assertion failure, zeros up to whole words.\<close>

lemma Msg_pack_from_data:
  assumes "Msg_from_data t r i bs = Inr m"
  shows "snd (Msg_pack m) =
    rbind (Header_pack (msg_header m)) (\<lambda>h. Inr (h @ bs @ replicate (4 * words (length bs) - length bs) 0))"
  using assms words_bounds(1) [of "length bs"]
  by (auto simp: Msg_from_data_eq Msg_pack_def Let_def nat_diff_distrib' nat_mult_distrib)

lemma words_byte: "words n < 256 \<longleftrightarrow> n \<le> 1020"
  unfolding words_def by linarith

lemma Msg_pack_limit:
  assumes "Msg_from_data t r i bs = Inr m" and "0 \<le> t" and "t < 256"
  shows "(\<exists>out. snd (Msg_pack m) = Inr out) \<longleftrightarrow> length bs \<le> 1020"
    and "1020 < length bs \<Longrightarrow> snd (Msg_pack m) = Inl StructError"
  using assms words_byte [of "length bs"]
  by (auto simp: Msg_pack_from_data Msg_from_data_eq Header_pack_bytes)

lemma Msg_roundtrip:
  assumes "Msg_from_data t r i bs = Inr m" and "length bs \<le> 1020"
    and "0 \<le> t" "t < 256" "0 \<le> i" "i < 4096"
  shows "\<exists>out. snd (Msg_pack m) = Inr out \<and> int (length out) = Msg_len m \<and>
    Msg_unpack (out @ trailing) =
      Inr \<lparr>msg_header = msg_header m,
           payload = bs @ replicate (4 * words (length bs) - length bs) 0 @ trailing\<rparr>"
proof -
  have "header_ok (msg_header m)"
    using assms words_byte [of "length bs"] by (auto simp: Msg_from_data_eq header_ok_def)
  then obtain h where h: "Header_pack (msg_header m) = Inr h" "length h = 4"
    "Header_unpack h = Inr (msg_header m)"
    using Header_roundtrip by blast
  moreover have "Msg_len m = 4 + 4 * int (words (length bs))"
    using assms(1) by (auto simp: Msg_len_def Msg_from_data_eq)
  ultimately show ?thesis
    using words_bounds(1) [of "length bs"]
    by (simp add: Msg_pack_from_data [OF assms(1)] Msg_unpack_def slice_def)
qed

text \<open>Arguments packed, sent as a message, received with padding behind it, and unpacked.\<close>

lemma arguments_roundtrip:
  assumes "PayloadSerdes_pack s vs = Inr bs" and "list_all2 wt (types s) vs" and "in_step (types s)"
    and "Msg_from_data t r i bs = Inr m" and "snd (Msg_pack m) = Inr out"
    and "0 \<le> t" "t < 256" "0 \<le> i" "i < 4096"
  shows "\<exists>m'. Msg_unpack (out @ trailing) = Inr m' \<and> msg_header m' = msg_header m \<and>
    PayloadSerdes_unpack s (payload m') = Inr vs"
proof -
  have "length bs \<le> 1020" using Msg_pack_limit(1) [OF assms(4,6,7)] assms(5) by blast
  from Msg_roundtrip [OF assms(4) this assms(6-9)] assms(5)
  have "Msg_unpack (out @ trailing) =
      Inr \<lparr>msg_header = msg_header m,
           payload = bs @ replicate (4 * words (length bs) - length bs) 0 @ trailing\<rparr>" by auto
  then show ?thesis
    using unpack_pack_payload [OF assms(1) [unfolded PayloadSerdes_pack_def] assms(2,3)]
    by (simp add: PayloadSerdes_unpack_def)
qed

section \<open>Properties of messages\<close>

text \<open>
  C13. A message made from data, packed, and received with any bytes behind it unpacks to the same
  header and to the data followed by the zero padding and these bytes.
\<close>

theorem message_roundtrip:
  assumes "Msg_from_data t r i bs = Inr m" and "length bs \<le> 1020"
    and "0 \<le> t" "t < 256" "0 \<le> i" "i < 4096"
  shows "\<exists>out. snd (Msg_pack m) = Inr out \<and> int (length out) = Msg_len m \<and>
    Msg_unpack (out @ trailing) =
      Inr \<lparr>msg_header = msg_header m,
           payload = bs @ replicate (4 * words (length bs) - length bs) 0 @ trailing\<rparr>"
  using assms by (rule Msg_roundtrip)

theorem message_roundtrip_witness:
  "\<exists>out. snd (Msg_pack \<lparr>msg_header = \<lparr>len = 1, txn = 7, resp = False, rpc_id = 0x123\<rparr>, payload = [1, 2]\<rparr>) = Inr out \<and>
    Msg_unpack (out @ [5]) =
      Inr \<lparr>msg_header = \<lparr>len = 1, txn = 7, resp = False, rpc_id = 0x123\<rparr>, payload = [1, 2, 0, 0, 5]\<rparr>"
  using message_roundtrip [of 7 False "0x123" "[1, 2]"
      "\<lparr>msg_header = \<lparr>len = 1, txn = 7, resp = False, rpc_id = 0x123\<rparr>, payload = [1, 2]\<rparr>" "[5]"]
  by (auto simp: Msg_from_data_eq words_def numeral_2_eq_2)

text \<open>
  A message packs exactly when its payload has at most 1020 bytes; a longer payload, which the
  payload codec allows up to 1024 bytes, is refused with \<^verbatim>\<open>struct.error\<close>.
\<close>

lemma message_size_limit:
  assumes "Msg_from_data t r i bs = Inr m" and "0 \<le> t" and "t < 256"
  shows "if length bs \<le> 1020 then \<exists>out. snd (Msg_pack m) = Inr out else snd (Msg_pack m) = Inl StructError"
  using Msg_pack_limit [OF assms] by auto

text \<open>
  A header whose fields fit packs to four bytes, which unpack to the header.
\<close>

lemma header_roundtrip:
  assumes "header_ok h"
  shows "\<exists>bs. Header_pack h = Inr bs \<and> length bs = 4 \<and> Header_unpack bs = Inr h"
  using assms by (rule Header_roundtrip)

text \<open>
  Every four bytes unpack to a header with fields in range, and packing this header gives
  the bytes back with the three reserved bits of the third byte cleared.
\<close>

lemma header_reserved_bits:
  assumes "length bs = 4"
  shows "\<exists>h. Header_unpack bs = Inr h \<and> header_ok h \<and> Header_pack h = Inr (bs[2 := bs ! 2 AND 0x1F])"
  using Header_unpack_total [OF assms] Header_unpack_ok Header_unpack_pack by blast

end
