(* ===== verification/Transport.thy ===== *)
theory Transport
  imports Message
begin

text \<open>
  The transports.  Sockets and pipes of the standard library are modelled by what they hold: a
  stream socket by the fragments that have arrived and by how many bytes the kernel takes at
  each call, a datagram socket by its queue of datagrams.  The serial port belongs to a
  third-party package; its \<^verbatim>\<open>read\<close> and \<^verbatim>\<open>write\<close> are parameters.  Two interfaces carry the
  results: \<open>byte_source\<close> for the transports that read a byte stream, \<open>frame_link\<close> for those
  that put one message into one frame.
\<close>

section \<open>Serial port\<close>

text \<open>
  \<open>port_write p bs\<close> writes a prefix of \<open>bs\<close> and returns its length; \<open>port_read p n\<close> returns at
  most \<open>n\<close> bytes.  The loop in \<^verbatim>\<open>send\<close> ends only if the port makes progress.
\<close>

partial_function (option) SerialTransport_send_loop ::
  "('p \<Rightarrow> byte list \<Rightarrow> nat res \<times> 'p) \<Rightarrow> byte list \<Rightarrow> nat \<Rightarrow> 'p \<Rightarrow> (unit res \<times> 'p) option" where
  "SerialTransport_send_loop port_write m sent p =
     (if sent < length m then
        (case port_write p (drop sent m) of
           (Inl e, p') \<Rightarrow> Some (Inl e, p')
         | (Inr n, p') \<Rightarrow> SerialTransport_send_loop port_write m (sent + n) p')
      else Some (Inr (), p))"

definition SerialTransport_send ::
  "('p \<Rightarrow> byte list \<Rightarrow> nat res \<times> 'p) \<Rightarrow> byte list \<Rightarrow> 'p \<Rightarrow> (unit res \<times> 'p) option" where
  "SerialTransport_send port_write m p = SerialTransport_send_loop port_write m 0 p"

definition SerialTransport_receive ::
  "('p \<Rightarrow> nat \<Rightarrow> byte list \<times> 'p) \<Rightarrow> 'p \<Rightarrow> byte list res \<times> 'p" where
  "SerialTransport_receive port_read p =
     (let (hdr, p) = port_read p 4 in
      if length hdr < 4 then (Inl RuntimeError, p)
      else
        (case Header_unpack hdr of
           Inl e \<Rightarrow> (Inl e, p)
         | Inr h \<Rightarrow> let (body, p) = port_read p (nat (payload_byte_len h)) in (Inr (hdr @ body), p)))"

section \<open>Stream sockets\<close>

text \<open>
  A connected socket: the fragments that arrived and were not read yet (none left means the
  peer has closed), what was sent, and for each coming call of \<^verbatim>\<open>send\<close> how many bytes the
  kernel will take; a blocking call takes at least one byte and never more than it is given.
\<close>

record sock =
  incoming :: "byte list list"
  outgoing :: "byte list"
  takes :: "nat list"

definition sock_send :: "sock \<Rightarrow> byte list \<Rightarrow> nat \<times> sock" where
  "sock_send s bs =
     (case takes s of
        [] \<Rightarrow> (length bs, s\<lparr>outgoing := outgoing s @ bs\<rparr>)
      | k # ks \<Rightarrow>
          let n = min (max 1 k) (length bs) in
          (n, s\<lparr>outgoing := outgoing s @ take n bs, takes := ks\<rparr>))"

fun frag_read :: "byte list list \<Rightarrow> nat \<Rightarrow> byte list \<times> byte list list" where
  "frag_read [] n = ([], [])"
| "frag_read ([] # fs) n = frag_read fs n"
| "frag_read ((b # bs) # fs) n = (take n (b # bs), drop n (b # bs) # fs)"

definition sock_recv :: "sock \<Rightarrow> nat \<Rightarrow> byte list \<times> sock" where
  "sock_recv s n = (let (bs, fs) = frag_read (incoming s) n in (bs, s\<lparr>incoming := fs\<rparr>))"

function TcpTransport_send_loop :: "byte list \<Rightarrow> nat \<Rightarrow> sock \<Rightarrow> sock" where
  "TcpTransport_send_loop m sent s =
     (if sent < length m then
        let (n, s') = sock_send s (drop sent m) in TcpTransport_send_loop m (sent + n) s'
      else s)"
  by pat_completeness auto
termination
  by (relation "measure (\<lambda>(m, sent, s). length m - sent)")
     (auto simp: sock_send_def Let_def split: list.splits)

definition TcpTransport_send :: "byte list \<Rightarrow> sock \<Rightarrow> sock" where
  "TcpTransport_send m s = TcpTransport_send_loop m 0 s"

text \<open>
  The reading loop, used for the header and for the payload.  The counter grows by the length of
  everything collected so far.
\<close>

function tcp_recv_loop ::
  "('s \<Rightarrow> nat \<Rightarrow> byte list \<times> 's) \<Rightarrow> nat \<Rightarrow> nat \<Rightarrow> byte list \<Rightarrow> 's \<Rightarrow> byte list res \<times> 's" where
  "tcp_recv_loop recv n received buf s =
     (if received < n then
        let (bs, s') = recv s (n - received); buf' = buf @ bs in
        if length buf' = 0 then (Inl RuntimeError, s')
        else tcp_recv_loop recv n (received + length buf') buf' s'
      else (Inr buf, s))"
  by pat_completeness auto
termination
  by (relation "measure (\<lambda>(recv, n, received, buf, s). n - received)") (auto simp: neq_Nil_conv)

declare TcpTransport_send_loop.simps [simp del] tcp_recv_loop.simps [simp del]

definition tcp_receive :: "('s \<Rightarrow> nat \<Rightarrow> byte list \<times> 's) \<Rightarrow> 's \<Rightarrow> byte list res \<times> 's" where
  "tcp_receive recv s =
     (case tcp_recv_loop recv 4 0 [] s of
        (Inl e, s) \<Rightarrow> (Inl e, s)
      | (Inr hdr, s) \<Rightarrow>
          (case Header_unpack hdr of
             Inl e \<Rightarrow> (Inl e, s)
           | Inr h \<Rightarrow>
               (case tcp_recv_loop recv (nat (payload_byte_len h)) 0 [] s of
                  (Inl e, s) \<Rightarrow> (Inl e, s)
                | (Inr body, s) \<Rightarrow> (Inr (hdr @ body), s))))"

definition TcpTransport_receive :: "sock \<Rightarrow> byte list res \<times> sock" where
  "TcpTransport_receive s = tcp_receive sock_recv s"

section \<open>Standard streams of a child process\<close>

text \<open>
  The pipes are unbuffered: a \<^verbatim>\<open>read\<close> is one system call and returns what is there, like
  \<^verbatim>\<open>recv\<close>; a \<^verbatim>\<open>write\<close> to the blocking pipe writes everything.
\<close>

definition StdioTransport_send :: "byte list \<Rightarrow> sock \<Rightarrow> sock" where
  "StdioTransport_send m s = s\<lparr>outgoing := outgoing s @ m\<rparr>"

definition StdioTransport_receive :: "sock \<Rightarrow> byte list res \<times> sock" where
  "StdioTransport_receive s =
     (let (hdr, s) = sock_recv s 4 in
      if length hdr < 4 then (Inl RuntimeError, s)
      else
        (case Header_unpack hdr of
           Inl e \<Rightarrow> (Inl e, s)
         | Inr h \<Rightarrow> let (body, s) = sock_recv s (nat (payload_byte_len h)) in (Inr (hdr @ body), s)))"

section \<open>Datagrams\<close>

text \<open>
  A datagram network is a queue of frames.  Receiving from an empty queue blocks, which is the
  value \<open>None\<close>.
\<close>

type_synonym net = "byte list list"

definition pad64 :: "byte list \<Rightarrow> byte list" where
  "pad64 m = (if length m < 64 then m @ replicate (64 - length m) 0 else m)"

definition UdpTransport_send :: "byte list \<Rightarrow> net \<Rightarrow> net res" where
  "UdpTransport_send m n = Inr (n @ [pad64 m])"

definition UdpTransport_receive :: "net \<Rightarrow> (byte list res \<times> net) option" where
  "UdpTransport_receive n = (case n of [] \<Rightarrow> None | d # n' \<Rightarrow> Some (Inr (take 1500 d), n'))"

record raw_ethernet =
  destination_mac :: "byte list"
  source_mac :: "byte list"
  mac_adresses :: "byte list"

definition RawEthernetTransport_init :: "byte list \<Rightarrow> byte list \<Rightarrow> raw_ethernet res" where
  "RawEthernetTransport_init dst src =
     (if length dst \<noteq> 6 \<or> length src \<noteq> 6 then Inl ValueError
      else Inr \<lparr>destination_mac = dst, source_mac = src, mac_adresses = dst @ src\<rparr>)"

definition int_to_bytes_be :: "nat \<Rightarrow> int \<Rightarrow> byte list res" where
  "int_to_bytes_be n i = (if 0 \<le> i \<and> i < 256 ^ n then Inr (be_encode n i) else Inl OverflowError)"

definition RawEthernetTransport_send :: "raw_ethernet \<Rightarrow> byte list \<Rightarrow> net \<Rightarrow> net res" where
  "RawEthernetTransport_send e m n =
     rbind (int_to_bytes_be 2 (int (length m))) (\<lambda>l.
     Inr (n @ [pad64 (mac_adresses e @ l @ m)]))"

definition RawEthernetTransport_receive :: "net \<Rightarrow> (byte list res \<times> net) option" where
  "RawEthernetTransport_receive n =
     (case n of [] \<Rightarrow> None | d # n' \<Rightarrow> Some (Inr (drop 14 (take 1536 d)), n'))"

section \<open>CAN FD\<close>

record can_fd =
  can_id_rx :: int
  can_id_tx :: int

definition CANFD_MTU :: nat where
  "CANFD_MTU = 72"

text \<open>
  The frame header \<^verbatim>\<open>@IBB2x\<close>: an unsigned 32-bit number in the byte order of the machine
  (\<open>little\<close>), two bytes and two bytes of padding.
\<close>

definition can_header_pack :: "bool \<Rightarrow> int \<Rightarrow> int \<Rightarrow> int \<Rightarrow> byte list res" where
  "can_header_pack little i l f =
     rbind (struct_pack Fmt_I (VInt i)) (\<lambda>a.
     rbind (struct_pack Fmt_B (VInt l)) (\<lambda>b.
     rbind (struct_pack Fmt_B (VInt f)) (\<lambda>c.
     Inr ((if little then rev a else a) @ b @ c @ [0, 0]))))"

definition can_header_unpack :: "bool \<Rightarrow> byte list \<Rightarrow> int \<times> int \<times> int" where
  "can_header_unpack little hdr =
     (let a = slice 0 4 hdr in
      (be_decode (if little then rev a else a), be_decode (slice 4 1 hdr), be_decode (slice 5 1 hdr)))"

definition ljust :: "byte list \<Rightarrow> nat \<Rightarrow> byte list" where
  "ljust bs n = bs @ replicate (n - length bs) 0"

definition SocketCanFdTransport_send :: "bool \<Rightarrow> can_fd \<Rightarrow> byte list \<Rightarrow> net \<Rightarrow> net res" where
  "SocketCanFdTransport_send little c m n =
     (case m of
        [] \<Rightarrow> Inl IndexError
      | b # _ \<Rightarrow>
          let l = 4 + 4 * uint b in
          if l > 64 then Inl ValueError
          else rbind (can_header_pack little (can_id_tx c) l 0) (\<lambda>h.
            Inr (n @ [ljust (h @ m) CANFD_MTU])))"

fun SocketCanFdTransport_receive :: "bool \<Rightarrow> can_fd \<Rightarrow> net \<Rightarrow> (byte list res \<times> net) option" where
  "SocketCanFdTransport_receive little c [] = None"
| "SocketCanFdTransport_receive little c (d # n) =
     (let cf = take CANFD_MTU d in
      if length cf \<noteq> CANFD_MTU then SocketCanFdTransport_receive little c n
      else
        let (i, l, f) = can_header_unpack little (slice 0 8 cf) in
        if i \<noteq> can_id_rx c then SocketCanFdTransport_receive little c n
        else if \<not> l \<le> 64 then Some (Inl AssertionError, n)
        else Some (Inr (slice 8 (nat l) cf), n))"


section \<open>Byte streams\<close>

text \<open>The bytes \<open>bs\<close> come in at most two reads.\<close>

definition in_two_reads ::
  "('s \<Rightarrow> nat \<Rightarrow> byte list \<times> 's) \<Rightarrow> nat \<Rightarrow> 's \<Rightarrow> byte list \<Rightarrow> 's \<Rightarrow> bool" where
  "in_two_reads recv n s bs s' \<longleftrightarrow>
     n = 0 \<and> bs = [] \<and> s' = s \<or>
     0 < n \<and> recv s n = (bs, s') \<and> length bs = n \<or>
     (let (a, s1) = recv s n; (b, s2) = recv s1 (n - length a) in
        a \<noteq> [] \<and> length a < n \<and> length b = n - length a \<and> bs = a @ b \<and> s' = s2)"

text \<open>
  What the reading loop relies on: a read hands out the next bytes of the stream, never more than
  asked for, and at least one unless the stream has ended.
\<close>

locale byte_source =
  fixes recv :: "'s \<Rightarrow> nat \<Rightarrow> byte list \<times> 's"
    and avail :: "'s \<Rightarrow> byte list"
  assumes recv_prefix: "recv s n = (bs, s') \<Longrightarrow> avail s = bs @ avail s'"
    and recv_bound: "recv s n = (bs, s') \<Longrightarrow> length bs \<le> n"
    and recv_progress: "recv s n = (bs, s') \<Longrightarrow> 0 < n \<Longrightarrow> avail s \<noteq> [] \<Longrightarrow> bs \<noteq> []"
begin

lemma loop_step:
  assumes "r < n" and "recv s (n - r) = (bs, s1)"
  shows "tcp_recv_loop recv n r buf s =
    (if buf @ bs = [] then (Inl RuntimeError, s1)
     else tcp_recv_loop recv n (r + length (buf @ bs)) (buf @ bs) s1)"
  using assms by (subst tcp_recv_loop.simps) (simp add: Let_def)

lemma loop_done: "n \<le> r \<Longrightarrow> tcp_recv_loop recv n r buf s = (Inr buf, s)"
  by (subst tcp_recv_loop.simps) simp

text \<open>The loop neither loses nor invents bytes, and never reads beyond what it was asked for.\<close>

lemma loop_prefix:
  assumes "tcp_recv_loop recv n r buf s = (Inr out, s')" and "length buf \<le> r" and "length buf \<le> n"
  shows "buf @ avail s = out @ avail s' \<and> length out \<le> n"
  using assms
proof (induction "n - r" arbitrary: r buf s rule: less_induct)
  case less
  show ?case
  proof (cases "r < n")
    case False
    with less.prems show ?thesis by (simp add: loop_done)
  next
    case True
    obtain bs s1 where rv: "recv s (n - r) = (bs, s1)" by fastforce
    with True less.prems(1) have ne: "buf @ bs \<noteq> []"
      and step: "tcp_recv_loop recv n (r + length (buf @ bs)) (buf @ bs) s1 = (Inr out, s')"
      by (auto simp: loop_step split: if_splits)
    have "length bs \<le> n - r" by (rule recv_bound [OF rv])
    then have l: "length (buf @ bs) \<le> n" "length (buf @ bs) \<le> r + length (buf @ bs)"
      using less.prems(2) True by simp_all
    have "n - (r + length (buf @ bs)) < n - r" using ne True by (simp add: neq_Nil_conv) auto
    from less.hyps [OF this step l(2,1)] recv_prefix [OF rv] show ?thesis by simp
  qed
qed

lemma loop_whole:
  assumes "recv s n = (bs, s1)" and "length bs = n"
  shows "tcp_recv_loop recv n 0 [] s = (Inr bs, if n = 0 then s else s1)"
  using assms by (cases "n = 0") (auto simp: loop_step loop_done)

lemma loop_two:
  assumes "recv s n = (a, s1)" and "a \<noteq> []" and "length a < n"
    and "recv s1 (n - length a) = (b, s2)" and "length b = n - length a"
  shows "tcp_recv_loop recv n 0 [] s = (Inr (a @ b), s2)"
proof -
  have "tcp_recv_loop recv n 0 [] s = tcp_recv_loop recv n (length a) a s1"
    using assms loop_step [of 0 n s a s1 "[]"] by simp
  also have "\<dots> = (Inr (a @ b), s2)"
    using assms loop_step [of "length a" n s1 b s2 a] by (simp add: loop_done)
  finally show ?thesis .
qed

lemma loop_closed:
  assumes "avail s = []" and "0 < n"
  shows "\<exists>s'. tcp_recv_loop recv n 0 [] s = (Inl RuntimeError, s')"
proof -
  obtain bs s1 where rv: "recv s n = (bs, s1)" by fastforce
  then have "bs = []" using recv_prefix [OF rv] assms(1) by simp
  then show ?thesis using assms(2) rv loop_step [of 0 n s bs s1 "[]"] by simp
qed

lemma receive_prefix:
  assumes "tcp_receive recv s = (Inr m, s')"
  shows "avail s = m @ avail s' \<and>
    (\<exists>h. Header_unpack (take 4 m) = Inr h \<and> int (length m) \<le> msg_byte_len h)"
proof -
  obtain hdr s1 where l1: "tcp_recv_loop recv 4 0 [] s = (Inr hdr, s1)"
    using assms by (auto simp: tcp_receive_def split: prod.splits sum.splits)
  then obtain h body where h: "Header_unpack hdr = Inr h" and m: "m = hdr @ body"
    and l2: "tcp_recv_loop recv (nat (payload_byte_len h)) 0 [] s1 = (Inr body, s')"
    using assms by (auto simp: tcp_receive_def split: prod.splits sum.splits)
  have "length hdr = 4" by (rule Header_unpack_length [OF h])
  moreover have "0 \<le> payload_byte_len h"
    using Header_unpack_ok [OF h] by (simp add: header_ok_def payload_byte_len_def)
  ultimately show ?thesis
    using loop_prefix [OF l1] loop_prefix [OF l2] h m by (auto simp: msg_byte_len_def)
qed

lemma receive_closed: "avail s = [] \<Longrightarrow> fst (tcp_receive recv s) = Inl RuntimeError"
  using loop_closed [of s 4] by (auto simp: tcp_receive_def)

text \<open>A message is received whole when its header and its payload each come in at most two reads.\<close>

lemma loop_in_two_reads: "in_two_reads recv n s bs s' \<Longrightarrow> tcp_recv_loop recv n 0 [] s = (Inr bs, s')"
  by (auto simp: in_two_reads_def loop_done loop_whole loop_two split: prod.splits)

lemma receive_in_two_reads:
  assumes "in_two_reads recv 4 s hdr s1" and "Header_unpack hdr = Inr h"
    and "in_two_reads recv (nat (payload_byte_len h)) s1 body s2"
  shows "tcp_receive recv s = (Inr (hdr @ body), s2)"
  using loop_in_two_reads [OF assms(1)] loop_in_two_reads [OF assms(3)] assms(2)
  by (simp add: tcp_receive_def)

end

lemma frag_read_prefix: "frag_read fs n = (bs, fs') \<Longrightarrow> concat fs = bs @ concat fs'"
  by (induction fs n rule: frag_read.induct) auto

lemma frag_read_bound: "frag_read fs n = (bs, fs') \<Longrightarrow> length bs \<le> n"
  by (induction fs n rule: frag_read.induct) auto

lemma frag_read_progress: "frag_read fs n = (bs, fs') \<Longrightarrow> 0 < n \<Longrightarrow> concat fs \<noteq> [] \<Longrightarrow> bs \<noteq> []"
  by (induction fs n rule: frag_read.induct) auto

interpretation sk: byte_source sock_recv "\<lambda>s. concat (incoming s)"
  by unfold_locales
     (auto simp: sock_recv_def split: prod.splits
       dest: frag_read_prefix frag_read_bound frag_read_progress)

text \<open>Sending over a stream socket: the whole message, whatever portions the kernel takes.\<close>

lemma TcpTransport_send_loop_wire:
  "outgoing (TcpTransport_send_loop m sent s) = outgoing s @ drop sent m \<and>
   incoming (TcpTransport_send_loop m sent s) = incoming s"
proof (induction m sent s rule: TcpTransport_send_loop.induct)
  case (1 m sent s)
  show ?case
  proof (cases "sent < length m")
    case True
    obtain n s' where w: "sock_send s (drop sent m) = (n, s')" by fastforce
    then have "outgoing s' = outgoing s @ take n (drop sent m)" "incoming s' = incoming s"
      by (auto simp: sock_send_def Let_def split: list.splits)
    with 1 [OF True w [symmetric]] w True show ?thesis
      by (simp add: TcpTransport_send_loop.simps [of m sent s] add.commute flip: drop_drop)
  next
    case False
    then show ?thesis by (simp add: TcpTransport_send_loop.simps [of m sent s])
  qed
qed


text \<open>A message that arrived in one fragment is read whole over a socket and over a pipe.\<close>

lemma sock_recv_fragment:
  assumes "incoming s = (bs @ x) # fs" and "bs \<noteq> []" and "length bs = n"
  shows "sock_recv s n = (bs, s\<lparr>incoming := x # fs\<rparr>)"
  using assms by (cases bs) (auto simp: sock_recv_def)

lemma sock_recv_0: "\<exists>s'. sock_recv s 0 = ([], s')"
  using sk.recv_bound [of s 0] by (cases "sock_recv s 0") auto

lemma fragment_receive:
  assumes "incoming s = (hdr @ body @ x) # fs" and "Header_unpack hdr = Inr h"
    and "int (length body) = payload_byte_len h"
  shows "TcpTransport_receive s = (Inr (hdr @ body), s\<lparr>incoming := x # fs\<rparr>)"
    and "fst (StdioTransport_receive s) = Inr (hdr @ body)"
proof -
  let ?s1 = "s\<lparr>incoming := (body @ x) # fs\<rparr>" and ?s2 = "s\<lparr>incoming := x # fs\<rparr>"
  have l: "length hdr = 4" by (rule Header_unpack_length [OF assms(2)])
  have r1: "sock_recv s 4 = (hdr, ?s1)"
    using assms(1) l by (intro sock_recv_fragment) auto
  have n: "nat (payload_byte_len h) = length body" using assms(3) by simp
  have r2: "body \<noteq> [] \<Longrightarrow> sock_recv ?s1 (length body) = (body, ?s2)"
    using sock_recv_fragment [of ?s1 body x fs "length body"] by simp
  have "in_two_reads sock_recv (length body) ?s1 body ?s2"
    using r2 by (cases "body = []") (simp_all add: in_two_reads_def)
  then show "TcpTransport_receive s = (Inr (hdr @ body), ?s2)"
    unfolding TcpTransport_receive_def
    by (intro sk.receive_in_two_reads [OF _ assms(2)]) (simp_all add: in_two_reads_def r1 l n)
  show "fst (StdioTransport_receive s) = Inr (hdr @ body)"
    using r1 l assms(2) n r2 sock_recv_0 [of ?s1]
    by (cases "body = []") (auto simp: StdioTransport_receive_def)
qed

text \<open>
  A header that comes in three pieces: the loop counts the first pieces again and stops early.
\<close>

lemma tcp_three_pieces:
  assumes "incoming s = A # B # C # fs" and "A \<noteq> []" "B \<noteq> []" "C \<noteq> []" and "length A + length B < 4"
  shows "\<exists>s'. TcpTransport_receive s = (Inl StructError, s') \<and>
    concat (incoming s') = (if length A + length B = 2 then tl C else C) @ concat fs"
proof -
  let ?r = "\<lambda>fs. s\<lparr>incoming := fs\<rparr>"
  note read = sock_recv_def frag_read.simps
  have A: "sock_recv s 4 = (A, ?r ([] # B # C # fs))" using assms by (cases A) (simp_all add: read)
  have "length B \<le> 4 - length A" using assms(5) by simp
  then have B: "sock_recv (?r ([] # B # C # fs)) (4 - length A) = (B, ?r ([] # C # fs))" using assms(3) by (cases B) (simp_all add: read)
  have l: "0 < length A" "0 < length B" using assms(2,3) by simp_all
  have l1: "tcp_recv_loop sock_recv 4 0 [] s = tcp_recv_loop sock_recv 4 (length A) A (?r ([] # B # C # fs))"
    using A assms(2) by (simp add: sk.loop_step)
  have l2: "tcp_recv_loop sock_recv 4 (length A) A (?r ([] # B # C # fs)) =
      tcp_recv_loop sock_recv 4 (2 * length A + length B) (A @ B) (?r ([] # C # fs))"
    using B assms(2,5) l by (simp add: sk.loop_step mult_2 add.assoc)
  have short: "Header_unpack x = Inl StructError" if "length x < 4" for x using that by (simp add: Header_unpack_def)
  show ?thesis
  proof (cases "length A + length B = 2")
    case False
    then have "4 \<le> 2 * length A + length B" using l by linarith
    then show ?thesis using False assms(5) l1 l2
      by (simp add: TcpTransport_receive_def tcp_receive_def sk.loop_done short)
  next
    case True
    then have ab: "length A = 1" "length B = 1" using l by linarith+
    obtain c cs where C: "C = c # cs" using assms(4) by (cases C) auto
    have "sock_recv (?r ([] # C # fs)) 1 = ([c], ?r (cs # fs))" by (simp add: read C)
    then have "tcp_recv_loop sock_recv 4 0 [] s = (Inr (A @ B @ [c]), ?r (cs # fs))"
      unfolding l1 l2 using ab by (simp add: sk.loop_step sk.loop_done)
    then show ?thesis using True ab C by (simp add: TcpTransport_receive_def tcp_receive_def short)
  qed
qed

section \<open>The serial port under its documented contract\<close>

text \<open>
  \<open>wire p\<close> is what has left the port \<open>p\<close>, \<open>rx p\<close> what will arrive.  A write takes at least one
  byte of a non-empty buffer; a read without timeout waits for all the bytes asked for.
\<close>

definition port_writes :: "('p \<Rightarrow> byte list \<Rightarrow> nat res \<times> 'p) \<Rightarrow> ('p \<Rightarrow> byte list) \<Rightarrow> bool" where
  "port_writes port_write wire \<longleftrightarrow>
     (\<forall>p bs. bs \<noteq> [] \<longrightarrow> (\<exists>n p'. port_write p bs = (Inr n, p') \<and> 0 < n \<and> n \<le> length bs \<and>
        wire p' = wire p @ take n bs))"

definition port_reads :: "('p \<Rightarrow> nat \<Rightarrow> byte list \<times> 'p) \<Rightarrow> ('p \<Rightarrow> byte list) \<Rightarrow> bool" where
  "port_reads port_read rx \<longleftrightarrow>
     (\<forall>p n. n \<le> length (rx p) \<longrightarrow> (\<exists>p'. port_read p n = (take n (rx p), p') \<and> rx p' = drop n (rx p)))"

lemma SerialTransport_send_loop_complete:
  assumes "port_writes port_write wire"
  shows "\<exists>p'. SerialTransport_send_loop port_write m sent p = Some (Inr (), p') \<and>
    wire p' = wire p @ drop sent m"
proof (induction "length m - sent" arbitrary: sent p rule: less_induct)
  case less
  show ?case
  proof (cases "sent < length m")
    case False
    then show ?thesis by (simp add: SerialTransport_send_loop.simps)
  next
    case True
    then have "drop sent m \<noteq> []" by simp
    then obtain n p1 where w: "port_write p (drop sent m) = (Inr n, p1)" "0 < n"
      "wire p1 = wire p @ take n (drop sent m)"
      using assms unfolding port_writes_def by blast
    have "length m - (sent + n) < length m - sent" using True w(2) by linarith
    from less.hyps [OF this, of p1]
    obtain p' where p': "SerialTransport_send_loop port_write m (sent + n) p1 = Some (Inr (), p')"
      "wire p' = wire p1 @ drop (sent + n) m" by blast
    have "drop sent m = take n (drop sent m) @ drop (sent + n) m"
      by (simp add: add.commute flip: drop_drop)
    with w p' True show ?thesis
      by (subst SerialTransport_send_loop.simps) simp
  qed
qed

lemma SerialTransport_receive_frame:
  assumes "port_reads port_read rx" and "rx p = hdr @ body @ x" and "Header_unpack hdr = Inr h"
    and "int (length body) = payload_byte_len h"
  shows "\<exists>p'. SerialTransport_receive port_read p = (Inr (hdr @ body), p') \<and> rx p' = x"
proof -
  have l: "length hdr = 4" by (rule Header_unpack_length [OF assms(3)])
  have read: "n \<le> length (rx q) \<Longrightarrow> \<exists>q'. port_read q n = (take n (rx q), q') \<and> rx q' = drop n (rx q)"
    for q n using assms(1) by (simp add: port_reads_def)
  obtain p1 where p1: "port_read p 4 = (hdr, p1)" "rx p1 = body @ x"
    using read [of 4 p] assms(2) l by auto
  have n: "nat (payload_byte_len h) = length body" using assms(4) by simp
  obtain p2 where "port_read p1 (length body) = (body, p2)" "rx p2 = x"
    using read [of "length body" p1] p1(2) by auto
  then show ?thesis using p1 l n assms(3) by (simp add: SerialTransport_receive_def)
qed


section \<open>Links that carry one message per frame\<close>

text \<open>Several messages sent in order, and several receptions in order.\<close>

fun link_send_all :: "(byte list \<Rightarrow> net \<Rightarrow> net res) \<Rightarrow> byte list list \<Rightarrow> net \<Rightarrow> net res" where
  "link_send_all send [] n = Inr n"
| "link_send_all send (m # ms) n = rbind (send m n) (link_send_all send ms)"

fun link_receive_all ::
  "(net \<Rightarrow> (byte list res \<times> net) option) \<Rightarrow> nat \<Rightarrow> net \<Rightarrow> (byte list res list \<times> net) option" where
  "link_receive_all receive 0 n = Some ([], n)"
| "link_receive_all receive (Suc k) n =
     (case receive n of
        None \<Rightarrow> None
      | Some (r, n') \<Rightarrow>
          (case link_receive_all receive k n' of None \<Rightarrow> None | Some (rs, n'') \<Rightarrow> Some (r # rs, n'')))"

definition padded :: "byte list \<Rightarrow> byte list res \<Rightarrow> bool" where
  "padded m r \<longleftrightarrow> (case r of Inr raw \<Rightarrow> \<exists>pad. raw = m @ pad | Inl _ \<Rightarrow> False)"

text \<open>
  The contract of such a link: a message that fits goes out as one frame, and receiving this
  frame gives the message back, perhaps followed by padding.
\<close>

locale frame_link =
  fixes send :: "byte list \<Rightarrow> net \<Rightarrow> net res"
    and receive :: "net \<Rightarrow> (byte list res \<times> net) option"
    and fits :: "byte list \<Rightarrow> bool"
  assumes deliver: "fits m \<Longrightarrow>
    \<exists>f pad. (\<forall>n. send m n = Inr (n @ [f])) \<and> (\<forall>n. receive (f # n) = Some (Inr (m @ pad), n))"
begin

lemma send_frames:
  assumes "list_all fits ms"
  shows "\<exists>fs. (\<forall>n. link_send_all send ms n = Inr (n @ fs)) \<and>
    (\<forall>n. \<exists>rs. link_receive_all receive (length ms) (fs @ n) = Some (rs, n) \<and> list_all2 padded ms rs)"
  using assms
proof (induction ms)
  case Nil
  then show ?case by simp
next
  case (Cons m ms)
  then obtain f pad where f: "\<forall>n. send m n = Inr (n @ [f])" "\<forall>n. receive (f # n) = Some (Inr (m @ pad), n)"
    using deliver [of m] by auto
  from Cons obtain fs where fs: "\<forall>n. link_send_all send ms n = Inr (n @ fs)"
    "\<forall>n. \<exists>rs. link_receive_all receive (length ms) (fs @ n) = Some (rs, n) \<and> list_all2 padded ms rs"
    by auto
  have "\<exists>rs. link_receive_all receive (length (m # ms)) ((f # fs) @ n) = Some (rs, n) \<and>
      list_all2 padded (m # ms) rs" for n
  proof -
    obtain rs where "link_receive_all receive (length ms) (fs @ n) = Some (rs, n)" "list_all2 padded ms rs"
      using fs(2) by blast
    then have "link_receive_all receive (length (m # ms)) ((f # fs) @ n) = Some (Inr (m @ pad) # rs, n)"
      "list_all2 padded (m # ms) (Inr (m @ pad) # rs)"
      using f(2) by (simp_all add: padded_def)
    then show ?thesis by blast
  qed
  moreover have "link_send_all send (m # ms) n = Inr (n @ f # fs)" for n using f(1) fs(1) by simp
  ultimately show ?case by blast
qed

lemma fifo:
  assumes "list_all fits ms"
  shows "\<exists>n rs. link_send_all send ms [] = Inr n \<and>
    link_receive_all receive (length ms) n = Some (rs, []) \<and> list_all2 padded ms rs"
proof -
  obtain fs where fs: "\<forall>n. link_send_all send ms n = Inr (n @ fs)"
    "\<forall>n. \<exists>rs. link_receive_all receive (length ms) (fs @ n) = Some (rs, n) \<and> list_all2 padded ms rs"
    using send_frames [OF assms] by blast
  from fs(1) have "link_send_all send ms [] = Inr fs" by simp
  with fs(2) [rule_format, of "[]"] show ?thesis by auto
qed

text \<open>Arguments packed, framed and sent on one side come out of the other side unchanged.\<close>

lemma arguments_delivered:
  assumes "PayloadSerdes_pack s vs = Inr bs" and "list_all2 wt (types s) vs" and "in_step (types s)"
    and "Msg_from_data t r i bs = Inr m" and "snd (Msg_pack m) = Inr out" and "fits out"
    and "0 \<le> t" "t < 256" "0 \<le> i" "i < 4096"
  shows "\<exists>n raw m'. send out [] = Inr n \<and> receive n = Some (Inr raw, []) \<and>
    Msg_unpack raw = Inr m' \<and> msg_header m' = msg_header m \<and> PayloadSerdes_unpack s (payload m') = Inr vs"
proof -
  obtain f pad where f: "send out [] = Inr [f]" "receive [f] = Some (Inr (out @ pad), [])"
    using deliver [OF assms(6)] by (metis append_Nil)
  obtain m' where "Msg_unpack (out @ pad) = Inr m'" "msg_header m' = msg_header m"
    "PayloadSerdes_unpack s (payload m') = Inr vs"
    using arguments_roundtrip [OF assms(1-5,7-10)] by blast
  with f show ?thesis by blast
qed

end

text \<open>The padding only adds zeros behind the message.\<close>

lemma pad64_append: "pad64 m = m @ replicate (64 - length m) 0"
  by (simp add: pad64_def)

interpretation udp: frame_link UdpTransport_send UdpTransport_receive "\<lambda>m. length m \<le> 1500"
proof
  fix m :: "byte list" assume "length m \<le> 1500"
  then have "take 1500 (pad64 m) = m @ replicate (64 - length m) 0"
    by (simp add: pad64_append)
  then show "\<exists>f pad. (\<forall>n. UdpTransport_send m n = Inr (n @ [f])) \<and>
      (\<forall>n. UdpTransport_receive (f # n) = Some (Inr (m @ pad), n))"
    by (auto simp: UdpTransport_send_def UdpTransport_receive_def)
qed

lemma RawEthernet_frame:
  assumes "length (mac_adresses e) = 12" and "length m \<le> 1522"
  shows "\<exists>f pad. (\<forall>n. RawEthernetTransport_send e m n = Inr (n @ [f])) \<and>
    (\<forall>n. RawEthernetTransport_receive (f # n) = Some (Inr (m @ pad), n))"
proof -
  let ?h = "mac_adresses e @ be_encode 2 (int (length m))"
  let ?pad = "replicate (64 - (14 + length m)) 0 :: byte list"
  have f: "pad64 (mac_adresses e @ be_encode 2 (int (length m)) @ m) = ?h @ m @ ?pad"
    using assms(1) by (simp add: pad64_append)
  have "length (?h @ m @ ?pad) \<le> 1536" using assms by simp
  then have "drop 14 (take 1536 (?h @ m @ ?pad)) = m @ ?pad" using assms(1) by simp
  moreover have "int_to_bytes_be 2 (int (length m)) = Inr (be_encode 2 (int (length m)))"
    using assms(2) by (simp add: int_to_bytes_be_def)
  ultimately show ?thesis
    by (auto simp: RawEthernetTransport_send_def RawEthernetTransport_receive_def f)
qed

interpretation eth: frame_link "RawEthernetTransport_send e" RawEthernetTransport_receive
  "\<lambda>m. length (mac_adresses e) = 12 \<and> length m \<le> 1522" for e
  by unfold_locales (use RawEthernet_frame in blast)

text \<open>The messages a CAN FD frame carries, from a sender to a receiver that listens to its identifier.\<close>

definition can_fits :: "can_fd \<Rightarrow> can_fd \<Rightarrow> byte list \<Rightarrow> bool" where
  "can_fits tx rx m \<longleftrightarrow>
     m \<noteq> [] \<and> int (length m) = 4 + 4 * uint (hd m) \<and> length m \<le> 64 \<and>
     can_id_rx rx = can_id_tx tx \<and> 0 \<le> can_id_tx tx \<and> can_id_tx tx < 2 ^ 32"

lemma can_header_roundtrip:
  assumes "0 \<le> i" "i < 2 ^ 32" "0 \<le> l" "l < 256" "0 \<le> f" "f < 256"
  shows "\<exists>h. can_header_pack little i l f = Inr h \<and> length h = 8 \<and> can_header_unpack little h = (i, l, f)"
proof -
  have "be_decode [word_of_int k] = k" if "0 \<le> k" "k < 256" for k
    using that by (simp add: be_decode_def byte_of_int_eq)
  then show ?thesis
    using assms
    by (simp add: can_header_pack_def can_header_unpack_def struct_pack_def fmt_range_def
        slice_def Let_def be_decode_encode be_encode_12)
qed


text \<open>Frames that a CAN FD receiver skips: classical frames and frames for other identifiers.\<close>

definition can_foreign :: "bool \<Rightarrow> can_fd \<Rightarrow> byte list \<Rightarrow> bool" where
  "can_foreign little c d \<longleftrightarrow>
     length (take CANFD_MTU d) \<noteq> CANFD_MTU \<or>
     fst (can_header_unpack little (slice 0 8 (take CANFD_MTU d))) \<noteq> can_id_rx c"

lemma can_skip_foreign:
  "list_all (can_foreign little c) fs \<Longrightarrow>
   SocketCanFdTransport_receive little c (fs @ n) = SocketCanFdTransport_receive little c n"
  by (induction fs) (auto simp: can_foreign_def Let_def split: prod.splits)

lemma can_frame:
  assumes "can_fits tx rx m"
  shows "\<exists>f. (\<forall>n. SocketCanFdTransport_send little tx m n = Inr (n @ [f])) \<and>
    (\<forall>n. SocketCanFdTransport_receive little rx (f # n) = Some (Inr m, n))"
proof -
  obtain b bs where m: "m = b # bs" using assms by (auto simp: can_fits_def neq_Nil_conv)
  let ?l = "4 + 4 * uint b"
  have l: "int (length m) = ?l" "length m \<le> 64" using assms m by (simp_all add: can_fits_def)
  have ids: "can_id_rx rx = can_id_tx tx" "0 \<le> can_id_tx tx" "can_id_tx tx < 2 ^ 32"
    using assms by (simp_all add: can_fits_def)
  have lr: "0 \<le> ?l" "?l \<le> 64" "?l < 256" using l by simp_all
  obtain h where h: "can_header_pack little (can_id_tx tx) ?l 0 = Inr h" "length h = 8"
    "can_header_unpack little h = (can_id_tx tx, ?l, 0)"
    using can_header_roundtrip [OF ids(2,3) lr(1,3), of 0] by auto
  let ?f = "ljust (h @ m) CANFD_MTU"
  have f: "?f = h @ m @ replicate (64 - length m) 0" "length ?f = CANFD_MTU"
    using h(2) l(2) by (simp_all add: ljust_def CANFD_MTU_def)
  have "SocketCanFdTransport_send little tx m n = Inr (n @ [?f])" for n
    using lr h(1) by (simp add: SocketCanFdTransport_send_def m Let_def)
  moreover have "SocketCanFdTransport_receive little rx (?f # n) = Some (Inr m, n)" for n
  proof -
    have "slice 0 8 ?f = h" using h(2) f(1) by (simp add: slice_def)
    moreover have "slice 8 (nat ?l) ?f = m"
      using h(2) f(1) l(1) by (simp add: slice_def flip: l(1))
    ultimately show ?thesis using f(2) h(3) ids(1) lr(2) by (simp add: Let_def)
  qed
  ultimately show ?thesis by blast
qed

interpretation can: frame_link "SocketCanFdTransport_send little tx"
  "SocketCanFdTransport_receive little rx" "can_fits tx rx" for little tx rx
  by unfold_locales (metis can_frame append_Nil2)

text \<open>Every message the program packs fits a UDP datagram and an Ethernet frame; sixteen words fit CAN FD.\<close>

lemma packed_message_size:
  assumes "Msg_from_data t r i bs = Inr m" and "snd (Msg_pack m) = Inr out"
  shows "length bs \<le> 1020" "length out = 4 + 4 * words (length bs)" "length out \<le> 1024"
    "uint (hd out) = int (words (length bs))" "out \<noteq> []"
proof -
  have out: "rbind (Header_pack (msg_header m))
      (\<lambda>h. Inr (h @ bs @ replicate (4 * words (length bs) - length bs) 0)) = Inr out"
    using Msg_pack_from_data [OF assms(1)] assms(2) by simp
  then obtain h where h: "Header_pack (msg_header m) = Inr h"
    "out = h @ bs @ replicate (4 * words (length bs) - length bs) 0"
    by (auto simp: rbind_Inr_iff)
  have len: "len (msg_header m) = int (words (length bs))"
    using assms(1) by (auto simp: Msg_from_data_eq)
  have w: "words (length bs) < 256" and h4: "length h = 4" "uint (hd h) = int (words (length bs))" "h \<noteq> []"
    using h(1) len byte_of_int_eq [of "int (words (length bs))"]
    by (auto simp: Header_pack_bytes split: if_splits)
  show "length bs \<le> 1020" using w by (simp add: words_byte)
  show "length out = 4 + 4 * words (length bs)"
    using h(2) h4 words_bounds(1) [of "length bs"] by simp
  with w show "length out \<le> 1024" by simp
  show "uint (hd out) = int (words (length bs))" "out \<noteq> []" using h(2) h4 by simp_all
qed

section \<open>Properties of the transports\<close>

text \<open>A request with one argument, for the examples below.\<close>

lemma sample_message:
  "PayloadSerdes_pack \<lparr>types = [TNum U8]\<rparr> [VInt 9] = Inr [9]"
  "Msg_from_data 5 False 3 [9] =
     Inr \<lparr>msg_header = \<lparr>len = 1, txn = 5, resp = False, rpc_id = 3\<rparr>, payload = [9]\<rparr>"
  "snd (Msg_pack \<lparr>msg_header = \<lparr>len = 1, txn = 5, resp = False, rpc_id = 3\<rparr>, payload = [9]\<rparr>) =
     Inr [1, 5, 0, 3, 9, 0, 0, 0]"
  "list_all2 wt [TNum U8] [VInt 9]" "in_step [TNum U8]"
  by (code_simp, code_simp, code_simp, simp add: fmt_range_def, simp add: in_step_def)

text \<open>
  Arguments packed into a message and sent over UDP come out of the receiver's datagram
  unchanged, with the same header, whatever padding the transport added.
\<close>

lemma udp_arguments_delivered:
  assumes "PayloadSerdes_pack s vs = Inr bs" and "list_all2 wt (types s) vs" and "in_step (types s)"
    and "Msg_from_data t r i bs = Inr m" and "snd (Msg_pack m) = Inr out"
    and "0 \<le> t" "t < 256" "0 \<le> i" "i < 4096"
  shows "\<exists>n raw m'. UdpTransport_send out [] = Inr n \<and> UdpTransport_receive n = Some (Inr raw, []) \<and>
    Msg_unpack raw = Inr m' \<and> msg_header m' = msg_header m \<and> PayloadSerdes_unpack s (payload m') = Inr vs"
  using udp.arguments_delivered [OF assms(1-5) _ assms(6-9)] packed_message_size(3) [OF assms(4,5)] by simp

text \<open>
  The same over raw Ethernet frames, for every pair of hardware addresses the transport
  accepts.
\<close>

lemma ethernet_arguments_delivered:
  assumes "RawEthernetTransport_init dst src = Inr e"
    and "PayloadSerdes_pack s vs = Inr bs" and "list_all2 wt (types s) vs" and "in_step (types s)"
    and "Msg_from_data t r i bs = Inr m" and "snd (Msg_pack m) = Inr out"
    and "0 \<le> t" "t < 256" "0 \<le> i" "i < 4096"
  shows "\<exists>n raw m'. RawEthernetTransport_send e out [] = Inr n \<and>
    RawEthernetTransport_receive n = Some (Inr raw, []) \<and>
    Msg_unpack raw = Inr m' \<and> msg_header m' = msg_header m \<and> PayloadSerdes_unpack s (payload m') = Inr vs"
proof -
  have "length (mac_adresses e) = 12"
    using assms(1) by (auto simp: RawEthernetTransport_init_def split: if_splits)
  then show ?thesis
    using eth.arguments_delivered [OF assms(2-6) _ assms(7-10), of e] packed_message_size(3) [OF assms(5,6)]
    by simp
qed

text \<open>
  The same over CAN FD for messages of at most 64 bytes, from a sender to a receiver that
  listens to the sender's identifier; a longer message is refused with \<^verbatim>\<open>ValueError\<close>.
\<close>

lemma can_arguments_delivered:
  assumes "PayloadSerdes_pack s vs = Inr bs" and "list_all2 wt (types s) vs" and "in_step (types s)"
    and "Msg_from_data t r i bs = Inr m" and "snd (Msg_pack m) = Inr out"
    and "0 \<le> t" "t < 256" "0 \<le> i" "i < 4096"
    and "can_id_rx rx = can_id_tx tx" and "0 \<le> can_id_tx tx" and "can_id_tx tx < 2 ^ 32"
  shows "if length out \<le> 64
    then \<exists>n raw m'. SocketCanFdTransport_send little tx out [] = Inr n \<and>
      SocketCanFdTransport_receive little rx n = Some (Inr raw, []) \<and>
      Msg_unpack raw = Inr m' \<and> msg_header m' = msg_header m \<and> PayloadSerdes_unpack s (payload m') = Inr vs
    else SocketCanFdTransport_send little tx out [] = Inl ValueError"
proof -
  note sz = packed_message_size [OF assms(4,5)]
  show ?thesis
  proof (cases "length out \<le> 64")
    case True
    then have "can_fits tx rx out" using sz assms(10-12) by (simp add: can_fits_def)
    with True can.arguments_delivered [OF assms(1-5) _ assms(6-9)] show ?thesis by simp
  next
    case False
    moreover obtain b where "out = b # tl out" "uint b = int (words (length bs))"
      using sz(4,5) by (cases out) auto
    ultimately show ?thesis using sz(2)
      by (cases out) (auto simp: SocketCanFdTransport_send_def Let_def)
  qed
qed

text \<open>
  A CAN FD receiver skips any number of classical frames and of frames for other
  identifiers, and then receives the message.
\<close>

lemma can_skips_foreign:
  assumes "can_fits tx rx m" and "list_all (can_foreign little rx) fs"
    and "SocketCanFdTransport_send little tx m [] = Inr n"
  shows "SocketCanFdTransport_receive little rx (fs @ n) = Some (Inr m, [])"
  using can_frame [OF assms(1), of little] assms(2,3) by (auto simp: can_skip_foreign)

text \<open>
  Messages sent over UDP arrive in the order in which they were sent, each with nothing but
  padding behind it.
\<close>

lemma udp_in_order:
  assumes "list_all (\<lambda>m. length m \<le> 1500) ms"
  shows "\<exists>n rs. link_send_all UdpTransport_send ms [] = Inr n \<and>
    link_receive_all UdpTransport_receive (length ms) n = Some (rs, []) \<and> list_all2 padded ms rs"
  using assms by (rule udp.fifo)

text \<open>
  C28. Sending over TCP terminates with the whole message written, once and in order, in
  whatever portions the kernel takes it.
\<close>

theorem tcp_send_complete: "outgoing (TcpTransport_send m s) = outgoing s @ m"
  using TcpTransport_send_loop_wire [of m 0 s] by (simp add: TcpTransport_send_def)

text \<open>
  What TCP reception returns is the next part of the stream, in which no byte is lost or
  repeated, and never reaches beyond the message that its header announces.
\<close>

lemma tcp_receive_prefix:
  assumes "TcpTransport_receive s = (Inr m, s')"
  shows "concat (incoming s) = m @ concat (incoming s') \<and>
    (\<exists>h. Header_unpack (take 4 m) = Inr h \<and> int (length m) \<le> msg_byte_len h)"
  using sk.receive_prefix assms by (simp add: TcpTransport_receive_def)

text \<open>
  A message whose header and payload each come in at most two reads is received whole.
\<close>

lemma tcp_receive_in_two_reads:
  assumes "in_two_reads sock_recv 4 s hdr s1" and "Header_unpack hdr = Inr h"
    and "in_two_reads sock_recv (nat (payload_byte_len h)) s1 body s2"
  shows "TcpTransport_receive s = (Inr (hdr @ body), s2)"
  using sk.receive_in_two_reads [OF assms] by (simp add: TcpTransport_receive_def)

text \<open>
  C29. A header whose first two pieces do not complete it is not received, however it is split: the loop counts the first
  piece twice, stops early, and \<^verbatim>\<open>struct.error\<close> is raised; the bytes read so far are lost, and what is left begins in the
  middle of the message.
\<close>

theorem tcp_header_in_three_pieces:
  assumes "incoming s = A # B # C # fs" and "A \<noteq> []" "B \<noteq> []" "C \<noteq> []" and "length A + length B < 4"
  shows "\<exists>s'. TcpTransport_receive s = (Inl StructError, s') \<and>
    concat (incoming s') = (if length A + length B = 2 then tl C else C) @ concat fs"
  using assms by (rule tcp_three_pieces)

theorem tcp_header_in_three_pieces_witness:
  "\<exists>s' s''. TcpTransport_receive \<lparr>incoming = [[0], [1, 2], [3]], outgoing = [], takes = []\<rparr> = (Inl StructError, s') \<and>
    concat (incoming s') = [3] \<and>
    TcpTransport_receive \<lparr>incoming = [[0], [1], [2], [3]], outgoing = [], takes = []\<rparr> = (Inl StructError, s'') \<and>
    concat (incoming s'') = [3]"
  using tcp_header_in_three_pieces [of "\<lparr>incoming = [[0], [1, 2], [3]], outgoing = [], takes = []\<rparr>" "[0]" "[1, 2]" "[3]" "[]"]
    tcp_header_in_three_pieces [of "\<lparr>incoming = [[0], [1], [2], [3]], outgoing = [], takes = []\<rparr>" "[0]" "[1]" "[2]" "[[3]]"]
  by auto

text \<open>
  Over a port whose \<^verbatim>\<open>write\<close> makes progress and reports how much it wrote, sending
  terminates without error and the whole message has left the port.
\<close>

lemma serial_send_complete:
  assumes "port_writes port_write wire"
  shows "\<exists>p'. SerialTransport_send port_write m p = Some (Inr (), p') \<and> wire p' = wire p @ m"
  using SerialTransport_send_loop_complete [OF assms, of m 0 p] by (simp add: SerialTransport_send_def)

text \<open>
  Over a port whose \<^verbatim>\<open>read\<close> waits for the bytes asked for, exactly the next message is
  received and what follows it stays in the port.
\<close>

lemma serial_receive_frame:
  assumes "port_reads port_read rx" and "rx p = hdr @ body @ x" and "Header_unpack hdr = Inr h"
    and "int (length body) = payload_byte_len h"
  shows "\<exists>p'. SerialTransport_receive port_read p = (Inr (hdr @ body), p') \<and> rx p' = x"
  using assms by (rule SerialTransport_receive_frame)

end
