(* ===== verification/Session.thy ===== *)
theory Session
  imports Transport
begin

text \<open>
  Procedure descriptors, their registration with a protocol class, and the session that matches
  responses to requests.  The session is the shared state of two threads, the caller and the
  listener; the step relation \<open>sstep\<close> interleaves their atomic actions.
\<close>

section \<open>Procedures and their registration\<close>

datatype call_direction = TO_REMOTE | TO_LOCAL | TWO_WAY

datatype endpoint = REMOTE | LOCAL

text \<open>A function signature: the parameters, \<^verbatim>\<open>self\<close> first, and the return annotation if there is one.\<close>

record signature =
  parameters :: "(string \<times> ctype) list"
  return_annotation :: "ctype option"

type_synonym callback = nat

record rpc =
  id_of :: int
  name_of :: string
  req_serdes :: payload_serdes
  resp_serdes :: payload_serdes
  call_sig :: signature
  is_notification :: bool
  direction :: call_direction
  subscribers :: "callback list"

definition Rpc_new ::
  "int \<Rightarrow> string \<Rightarrow> payload_serdes \<Rightarrow> payload_serdes \<Rightarrow> signature \<Rightarrow> bool \<Rightarrow> call_direction \<Rightarrow> rpc" where
  "Rpc_new i n rq rs sg nf d =
     \<lparr>id_of = i, name_of = n, req_serdes = rq, resp_serdes = rs, call_sig = sg,
      is_notification = nf, direction = d, subscribers = []\<rparr>"

definition Rpc_subscribe :: "callback \<Rightarrow> rpc \<Rightarrow> rpc" where
  "Rpc_subscribe cb r = r\<lparr>subscribers := subscribers r @ [cb]\<rparr>"

definition Rpc_unsubscribe :: "callback \<Rightarrow> rpc \<Rightarrow> rpc res" where
  "Rpc_unsubscribe cb r =
     (if cb \<in> set (subscribers r) then Inr (r\<lparr>subscribers := remove1 cb (subscribers r)\<rparr>)
      else Inl ValueError)"

definition is_call_outbound :: "endpoint \<Rightarrow> rpc \<Rightarrow> bool" where
  "is_call_outbound e c \<longleftrightarrow>
     direction c = TO_LOCAL \<and> e = REMOTE \<or> direction c = TO_REMOTE \<and> e = LOCAL \<or> direction c = TWO_WAY"

definition is_call_inbound :: "endpoint \<Rightarrow> rpc \<Rightarrow> bool" where
  "is_call_inbound e c \<longleftrightarrow>
     direction c = TO_LOCAL \<and> e = LOCAL \<or> direction c = TO_REMOTE \<and> e = REMOTE \<or> direction c = TWO_WAY"

text \<open>The types a parameter or a return value may have.\<close>

definition supported_param :: "ctype \<Rightarrow> bool" where
  "supported_param t \<longleftrightarrow>
     is_numeric_primitive t \<or> is_bytes_or_str t \<or> is_compost_struct t \<or> is_list_type t"

definition supported_return :: "ctype \<Rightarrow> bool" where
  "supported_return t \<longleftrightarrow> supported_param t \<or> t = TOther ''tuple''"

fun check_params :: "(string \<times> ctype) list \<Rightarrow> ctype list res" where
  "check_params [] = Inr []"
| "check_params ((name, t) # ps) =
     rbind (validate_type t) (\<lambda>_.
     if supported_param t then rbind (check_params ps) (\<lambda>ts. Inr (t # ts)) else Inl TypeError)"

definition check_return :: "ctype option \<Rightarrow> ctype list res" where
  "check_return ret =
     (case ret of
        None \<Rightarrow> Inr []
      | Some t \<Rightarrow>
          rbind (validate_type t) (\<lambda>_. if supported_return t then Inr [t] else Inl TypeError))"

text \<open>The decorator \<^verbatim>\<open>rpc\<close> applied to a function, and \<^verbatim>\<open>notification\<close>.\<close>

definition rpc_decorator ::
  "int \<Rightarrow> bool \<Rightarrow> call_direction \<Rightarrow> string \<Rightarrow> signature \<Rightarrow> rpc res" where
  "rpc_decorator i nf d fname sg =
     (case parameters sg of
        [] \<Rightarrow> Inl ValueError
      | _ # items \<Rightarrow>
          rbind (check_params items) (\<lambda>req_types.
          rbind (check_return (return_annotation sg)) (\<lambda>resp_types.
          Inr (Rpc_new i fname \<lparr>types = req_types\<rparr> \<lparr>types = resp_types\<rparr> sg nf d))))"

definition notification_decorator :: "int \<Rightarrow> call_direction \<Rightarrow> string \<Rightarrow> signature \<Rightarrow> rpc res" where
  "notification_decorator i d fname sg = rpc_decorator i True d fname sg"

text \<open>
  The class attribute \<^verbatim>\<open>_rpcs\<close>: a dictionary in insertion order.  It belongs to the base class, so
  that all protocol classes of a program register with the same one.
\<close>

type_synonym registry = "(int \<times> rpc) list"

definition validate_rpc_id :: "registry \<Rightarrow> int \<Rightarrow> unit res" where
  "validate_rpc_id rpcs i =
     (if i \<in> fst ` set rpcs then Inl ValueError
      else if i > 0xF00 \<or> i < 0 then Inl ValueError
      else Inr ())"

definition set_name :: "registry \<Rightarrow> rpc \<Rightarrow> registry res" where
  "set_name rpcs r = rbind (validate_rpc_id rpcs (id_of r)) (\<lambda>_. Inr (rpcs @ [(id_of r, r)]))"

text \<open>A protocol class body: its decorated functions registered one after the other.\<close>

fun register_all :: "registry \<Rightarrow> rpc list \<Rightarrow> registry res" where
  "register_all rpcs [] = Inr rpcs"
| "register_all rpcs (r # rs) = rbind (set_name rpcs r) (\<lambda>rpcs. register_all rpcs rs)"

section \<open>The session\<close>

datatype item = QMsg msg | QExc py_error

record session =
  last_txn :: int
  q :: "item list"
  alive :: bool
  sent :: "byte list list"
  notified :: "(callback \<times> pyval list) list"

definition TXN_MAX :: int where
  "TXN_MAX = 255"

definition Session_init :: session where
  "Session_init = \<lparr>last_txn = 1, q = [], alive = True, sent = [], notified = []\<rparr>"

definition next_txn :: "session \<Rightarrow> int \<times> session" where
  "next_txn s =
     (let s = (if last_txn s \<ge> TXN_MAX then s\<lparr>last_txn := 1\<rparr> else s\<lparr>last_txn := last_txn s + 1\<rparr>)
      in (last_txn s, s))"

definition q_put :: "item \<Rightarrow> session \<Rightarrow> session" where
  "q_put x s = s\<lparr>q := q s @ [x]\<rparr>"

text \<open>
  The callbacks of a notification run on the listener thread; \<open>run cb args\<close> is what the callback
  does.  The payload is unpacked again for each subscriber.  An exception ends the thread.
\<close>

fun notify_subs ::
  "(callback \<Rightarrow> pyval list \<Rightarrow> unit res) \<Rightarrow> payload_serdes \<Rightarrow> byte list \<Rightarrow> callback list \<Rightarrow> session \<Rightarrow> session" where
  "notify_subs run serdes body [] s = s"
| "notify_subs run serdes body (cb # cbs) s =
     (case PayloadSerdes_unpack serdes body of
        Inl e \<Rightarrow> s\<lparr>alive := False\<rparr>
      | Inr args \<Rightarrow>
          let s = s\<lparr>notified := notified s @ [(cb, args)]\<rparr> in
          (case run cb args of
             Inl e \<Rightarrow> s\<lparr>alive := False\<rparr>
           | Inr _ \<Rightarrow> notify_subs run serdes body cbs s))"

text \<open>One round of the listener's loop, on what \<^verbatim>\<open>transport.receive\<close> returned or raised.\<close>

definition receiver_round ::
  "registry \<Rightarrow> (callback \<Rightarrow> pyval list \<Rightarrow> unit res) \<Rightarrow> byte list res \<Rightarrow> session \<Rightarrow> session" where
  "receiver_round rpcs run received s =
     (case received of
        Inl e \<Rightarrow> q_put (QExc e) s
      | Inr msg_bytes \<Rightarrow>
          if length msg_bytes < 4 then q_put (QExc MalformedMessageError) s
          else
            (case Msg_unpack msg_bytes of
               Inl e \<Rightarrow> s\<lparr>alive := False\<rparr>
             | Inr m \<Rightarrow>
                 (case map_of rpcs (rpc_id (msg_header m)) of
                    None \<Rightarrow> q_put (QExc UnknownRpcIdError) s
                  | Some call \<Rightarrow>
                      if txn (msg_header m) = 0
                      then notify_subs run (req_serdes call) (payload m) (subscribers call) s
                      else q_put (QMsg m) s)))"

fun receiver ::
  "registry \<Rightarrow> (callback \<Rightarrow> pyval list \<Rightarrow> unit res) \<Rightarrow> byte list res list \<Rightarrow> session \<Rightarrow> session" where
  "receiver rpcs run [] s = s"
| "receiver rpcs run (r # rs) s =
     (if alive s then receiver rpcs run rs (receiver_round rpcs run r s) else s)"

text \<open>\<^verbatim>\<open>q.get\<close> with a timeout; an empty queue stands for nothing having arrived in time.\<close>

definition recv_response :: "registry \<Rightarrow> int \<Rightarrow> session \<Rightarrow> msg res \<times> session" where
  "recv_response rpcs t s =
     (if \<not> alive s then (Inl RuntimeError, s)
      else
        (case q s of
           [] \<Rightarrow> (Inl RequestTimeoutError, s)
         | x # xs \<Rightarrow>
             let s = s\<lparr>q := xs\<rparr> in
             (case x of
                QExc e \<Rightarrow> (Inl e, s)
              | QMsg m \<Rightarrow>
                  if map_of rpcs (rpc_id (msg_header m)) = None then (Inl UnknownRpcIdError, s)
                  else if txn (msg_header m) \<noteq> t then (Inl UnexpectedTxnError, s)
                  else (Inr m, s))))"

text \<open>\<open>tsend\<close> is the transport's \<^verbatim>\<open>send\<close>; what it was given is recorded in \<open>sent\<close>.\<close>

definition transmit :: "(byte list \<Rightarrow> unit res) \<Rightarrow> msg res \<Rightarrow> session \<Rightarrow> unit res \<times> session" where
  "transmit tsend m s =
     (case rbind m (\<lambda>m. snd (Msg_pack m)) of
        Inl e \<Rightarrow> (Inl e, s)
      | Inr out \<Rightarrow> (tsend out, s\<lparr>sent := sent s @ [out]\<rparr>))"

definition send_request ::
  "(byte list \<Rightarrow> unit res) \<Rightarrow> int \<Rightarrow> byte list \<Rightarrow> session \<Rightarrow> int res \<times> session" where
  "send_request tsend i data s =
     (let (t, s) = next_txn s; (r, s) = transmit tsend (Msg_from_data t False i data) s in
      (rbind r (\<lambda>_. Inr t), s))"

definition send_notif ::
  "(byte list \<Rightarrow> unit res) \<Rightarrow> int \<Rightarrow> byte list \<Rightarrow> bool \<Rightarrow> session \<Rightarrow> unit res \<times> session" where
  "send_notif tsend i data response s = transmit tsend (Msg_from_data 0 response i data) s"

text \<open>
  A call: the request, then what the listener receives until the caller takes an item from the
  queue (\<open>arrivals\<close>), then the response.
\<close>

definition Session_rpc ::
  "registry \<Rightarrow> (callback \<Rightarrow> pyval list \<Rightarrow> unit res) \<Rightarrow> (byte list \<Rightarrow> unit res) \<Rightarrow> int \<Rightarrow> byte list \<Rightarrow>
   byte list res list \<Rightarrow> session \<Rightarrow> byte list res \<times> session" where
  "Session_rpc rpcs run tsend i data arrivals s =
     (case send_request tsend i data s of
        (Inl e, s) \<Rightarrow> (Inl e, s)
      | (Inr t, s) \<Rightarrow>
          let (r, s) = recv_response rpcs t (receiver rpcs run arrivals s) in
          (rbind r (\<lambda>m. Inr (payload m)), s))"

definition Rpc_call ::
  "registry \<Rightarrow> (callback \<Rightarrow> pyval list \<Rightarrow> unit res) \<Rightarrow> (byte list \<Rightarrow> unit res) \<Rightarrow> rpc \<Rightarrow> pyval list \<Rightarrow>
   byte list res list \<Rightarrow> session \<Rightarrow> pyval option res \<times> session" where
  "Rpc_call rpcs run tsend r args arrivals s =
     (case PayloadSerdes_pack (req_serdes r) args of
        Inl e \<Rightarrow> (Inl e, s)
      | Inr data \<Rightarrow>
          if is_notification r then
            let (x, s) = send_notif tsend (id_of r) data False s in (rbind x (\<lambda>_. Inr None), s)
          else
            let (resp, s) = Session_rpc rpcs run tsend (id_of r) data arrivals s in
            (rbind resp (\<lambda>bs.
             rbind (PayloadSerdes_unpack (resp_serdes r) bs) (\<lambda>vs.
             case vs of [] \<Rightarrow> Inr None | v # _ \<Rightarrow> Inr (Some v))), s))"


section \<open>Registration lemmas\<close>

text \<open>Registration succeeds exactly for distinct identifiers in range, and keeps the order.\<close>

lemma set_name_iff:
  "set_name reg r = Inr reg' \<longleftrightarrow>
   id_of r \<notin> fst ` set reg \<and> 0 \<le> id_of r \<and> id_of r \<le> 0xF00 \<and> reg' = reg @ [(id_of r, r)]"
  by (auto simp: set_name_def validate_rpc_id_def)

lemma register_all_iff:
  "register_all reg rs = Inr reg' \<longleftrightarrow>
   distinct (map id_of rs) \<and> list_all (\<lambda>r. id_of r \<notin> fst ` set reg \<and> 0 \<le> id_of r \<and> id_of r \<le> 0xF00) rs \<and>
   reg' = reg @ map (\<lambda>r. (id_of r, r)) rs"
proof (induction rs arbitrary: reg)
  case Nil
  then show ?case by auto
next
  case (Cons r rs)
  have "register_all reg (r # rs) = Inr reg' \<longleftrightarrow>
      (\<exists>reg1. set_name reg r = Inr reg1 \<and> register_all reg1 rs = Inr reg')"
    by (simp add: rbind_Inr_iff)
  also have "\<dots> \<longleftrightarrow> id_of r \<notin> fst ` set reg \<and> 0 \<le> id_of r \<and> id_of r \<le> 0xF00 \<and>
      register_all (reg @ [(id_of r, r)]) rs = Inr reg'"
    by (auto simp: set_name_iff)
  finally show ?case by (auto simp: Cons.IH list_all_iff image_iff)
qed

lemma register_lookup:
  assumes "register_all [] rs = Inr reg" and "r \<in> set rs"
  shows "map_of reg (id_of r) = Some r"
proof -
  have "reg = map (\<lambda>r. (id_of r, r)) rs" "distinct (map id_of rs)"
    using assms(1) by (simp_all add: register_all_iff)
  then show ?thesis using assms(2) by (simp add: map_of_is_SomeI image_iff comp_def)
qed

lemma register_dom:
  assumes "register_all [] rs = Inr reg" and "map_of reg i = Some r"
  shows "r \<in> set rs \<and> id_of r = i \<and> 0 \<le> i \<and> i \<le> 0xF00"
  using assms map_of_SomeD [OF assms(2)] by (auto simp: register_all_iff list_all_iff)

text \<open>What the decorator accepts.\<close>

lemma check_params_Inr:
  "check_params ps = Inr ts \<longleftrightarrow>
   ts = map snd ps \<and> list_all (\<lambda>t. validate_type t = Inr () \<and> supported_param t) ts"
proof (induction ps arbitrary: ts)
  case Nil
  then show ?case by auto
next
  case (Cons p ps)
  obtain name t where p: "p = (name, t)" by fastforce
  have "check_params (p # ps) = Inr ts \<longleftrightarrow>
      validate_type t = Inr () \<and> supported_param t \<and> (\<exists>ts'. check_params ps = Inr ts' \<and> ts = t # ts')"
    by (simp add: p rbind_Inr_iff) blast
  then show ?case unfolding Cons.IH by (auto simp: p)
qed

text \<open>
  A parameter is never a bare bit field, so the two offsets can get out of step only inside a
  structure.
\<close>

definition struct_in_step :: "ctype \<Rightarrow> bool" where
  "struct_in_step t \<longleftrightarrow> (case t of TStruct _ ms \<Rightarrow> phases ms (0, 0) \<noteq> None | _ \<Rightarrow> True)"

lemma phase_supported: "supported_param t \<Longrightarrow> (phase t pu \<noteq> None) = struct_in_step t"
  by (cases t) (auto simp: supported_param_def struct_in_step_def split: backing.splits)

lemma in_step_supported:
  "list_all supported_param ts \<Longrightarrow> in_step ts \<longleftrightarrow> list_all struct_in_step ts"
proof -
  have "list_all supported_param ts \<Longrightarrow> (phases_args ts pu \<noteq> None) = list_all struct_in_step ts" for pu
  proof (induction ts arbitrary: pu)
    case (Cons t ts)
    then show ?case using phase_supported [of t pu] by (auto split: option.splits)
  qed simp
  then show "list_all supported_param ts \<Longrightarrow> in_step ts \<longleftrightarrow> list_all struct_in_step ts"
    by (simp add: in_step_def)
qed

section \<open>Transaction numbers\<close>

definition txn_valid :: "session \<Rightarrow> bool" where
  "txn_valid s \<longleftrightarrow> 1 \<le> last_txn s \<and> last_txn s \<le> 255"

lemma next_txn_eq:
  "txn_valid s \<Longrightarrow> next_txn s = (last_txn s mod 255 + 1, s\<lparr>last_txn := last_txn s mod 255 + 1\<rparr>)"
  by (cases "last_txn s = 255") (auto simp: next_txn_def txn_valid_def TXN_MAX_def Let_def)

lemma next_txn_valid: "txn_valid s \<Longrightarrow> next_txn s = (t, s') \<Longrightarrow> txn_valid s' \<and> t = last_txn s' \<and> 1 \<le> t \<and> t \<le> 255"
  using pos_mod_bound [of 255 "last_txn s"]
  by (auto simp: next_txn_eq txn_valid_def)

lemma next_txn_range:
  assumes "txn_valid s"
  shows "1 \<le> fst (next_txn s)" "fst (next_txn s) \<le> 255"
    "last_txn (snd (next_txn s)) = fst (next_txn s)" "txn_valid (snd (next_txn s))"
  using next_txn_valid [OF assms, of "fst (next_txn s)" "snd (next_txn s)"] by simp_all

lemma next_txn_cong:
  "last_txn s = last_txn s' \<Longrightarrow>
   fst (next_txn s) = fst (next_txn s') \<and> last_txn (snd (next_txn s)) = last_txn (snd (next_txn s'))"
  by (simp add: next_txn_def Let_def)

lemma next_txn_differs: "txn_valid s \<Longrightarrow> fst (next_txn s) \<noteq> last_txn s"
  by (auto simp: next_txn_def txn_valid_def TXN_MAX_def Let_def)

text \<open>The numbers of the next requests.\<close>

fun txns :: "nat \<Rightarrow> session \<Rightarrow> int list" where
  "txns 0 s = []"
| "txns (Suc k) s = (let (t, s) = next_txn s in t # txns k s)"

lemma txns_eq: "txn_valid s \<Longrightarrow> txns k s = map (\<lambda>i. (last_txn s + int i) mod 255 + 1) [0..<k]"
proof (induction k arbitrary: s)
  case (Suc k)
  let ?t = "last_txn s mod 255 + 1" and ?s = "s\<lparr>last_txn := last_txn s mod 255 + 1\<rparr>"
  have v: "txn_valid ?s" using next_txn_valid [OF Suc.prems] next_txn_eq [OF Suc.prems] by blast
  have "(?t + int i) mod 255 = (last_txn s + int (Suc i)) mod 255" for i
    by (simp add: mod_add_left_eq add.assoc)
  then have "txns k ?s = map (\<lambda>i. (last_txn s + int (Suc i)) mod 255 + 1) [0..<k]"
    using Suc.IH [OF v] by simp
  also have "\<dots> = map (\<lambda>i. (last_txn s + int i) mod 255 + 1) [1..<Suc k]"
    by (simp only: map_Suc_upt [symmetric] map_map comp_def One_nat_def)
  finally show ?case
    using next_txn_eq [OF Suc.prems] by (simp add: upt_conv_Cons del: upt_Suc)
qed simp

lemma txns_distinct:
  assumes "txn_valid s" and "k \<le> 255"
  shows "distinct (txns k s)" "\<forall>t \<in> set (txns k s). 1 \<le> t \<and> t \<le> 255"
proof -
  have "i = j" if "(a + int i) mod 255 = (a + int j) mod 255" "i < k" "j < k" for a :: int and i j
  proof -
    have "int i mod 255 = int j mod 255" using that(1) by (simp add: mod_add_cong mod_eq_dvd_iff)
    with that(2,3) assms(2) show ?thesis by (simp add: mod_pos_pos_trivial)
  qed
  then show "distinct (txns k s)"
    using assms(1) by (auto simp: txns_eq distinct_map inj_on_def)
  show "\<forall>t \<in> set (txns k s). 1 \<le> t \<and> t \<le> 255"
    using assms(1) by (auto simp: txns_eq)
qed


section \<open>The session invariant\<close>

text \<open>A queued message is a response: a known procedure and a transaction number other than 0.\<close>

definition response_ok :: "registry \<Rightarrow> item \<Rightarrow> bool" where
  "response_ok rpcs x \<longleftrightarrow>
     (case x of
        QExc _ \<Rightarrow> True
      | QMsg m \<Rightarrow> header_ok (msg_header m) \<and> map_of rpcs (rpc_id (msg_header m)) \<noteq> None \<and> txn (msg_header m) \<noteq> 0)"

text \<open>What goes out is a whole frame: the header's length field gives its length.\<close>

definition frame_ok :: "byte list \<Rightarrow> bool" where
  "frame_ok out \<longleftrightarrow> (case Msg_unpack out of Inr m \<Rightarrow> int (length out) = Msg_len m | Inl _ \<Rightarrow> False)"

definition session_inv :: "registry \<Rightarrow> session \<Rightarrow> bool" where
  "session_inv rpcs s \<longleftrightarrow>
     txn_valid s \<and> list_all (response_ok rpcs) (q s) \<and> list_all frame_ok (sent s)"

lemma Msg_unpack_header_ok: "Msg_unpack bs = Inr m \<Longrightarrow> header_ok (msg_header m)"
  by (auto simp: Msg_unpack_def rbind_Inr_iff dest: Header_unpack_ok)

lemma Msg_unpack_total: "4 \<le> length bs \<Longrightarrow> \<exists>m. Msg_unpack bs = Inr m"
  using Header_unpack_total [of "slice 0 4 bs"] by (auto simp: Msg_unpack_def)

lemma frame_ok_packed:
  assumes "Msg_from_data t r i bs = Inr m" and "snd (Msg_pack m) = Inr out"
  shows "frame_ok out"
proof -
  note sz = packed_message_size [OF assms]
  obtain m' where m': "Msg_unpack out = Inr m'" using Msg_unpack_total [of out] sz(2) by auto
  then have h: "Header_unpack (slice 0 4 out) = Inr (msg_header m')"
    by (auto simp: Msg_unpack_def rbind_Inr_iff)
  have "length (slice 0 4 out) = 4" using sz(2) by simp
  then obtain a b c d where abcd: "slice 0 4 out = [a, b, c, d]" by (rule length4E)
  then have "hd out = a" using sz(5) by (cases out) (simp_all add: slice_def)
  with h abcd sz(4) have "len (msg_header m') = int (words (length bs))"
    by (auto simp: Header_unpack_bytes dest!: arg_cong [of _ _ len])
  then show ?thesis using m' sz(2) by (simp add: frame_ok_def Msg_len_def)
qed

lemma notify_subs_keeps:
  "q (notify_subs run sd body cbs s) = q s" "last_txn (notify_subs run sd body cbs s) = last_txn s"
  "sent (notify_subs run sd body cbs s) = sent s"
  by (induction cbs arbitrary: s) (auto simp: Let_def split: sum.splits)

lemma receiver_round_keeps:
  "last_txn (receiver_round rpcs run r s) = last_txn s" "sent (receiver_round rpcs run r s) = sent s"
  by (auto simp: receiver_round_def q_put_def notify_subs_keeps split: sum.splits option.splits)

lemma receiver_round_queue:
  "\<exists>xs. q (receiver_round rpcs run r s) = q s @ xs \<and> length xs \<le> 1 \<and> list_all (response_ok rpcs) xs"
  by (auto simp: receiver_round_def q_put_def notify_subs_keeps response_ok_def
      split: sum.splits option.splits dest: Msg_unpack_header_ok)

lemma receiver_round_inv: "session_inv rpcs s \<Longrightarrow> session_inv rpcs (receiver_round rpcs run r s)"
  using receiver_round_queue [of rpcs run r s]
  by (auto simp: session_inv_def txn_valid_def receiver_round_keeps)

lemma receiver_inv: "session_inv rpcs s \<Longrightarrow> session_inv rpcs (receiver rpcs run rs s)"
  by (induction rs arbitrary: s) (simp_all add: receiver_round_inv)

lemma transmit_inv:
  assumes "session_inv rpcs s" shows "session_inv rpcs (snd (transmit tsend (Msg_from_data t r i bs) s))"
proof (cases "rbind (Msg_from_data t r i bs) (\<lambda>m. snd (Msg_pack m))")
  case (Inl e)
  with assms show ?thesis by (simp add: transmit_def)
next
  case (Inr out)
  then have "frame_ok out" by (auto simp: rbind_Inr_iff intro: frame_ok_packed)
  with assms Inr show ?thesis by (simp add: transmit_def session_inv_def txn_valid_def)
qed

lemma next_txn_inv: "session_inv rpcs s \<Longrightarrow> session_inv rpcs (snd (next_txn s))"
  using next_txn_valid [of s] by (auto simp: session_inv_def next_txn_def Let_def)

lemma send_request_inv: "session_inv rpcs s \<Longrightarrow> session_inv rpcs (snd (send_request tsend i data s))"
  using transmit_inv [OF next_txn_inv]
  by (auto simp: send_request_def split: prod.splits) (metis snd_conv)

lemma send_notif_inv: "session_inv rpcs s \<Longrightarrow> session_inv rpcs (snd (send_notif tsend i data r s))"
  by (simp add: send_notif_def transmit_inv)

lemma recv_response_inv: "session_inv rpcs s \<Longrightarrow> session_inv rpcs (snd (recv_response rpcs t s))"
  by (auto simp: recv_response_def session_inv_def txn_valid_def Let_def split: list.splits item.splits)

lemma Session_rpc_inv: "session_inv rpcs s \<Longrightarrow> session_inv rpcs (snd (Session_rpc rpcs run tsend i data arr s))"
  using send_request_inv [of rpcs s tsend i data] recv_response_inv [OF receiver_inv]
  by (auto simp: Session_rpc_def split: prod.splits sum.splits) (metis snd_conv)

lemma Session_init_inv: "session_inv rpcs Session_init"
  by (simp add: session_inv_def Session_init_def txn_valid_def)

lemmas session_invs = receiver_round_inv send_request_inv send_notif_inv recv_response_inv

text \<open>A message that leaves the queue as the response is one for this request.\<close>

lemma recv_response_Inr:
  "recv_response rpcs t s = (Inr m, s') \<longleftrightarrow>
   alive s \<and> q s = QMsg m # q s' \<and> s' = s\<lparr>q := q s'\<rparr> \<and>
   map_of rpcs (rpc_id (msg_header m)) \<noteq> None \<and> txn (msg_header m) = t"
  by (auto simp: recv_response_def Let_def split: list.splits item.splits if_splits)


section \<open>Calls\<close>

lemma transmit_ok:
  assumes "length bs \<le> 1020" and "0 \<le> t" "t < 256" and "\<And>out. tsend out = Inr ()"
  shows "\<exists>m out. Msg_from_data t r i bs = Inr m \<and> snd (Msg_pack m) = Inr out \<and>
    transmit tsend (Msg_from_data t r i bs) s = (Inr (), s\<lparr>sent := sent s @ [out]\<rparr>)"
proof -
  obtain m where m: "Msg_from_data t r i bs = Inr m" by (simp add: Msg_from_data_eq)
  then obtain out where "snd (Msg_pack m) = Inr out" using Msg_pack_limit(1) [OF m assms(2,3)] assms(1) by blast
  with m assms(4) show ?thesis by (auto simp: transmit_def)
qed

lemma send_request_ok:
  assumes "txn_valid s" and "length data \<le> 1020" and "\<And>out. tsend out = Inr ()"
  shows "\<exists>t m out s'. next_txn s = (t, s') \<and> 1 \<le> t \<and> t \<le> 255 \<and>
    Msg_from_data t False i data = Inr m \<and> snd (Msg_pack m) = Inr out \<and>
    send_request tsend i data s = (Inr t, s'\<lparr>sent := sent s @ [out]\<rparr>) \<and>
    s' = s\<lparr>last_txn := t\<rparr>"
proof -
  obtain t s' where n: "next_txn s = (t, s')" by fastforce
  have v: "1 \<le> t" "t \<le> 255" and s': "s' = s\<lparr>last_txn := t\<rparr>"
    using next_txn_valid [OF assms(1) n] n next_txn_eq [OF assms(1)] by auto
  obtain m out where "Msg_from_data t False i data = Inr m" "snd (Msg_pack m) = Inr out"
    "transmit tsend (Msg_from_data t False i data) s' = (Inr (), s'\<lparr>sent := sent s' @ [out]\<rparr>)"
    using transmit_ok [OF assms(2), of t tsend False i s'] v assms(3) by auto
  then show ?thesis using n v s' by (auto simp: send_request_def)
qed

text \<open>A payload that does not fit is refused by the header, after the transaction number was used up.\<close>

lemma send_request_too_long:
  assumes "txn_valid s" and "1020 < length data"
  shows "send_request tsend i data s = (Inl StructError, snd (next_txn s))"
proof -
  obtain t s' where n: "next_txn s = (t, s')" by fastforce
  have v: "0 \<le> t" "t < 256" using next_txn_valid [OF assms(1) n] by auto
  obtain m where m: "Msg_from_data t False i data = Inr m" by (simp add: Msg_from_data_eq)
  have "snd (Msg_pack m) = Inl StructError" using Msg_pack_limit(2) [OF m v] assms(2) by blast
  then show ?thesis using n m by (simp add: send_request_def transmit_def)
qed

text \<open>A received notification that its subscribers handle without an exception.\<close>

definition quiet :: "registry \<Rightarrow> (callback \<Rightarrow> pyval list \<Rightarrow> unit res) \<Rightarrow> byte list res \<Rightarrow> bool" where
  "quiet rpcs run r \<longleftrightarrow>
     (case r of
        Inl _ \<Rightarrow> False
      | Inr bs \<Rightarrow> 4 \<le> length bs \<and>
          (case Msg_unpack bs of
             Inl _ \<Rightarrow> False
           | Inr m \<Rightarrow> txn (msg_header m) = 0 \<and>
               (case map_of rpcs (rpc_id (msg_header m)) of
                  None \<Rightarrow> False
                | Some call \<Rightarrow> list_all (\<lambda>cb.
                    (case PayloadSerdes_unpack (req_serdes call) (payload m) of
                       Inl _ \<Rightarrow> False | Inr args \<Rightarrow> run cb args = Inr ())) (subscribers call))))"

definition answers :: "registry \<Rightarrow> int \<Rightarrow> byte list \<Rightarrow> msg \<Rightarrow> bool" where
  "answers rpcs t bs m \<longleftrightarrow>
     4 \<le> length bs \<and> Msg_unpack bs = Inr m \<and> map_of rpcs (rpc_id (msg_header m)) \<noteq> None \<and>
     txn (msg_header m) = t \<and> t \<noteq> 0"

lemma receiver_append:
  "receiver rpcs run (as @ bs) s = receiver rpcs run bs (receiver rpcs run as s)"
proof (induction as arbitrary: s)
  case (Cons a as)
  then show ?case by (cases bs) simp_all
qed simp

lemma notify_subs_quiet:
  "list_all (\<lambda>cb. (case PayloadSerdes_unpack sd body of Inl _ \<Rightarrow> False | Inr args \<Rightarrow> run cb args = Inr ())) cbs \<Longrightarrow>
   alive (notify_subs run sd body cbs s) = alive s"
  by (induction cbs arbitrary: s) (auto simp: Let_def split: sum.splits)

lemma receiver_round_quiet:
  assumes "quiet rpcs run r"
  shows "q (receiver_round rpcs run r s) = q s" "alive (receiver_round rpcs run r s) = alive s"
  using assms
  by (auto simp: quiet_def receiver_round_def notify_subs_keeps notify_subs_quiet
      split: sum.splits option.splits)

lemma receiver_quiet:
  assumes "list_all (quiet rpcs run) rs" and "alive s"
  shows "q (receiver rpcs run rs s) = q s \<and> alive (receiver rpcs run rs s) \<and>
    last_txn (receiver rpcs run rs s) = last_txn s \<and> sent (receiver rpcs run rs s) = sent s"
  using assms
  by (induction rs arbitrary: s) (auto simp: receiver_round_quiet receiver_round_keeps)

lemma receiver_round_answers:
  "answers rpcs t bs m \<Longrightarrow> receiver_round rpcs run (Inr bs) s = q_put (QMsg m) s"
  by (auto simp: receiver_round_def answers_def)

text \<open>
  A call in a session whose queue is empty: notifications may come first, and then the response
  with the number of the request.  The call returns its payload and leaves the queue empty.
\<close>

lemma Session_rpc_answered:
  assumes "txn_valid s" "alive s" "q s = []" and "length data \<le> 1020" and "\<And>out. tsend out = Inr ()"
    and "list_all (quiet rpcs run) ns" and "answers rpcs (fst (next_txn s)) raw m"
  shows "\<exists>s' rq out. Session_rpc rpcs run tsend i data (ns @ [Inr raw]) s = (Inr (payload m), s') \<and>
    Msg_from_data (fst (next_txn s)) False i data = Inr rq \<and> snd (Msg_pack rq) = Inr out \<and>
    sent s' = sent s @ [out] \<and> q s' = [] \<and> alive s' \<and> last_txn s' = fst (next_txn s)"
proof -
  obtain t rq out s1 where t: "next_txn s = (t, s1)" and rq: "Msg_from_data t False i data = Inr rq"
    "snd (Msg_pack rq) = Inr out"
    and sr: "send_request tsend i data s = (Inr t, s1\<lparr>sent := sent s @ [out]\<rparr>)"
    and s1: "s1 = s\<lparr>last_txn := t\<rparr>"
    using send_request_ok [OF assms(1,4), of tsend i] assms(5) by auto
  let ?s2 = "s1\<lparr>sent := sent s @ [out]\<rparr>" let ?s3 = "receiver rpcs run ns ?s2"
  have s3: "q ?s3 = []" "alive ?s3" "last_txn ?s3 = t" "sent ?s3 = sent s @ [out]"
    using receiver_quiet [OF assms(6), of ?s2] s1 assms(2,3) by simp_all
  have a: "answers rpcs t raw m" using assms(7) t by simp
  have "receiver rpcs run (ns @ [Inr raw]) ?s2 = q_put (QMsg m) ?s3"
    using s3(2) receiver_round_answers [OF a] by (simp add: receiver_append)
  moreover have "recv_response rpcs t (q_put (QMsg m) ?s3) = (Inr m, ?s3)"
    using s3 a by (simp add: recv_response_def q_put_def answers_def Let_def)
  ultimately show ?thesis using sr rq s3 t by (auto simp: Session_rpc_def)
qed


text \<open>The response message that a peer makes for a request, on the wire, with padding behind it.\<close>

lemma response_answers:
  assumes "Msg_from_data t True i bs = Inr m" and "snd (Msg_pack m) = Inr out"
    and "1 \<le> t" "t \<le> 255" "0 \<le> i" "i < 4096" and "map_of rpcs i \<noteq> None"
  shows "\<exists>m'. answers rpcs t (out @ pad) m' \<and>
    payload m' = bs @ replicate (4 * words (length bs) - length bs) 0 @ pad"
proof -
  note sz = packed_message_size [OF assms(1,2)]
  have t: "0 \<le> t" "t < 256" using assms(3,4) by simp_all
  have "Msg_unpack (out @ pad) =
      Inr \<lparr>msg_header = msg_header m, payload = bs @ replicate (4 * words (length bs) - length bs) 0 @ pad\<rparr>"
    using Msg_roundtrip [OF assms(1) sz(1) t assms(5,6), of pad] assms(2) by auto
  moreover have "rpc_id (msg_header m) = i" "txn (msg_header m) = t"
    using assms(1) by (auto simp: Msg_from_data_eq)
  ultimately show ?thesis using assms(3,7) sz(2) by (auto simp: answers_def)
qed

lemma Rpc_call_answered:
  assumes s: "txn_valid s" "alive s" "q s = []" and send: "\<And>out. tsend out = Inr ()"
    and r: "\<not> is_notification r" "map_of rpcs (id_of r) \<noteq> None" "0 \<le> id_of r" "id_of r < 4096"
    and args: "PayloadSerdes_pack (req_serdes r) args = Inr data" "length data \<le> 1020"
    and quiet: "list_all (quiet rpcs run) ns"
    and rsp: "types (resp_serdes r) = [T]" "wt T v" "in_step [T]"
      "PayloadSerdes_pack (resp_serdes r) [v] = Inr rdata"
      "Msg_from_data (fst (next_txn s)) True (id_of r) rdata = Inr m" "snd (Msg_pack m) = Inr out"
  shows "\<exists>s'. Rpc_call rpcs run tsend r args (ns @ [Inr (out @ pad)]) s = (Inr (Some v), s') \<and>
    q s' = [] \<and> alive s' \<and> last_txn s' = fst (next_txn s)"
proof -
  note t = next_txn_range(1,2) [OF s(1)]
  obtain m' where a: "answers rpcs (fst (next_txn s)) (out @ pad) m'"
    and p: "payload m' = rdata @ replicate (4 * words (length rdata) - length rdata) 0 @ pad"
    using response_answers [OF rsp(5,6) t r(3,4,2)] by blast
  obtain s' where s': "Session_rpc rpcs run tsend (id_of r) data (ns @ [Inr (out @ pad)]) s = (Inr (payload m'), s')"
    "q s' = []" "alive s'" "last_txn s' = fst (next_txn s)"
    using Session_rpc_answered [where tsend = tsend and i = "id_of r", OF s args(2) send quiet a] by blast
  have "PayloadSerdes_unpack (resp_serdes r) (payload m') = Inr [v]"
    using unpack_pack_payload [of "[T]" "[v]" rdata] rsp(1-4) p
    by (simp add: PayloadSerdes_unpack_def PayloadSerdes_pack_def)
  with s' args r(1) show ?thesis by (simp add: Rpc_call_def)
qed

section \<open>What goes wrong after a lost response\<close>

text \<open>
  A session lags when it is idle and the queue still holds the response to an earlier request.
\<close>

fun stale_only :: "registry \<Rightarrow> int \<Rightarrow> item list \<Rightarrow> bool" where
  "stale_only rpcs t [QMsg m] = (txn (msg_header m) = t \<and> map_of rpcs (rpc_id (msg_header m)) \<noteq> None)"
| "stale_only rpcs t _ = False"

definition lagging :: "registry \<Rightarrow> session \<Rightarrow> bool" where
  "lagging rpcs s \<longleftrightarrow>
     txn_valid s \<and> alive s \<and> stale_only rpcs (last_txn s) (q s)"

lemma stale_onlyD:
  "stale_only rpcs t xs \<Longrightarrow>
   \<exists>m. xs = [QMsg m] \<and> txn (msg_header m) = t \<and> map_of rpcs (rpc_id (msg_header m)) \<noteq> None"
  by (induction rpcs t xs rule: stale_only.induct) auto

lemma timeout_lags:
  assumes "txn_valid s" "alive s" "q s = []" and "length data \<le> 1020" and "\<And>out. tsend out = Inr ()"
    and "answers rpcs (fst (next_txn s)) late m"
  shows "\<exists>s'. Session_rpc rpcs run tsend i data [] s = (Inl RequestTimeoutError, s') \<and>
    lagging rpcs (receiver rpcs run [Inr late] s')"
proof -
  obtain t out s1 where t: "next_txn s = (t, s1)" "1 \<le> t" "t \<le> 255"
    and sr: "send_request tsend i data s = (Inr t, s1\<lparr>sent := sent s @ [out]\<rparr>)"
    and s1: "s1 = s\<lparr>last_txn := t\<rparr>"
    using send_request_ok [OF assms(1,4), of tsend i] assms(5) by auto
  let ?s2 = "s1\<lparr>sent := sent s @ [out]\<rparr>"
  have a: "answers rpcs t late m" using assms(6) t(1) by simp
  have "recv_response rpcs t ?s2 = (Inl RequestTimeoutError, ?s2)"
    using s1 assms(2,3) by (simp add: recv_response_def)
  then have "Session_rpc rpcs run tsend i data [] s = (Inl RequestTimeoutError, ?s2)"
    using sr by (simp add: Session_rpc_def)
  moreover have "receiver rpcs run [Inr late] ?s2 = q_put (QMsg m) ?s2"
    using s1 assms(2) receiver_round_answers [OF a] by simp
  moreover have "lagging rpcs (q_put (QMsg m) ?s2)"
    using s1 t a assms(2,3) by (simp add: lagging_def q_put_def txn_valid_def answers_def)
  ultimately show ?thesis by auto
qed

lemma lagging_step:
  assumes "lagging rpcs s" and "length data \<le> 1020" and "\<And>out. tsend out = Inr ()"
    and "answers rpcs (fst (next_txn s)) raw m"
  shows "\<exists>s'. Session_rpc rpcs run tsend i data [Inr raw] s = (Inl UnexpectedTxnError, s') \<and> lagging rpcs s'"
proof -
  obtain m0 where v: "txn_valid s" "alive s" and q0: "q s = [QMsg m0]"
    and m0: "txn (msg_header m0) = last_txn s" "map_of rpcs (rpc_id (msg_header m0)) \<noteq> None"
    using assms(1) unfolding lagging_def by (blast dest: stale_onlyD)
  obtain t out s1 where t: "next_txn s = (t, s1)" "1 \<le> t" "t \<le> 255"
    and sr: "send_request tsend i data s = (Inr t, s1\<lparr>sent := sent s @ [out]\<rparr>)"
    and s1: "s1 = s\<lparr>last_txn := t\<rparr>"
    using send_request_ok [OF v(1) assms(2), of tsend i] assms(3) by auto
  let ?s2 = "s1\<lparr>sent := sent s @ [out]\<rparr>"
  have a: "answers rpcs t raw m" using assms(4) t(1) by simp
  have ne: "t \<noteq> last_txn s" using next_txn_differs [OF v(1)] t(1) by simp
  have "receiver rpcs run [Inr raw] ?s2 = q_put (QMsg m) ?s2"
    using s1 v(2) receiver_round_answers [OF a] by simp
  moreover have "recv_response rpcs t (q_put (QMsg m) ?s2) = (Inl UnexpectedTxnError, ?s2\<lparr>q := [QMsg m]\<rparr>)"
    using s1 v(2) q0 m0 ne by (simp add: recv_response_def q_put_def Let_def)
  ultimately have "Session_rpc rpcs run tsend i data [Inr raw] s = (Inl UnexpectedTxnError, ?s2\<lparr>q := [QMsg m]\<rparr>)"
    using sr by (simp add: Session_rpc_def)
  moreover have "lagging rpcs (?s2\<lparr>q := [QMsg m]\<rparr>)"
    using s1 t v(2) a by (simp add: lagging_def txn_valid_def answers_def)
  ultimately show ?thesis by blast
qed

text \<open>Calls one after the other, each with what arrives while it waits.\<close>

fun Session_rpcs ::
  "registry \<Rightarrow> (callback \<Rightarrow> pyval list \<Rightarrow> unit res) \<Rightarrow> (byte list \<Rightarrow> unit res) \<Rightarrow>
   (int \<times> byte list \<times> byte list res list) list \<Rightarrow> session \<Rightarrow> byte list res list \<times> session" where
  "Session_rpcs rpcs run tsend [] s = ([], s)"
| "Session_rpcs rpcs run tsend ((i, data, arr) # cs) s =
     (let (r, s) = Session_rpc rpcs run tsend i data arr s; (rs, s) = Session_rpcs rpcs run tsend cs s
      in (r # rs, s))"

text \<open>Every call of a list is answered in time, with its own transaction number.\<close>

fun answered_in_time :: "registry \<Rightarrow> int \<Rightarrow> byte list res list \<Rightarrow> bool" where
  "answered_in_time rpcs t [Inr raw] =
     (case Msg_unpack raw of Inr m \<Rightarrow> answers rpcs t raw m | Inl _ \<Rightarrow> False)"
| "answered_in_time rpcs t _ = False"

fun all_answered :: "registry \<Rightarrow> (int \<times> byte list \<times> byte list res list) list \<Rightarrow> session \<Rightarrow> bool" where
  "all_answered rpcs [] s = True"
| "all_answered rpcs ((i, data, arr) # cs) s =
     (length data \<le> 1020 \<and> answered_in_time rpcs (fst (next_txn s)) arr \<and>
      all_answered rpcs cs (snd (next_txn s)))"

lemma answered_in_timeD:
  "answered_in_time rpcs t arr \<Longrightarrow> \<exists>raw m. arr = [Inr raw] \<and> answers rpcs t raw m"
  by (induction rpcs t arr rule: answered_in_time.induct) (auto split: sum.splits)

lemma all_answered_cong: "last_txn s = last_txn s' \<Longrightarrow> all_answered rpcs cs s = all_answered rpcs cs s'"
proof (induction cs arbitrary: s s')
  case (Cons c cs)
  note n = next_txn_cong [OF Cons.prems]
  have "all_answered rpcs cs (snd (next_txn s)) = all_answered rpcs cs (snd (next_txn s'))"
    using n by (intro Cons.IH) simp
  with n show ?case by (cases c) simp
qed simp

lemma all_answered_ConsE:
  assumes "all_answered rpcs ((i, data, arr) # cs) s"
  obtains raw m where "arr = [Inr raw]" "answers rpcs (fst (next_txn s)) raw m" "length data \<le> 1020"
    "all_answered rpcs cs (snd (next_txn s))"
proof -
  have a: "length data \<le> 1020" "answered_in_time rpcs (fst (next_txn s)) arr"
    "all_answered rpcs cs (snd (next_txn s))" using assms by simp_all
  from answered_in_timeD [OF a(2)] that a(1,3) show ?thesis by blast
qed

lemma Session_rpc_last_txn:
  "last_txn (snd (Session_rpc rpcs run tsend i data arr s)) = last_txn (snd (next_txn s))"
proof -
  have r: "last_txn (receiver rpcs run rs s) = last_txn s" for rs s
    by (induction rs arbitrary: s) (simp_all add: receiver_round_keeps)
  have rr: "last_txn (snd (recv_response rpcs t s)) = last_txn s" for t s
    by (simp add: recv_response_def Let_def split: list.splits item.splits)
  have sr: "last_txn (snd (send_request tsend i data s)) = last_txn (snd (next_txn s))"
    by (auto simp: send_request_def transmit_def split: prod.splits sum.splits)
  show ?thesis
    using sr rr [of _ "receiver rpcs run arr _"]
    by (auto simp: Session_rpc_def r split: prod.splits sum.splits) (metis r snd_conv)
qed

lemma lagging_forever:
  assumes "lagging rpcs s" and "all_answered rpcs cs s" and "\<And>out. tsend out = Inr ()"
  shows "fst (Session_rpcs rpcs run tsend cs s) = replicate (length cs) (Inl UnexpectedTxnError)"
  using assms(1,2)
proof (induction cs arbitrary: s)
  case (Cons c cs)
  obtain i data arr where c: "c = (i, data, arr)" by (cases c)
  obtain raw m where a: "arr = [Inr raw]" "answers rpcs (fst (next_txn s)) raw m" "length data \<le> 1020"
    "all_answered rpcs cs (snd (next_txn s))"
    using Cons.prems(2) unfolding c by (rule all_answered_ConsE)
  obtain s' where s': "Session_rpc rpcs run tsend i data [Inr raw] s = (Inl UnexpectedTxnError, s')" "lagging rpcs s'"
    using lagging_step [where tsend = tsend and run = run and i = i, OF Cons.prems(1) a(3) assms(3) a(2)]
    by blast
  have "last_txn s' = last_txn (snd (next_txn s))"
    using Session_rpc_last_txn [of rpcs run tsend i data "[Inr raw]" s] s'(1) by simp
  then have "all_answered rpcs cs s'" using a(4) all_answered_cong by blast
  from Cons.IH [OF s'(2) this] s'(1) a(1) c show ?case by (auto split: prod.splits)
qed simp

text \<open>The same calls in a session that is not lagging all succeed.\<close>

lemma synced_forever:
  assumes "txn_valid s" "alive s" "q s = []" and "all_answered rpcs cs s" and "\<And>out. tsend out = Inr ()"
  shows "list_all (\<lambda>r. \<exists>bs. r = Inr bs) (fst (Session_rpcs rpcs run tsend cs s))"
  using assms(1-4)
proof (induction cs arbitrary: s)
  case (Cons c cs)
  obtain i data arr where c: "c = (i, data, arr)" by (cases c)
  obtain raw m where a: "arr = [Inr raw]" "answers rpcs (fst (next_txn s)) raw m" "length data \<le> 1020"
    "all_answered rpcs cs (snd (next_txn s))"
    using Cons.prems(4) unfolding c by (rule all_answered_ConsE)
  obtain s' where s': "Session_rpc rpcs run tsend i data [Inr raw] s = (Inr (payload m), s')"
    "q s' = []" "alive s'" "last_txn s' = fst (next_txn s)"
    using Session_rpc_answered [where tsend = tsend and run = run and i = i and ns = "[]",
        OF Cons.prems(1-3) a(3) assms(5) _ a(2)] by auto
  have l: "last_txn s' = last_txn (snd (next_txn s))" and v: "txn_valid s'"
    using next_txn_range [OF Cons.prems(1)] s'(4) by (simp_all add: txn_valid_def)
  then have "all_answered rpcs cs s'" using a(4) all_answered_cong by blast
  from Cons.IH [OF v s'(3,2) this] s'(1) a(1) c show ?case by (auto split: prod.splits)
qed simp

section \<open>A dead listener\<close>

lemma receiver_dead: "\<not> alive s \<Longrightarrow> receiver rpcs run rs s = s"
  by (cases rs) simp_all

lemma Session_rpc_dead:
  assumes "txn_valid s" and "\<not> alive s" and "length data \<le> 1020" and "\<And>out. tsend out = Inr ()"
  shows "\<exists>s'. Session_rpc rpcs run tsend i data arr s = (Inl RuntimeError, s') \<and> \<not> alive s'"
proof -
  obtain t out s1 where sr: "send_request tsend i data s = (Inr t, s1\<lparr>sent := sent s @ [out]\<rparr>)"
    and s1: "s1 = s\<lparr>last_txn := t\<rparr>"
    using send_request_ok [OF assms(1,3), of tsend i] assms(4) by auto
  then show ?thesis using assms(2) by (simp add: Session_rpc_def receiver_dead recv_response_def)
qed


section \<open>The interleaving of caller and listener\<close>

text \<open>
  The caller either does nothing or waits for the response to the request \<open>t\<close>; \<open>results\<close> are
  what its calls returned or raised.  Transport failures on either side are part of the steps.
\<close>

record system =
  sess :: session
  waiting :: "int option"
  results :: "byte list res list"

definition system_init :: system where
  "system_init = \<lparr>sess = Session_init, waiting = None, results = []\<rparr>"

inductive sstep :: "registry \<Rightarrow> system \<Rightarrow> system \<Rightarrow> bool" for rpcs where
  listen: "alive (sess x) \<Longrightarrow> sstep rpcs x (x\<lparr>sess := receiver_round rpcs run r (sess x)\<rparr>)"
| request: "waiting x = None \<Longrightarrow> send_request tsend i data (sess x) = (Inr t, s) \<Longrightarrow>
    sstep rpcs x (x\<lparr>sess := s, waiting := Some t\<rparr>)"
| refuse: "waiting x = None \<Longrightarrow> send_request tsend i data (sess x) = (Inl e, s) \<Longrightarrow>
    sstep rpcs x (x\<lparr>sess := s, results := results x @ [Inl e]\<rparr>)"
| notify: "waiting x = None \<Longrightarrow> send_notif tsend i data b (sess x) = (r, s) \<Longrightarrow>
    sstep rpcs x (x\<lparr>sess := s\<rparr>)"
| respond: "waiting x = Some t \<Longrightarrow> recv_response rpcs t (sess x) = (r, s) \<Longrightarrow>
    sstep rpcs x (x\<lparr>sess := s, waiting := None, results := results x @ [rbind r (\<lambda>m. Inr (payload m))]\<rparr>)"

inductive_cases sstepE: "sstep rpcs x y"

text \<open>States reachable from an initial one, and invariants of a transition system.\<close>

inductive reachable :: "('s \<Rightarrow> bool) \<Rightarrow> ('s \<Rightarrow> 's \<Rightarrow> bool) \<Rightarrow> 's \<Rightarrow> bool" for init step where
  start: "init x \<Longrightarrow> reachable init step x"
| move: "reachable init step x \<Longrightarrow> step x y \<Longrightarrow> reachable init step y"

locale invariant_of =
  fixes init :: "'s \<Rightarrow> bool" and step :: "'s \<Rightarrow> 's \<Rightarrow> bool" and inv :: "'s \<Rightarrow> bool"
  assumes init_inv: "init x \<Longrightarrow> inv x"
    and step_inv: "inv x \<Longrightarrow> step x y \<Longrightarrow> inv y"
begin

lemma reachable_inv: "reachable init step x \<Longrightarrow> inv x"
  by (induction rule: reachable.induct) (auto intro: init_inv step_inv)

lemma run_inv: "step\<^sup>*\<^sup>* x y \<Longrightarrow> inv x \<Longrightarrow> inv y"
  by (induction rule: rtranclp_induct) (auto intro: step_inv)

end

definition system_inv :: "registry \<Rightarrow> system \<Rightarrow> bool" where
  "system_inv rpcs x \<longleftrightarrow>
     session_inv rpcs (sess x) \<and>
     (case waiting x of None \<Rightarrow> True | Some t \<Rightarrow> t = last_txn (sess x))"

lemma send_request_txn:
  "session_inv rpcs s \<Longrightarrow> send_request tsend i data s = (Inr t, s') \<Longrightarrow> t = last_txn s'"
  by (auto simp: send_request_def transmit_def next_txn_def Let_def rbind_Inr_iff split: prod.splits sum.splits)

lemma sstep_inv:
  assumes "system_inv rpcs x" and "sstep rpcs x y" shows "system_inv rpcs y"
  using assms(2)
proof (cases rule: sstep.cases)
  case (listen run r)
  then show ?thesis
    using assms(1) by (simp add: system_inv_def receiver_round_inv receiver_round_keeps split: option.splits)
next
  case (request tsend i data t s)
  then show ?thesis
    using assms(1) send_request_inv [of rpcs "sess x" tsend i data] send_request_txn
    by (auto simp: system_inv_def)
next
  case (refuse tsend i data e s)
  then show ?thesis
    using assms(1) send_request_inv [of rpcs "sess x" tsend i data] by (auto simp: system_inv_def)
next
  case (notify tsend i data b r s)
  then show ?thesis
    using assms(1) send_notif_inv [of rpcs "sess x" tsend i data b] by (auto simp: system_inv_def)
next
  case (respond t r s)
  then show ?thesis
    using assms(1) recv_response_inv [of rpcs "sess x" t] by (auto simp: system_inv_def)
qed

interpretation sys: invariant_of "\<lambda>x. x = system_init" "sstep rpcs" "system_inv rpcs" for rpcs
proof
  show "system_inv rpcs x" if "x = system_init" for x
    using that by (simp add: system_inv_def system_init_def Session_init_inv)
qed (rule sstep_inv)

text \<open>The listener never comes back: no step sets \<open>alive\<close> again.\<close>

lemma alive_keeps:
  "alive (snd (transmit tsend m s)) = alive s" "alive (snd (next_txn s)) = alive s"
  "alive (snd (recv_response rpcs t s)) = alive s"
  by (simp_all add: transmit_def next_txn_def recv_response_def Let_def split: sum.splits list.splits item.splits)

lemma send_request_alive: "alive (snd (send_request tsend i data s)) = alive s"
  using alive_keeps(1,2) by (auto simp: send_request_def split: prod.splits) (metis snd_conv)+

lemma sstep_dead:
  assumes "\<not> alive (sess x)" and "sstep rpcs x y" shows "\<not> alive (sess y)"
proof -
  have sr: "send_request tsend i data (sess x) = (r, s) \<Longrightarrow> alive s = alive (sess x)" for tsend i data r s
    using send_request_alive [of tsend i data "sess x"] by simp
  have sn: "send_notif tsend i data b (sess x) = (r, s) \<Longrightarrow> alive s = alive (sess x)" for tsend i data b r s
    using alive_keeps(1) [of tsend "Msg_from_data 0 b i data" "sess x"] by (simp add: send_notif_def)
  have rr: "recv_response rpcs t (sess x) = (r, s) \<Longrightarrow> alive s = alive (sess x)" for t r s
    using alive_keeps(3) [of rpcs t "sess x"] by simp
  show ?thesis using assms(2,1) by (elim sstepE) (auto dest: sr sn rr)
qed

interpretation dead: invariant_of "\<lambda>x. \<not> alive (sess x)" "sstep rpcs" "\<lambda>x. \<not> alive (sess x)" for rpcs
  by unfold_locales (auto dest: sstep_dead)

section \<open>Properties of sessions\<close>

text \<open>The procedure of the documentation's first example, registered alone.\<close>

definition read8 :: rpc where
  "read8 = Rpc_new 1 ''read8'' \<lparr>types = [TNum U32]\<rparr> \<lparr>types = [TNum U8]\<rparr>
     \<lparr>parameters = [(''self'', TOther ''_empty''), (''address'', TNum U32)], return_annotation = Some (TNum U8)\<rparr>
     False TO_REMOTE"

lemma read8_registered: "register_all [] [read8] = Inr [(1, read8)]"
  by (simp add: set_name_def validate_rpc_id_def read8_def Rpc_new_def)

text \<open>
  C11. A call in a session with nothing pending returns the value the peer put into the response:
  the request goes out, notifications may come in between, the response carries the request's
  transaction number and any padding.  The session is ready for the next call afterwards.
\<close>

theorem rpc_call_answered:
  assumes "txn_valid s" "alive s" "q s = []" and "\<And>out. tsend out = Inr ()"
    and "\<not> is_notification r" "map_of rpcs (id_of r) \<noteq> None" "0 \<le> id_of r" "id_of r < 4096"
    and "PayloadSerdes_pack (req_serdes r) args = Inr data" "length data \<le> 1020"
    and "list_all (quiet rpcs run) ns"
    and "types (resp_serdes r) = [T]" "wt T v" "in_step [T]"
      "PayloadSerdes_pack (resp_serdes r) [v] = Inr rdata"
      "Msg_from_data (fst (next_txn s)) True (id_of r) rdata = Inr m" "snd (Msg_pack m) = Inr out"
  shows "\<exists>s'. Rpc_call rpcs run tsend r args (ns @ [Inr (out @ pad)]) s = (Inr (Some v), s') \<and>
    q s' = [] \<and> alive s' \<and> last_txn s' = fst (next_txn s)"
  using assms by (rule Rpc_call_answered)

theorem rpc_call_answered_witness:
  "\<exists>s'. Rpc_call [(1, read8)] (\<lambda>_ _. Inr ()) (\<lambda>_. Inr ()) read8 [VInt 4096]
      ([] @ [Inr ([1, 2, 16, 1, 7, 0, 0, 0] @ [0])]) Session_init = (Inr (Some (VInt 7)), s') \<and> q s' = []"
proof -
  have "PayloadSerdes_pack (req_serdes read8) [VInt 4096] = Inr [0, 0, 16, 0]" by code_simp
  moreover have "PayloadSerdes_pack (resp_serdes read8) [VInt 7] = Inr [7]" by code_simp
  moreover have "Msg_from_data (fst (next_txn Session_init)) True (id_of read8) [7] =
      Inr \<lparr>msg_header = \<lparr>len = 1, txn = 2, resp = True, rpc_id = 1\<rparr>, payload = [7]\<rparr>" by code_simp
  moreover have "snd (Msg_pack \<lparr>msg_header = \<lparr>len = 1, txn = 2, resp = True, rpc_id = 1\<rparr>, payload = [7]\<rparr>) =
      Inr [1, 2, 16, 1, 7, 0, 0, 0]" by code_simp
  moreover have "txn_valid Session_init" "alive Session_init" "q Session_init = []"
    by (simp_all add: Session_init_def txn_valid_def)
  moreover have "\<not> is_notification read8" "id_of read8 = 1" "types (resp_serdes read8) = [TNum U8]"
    by (simp_all add: read8_def Rpc_new_def)
  moreover have "wt (TNum U8) (VInt 7)" "in_step [TNum U8]" by (simp_all add: fmt_range_def in_step_def)
  ultimately show ?thesis
    using rpc_call_answered [of Session_init "\<lambda>_. Inr ()" read8 "[(1, read8)]" "[VInt 4096]" "[0, 0, 16, 0]"
        "\<lambda>_ _. Inr ()" "[]" "TNum U8" "VInt 7" "[7]"
        "\<lparr>msg_header = \<lparr>len = 1, txn = 2, resp = True, rpc_id = 1\<rparr>, payload = [7]\<rparr>" "[1, 2, 16, 1, 7, 0, 0, 0]" "[0]"]
    by auto
qed

text \<open>
  C12. In every interleaving of the caller and the listener, with any messages and transport
  errors coming in: the transaction number stays between 1 and 255, every queued message is
  the response of a registered procedure with a transaction number other than 0, everything sent
  is a whole frame, and a waiting caller waits for the number used last.
\<close>

theorem session_reachable_inv:
  assumes "reachable (\<lambda>x. x = system_init) (sstep rpcs) x"
  shows "1 \<le> last_txn (sess x) \<and> last_txn (sess x) \<le> 255 \<and>
    (\<forall>m. QMsg m \<in> set (q (sess x)) \<longrightarrow>
       map_of rpcs (rpc_id (msg_header m)) \<noteq> None \<and> txn (msg_header m) \<noteq> 0 \<and> header_ok (msg_header m)) \<and>
    (\<forall>out \<in> set (sent (sess x)). frame_ok out) \<and>
    (\<forall>t. waiting x = Some t \<longrightarrow> t = last_txn (sess x))"
  using sys.reachable_inv [OF assms]
  by (force simp: system_inv_def session_inv_def txn_valid_def list_all_iff response_ok_def
      split: item.splits option.splits)

theorem session_reachable_inv_witness:
  "\<exists>x. reachable (\<lambda>x. x = system_init) (sstep [(1, read8)]) x \<and> waiting x = Some 2 \<and>
     last_txn (sess x) = 2 \<and> sent (sess x) = [[0, 2, 0, 1]] \<and> frame_ok [0, 2, 0, 1]"
proof -
  let ?s = "Session_init\<lparr>last_txn := 2, sent := [[0, 2, 0, 1]]\<rparr>"
  let ?x = "system_init\<lparr>sess := ?s, waiting := Some 2\<rparr>"
  have "send_request (\<lambda>_. Inr ()) 1 [] (sess system_init) = (Inr 2, ?s)" by code_simp
  moreover have "waiting system_init = None" by (simp add: system_init_def)
  ultimately have "sstep [(1, read8)] system_init ?x" by (intro sstep.request)
  then have "reachable (\<lambda>x. x = system_init) (sstep [(1, read8)]) ?x"
    by (rule reachable.move [OF reachable.start, rotated]) simp
  from session_reachable_inv [OF this] this show ?thesis by auto
qed

text \<open>
  The numbers of 255 consecutive requests are all different, and none is 0, the number
  reserved for notifications.
\<close>

lemma txn_numbers_distinct:
  assumes "txn_valid s" and "k \<le> 255"
  shows "distinct (txns k s) \<and> (\<forall>t \<in> set (txns k s). 1 \<le> t \<and> t \<le> 255)"
  using txns_distinct [OF assms] by blast

text \<open>
  A protocol class can be defined exactly when its identifiers are distinct and between 0
  and 0xF00; then each procedure is found under its identifier, which fits the twelve bits of
  the header.
\<close>

lemma registration_iff:
  "(\<exists>reg. register_all [] rs = Inr reg \<and>
      (\<forall>r \<in> set rs. map_of reg (id_of r) = Some r) \<and>
      (\<forall>i r. map_of reg i = Some r \<longrightarrow> r \<in> set rs \<and> id_of r = i \<and> i < 4096)) \<longleftrightarrow>
   distinct (map id_of rs) \<and> (\<forall>r \<in> set rs. 0 \<le> id_of r \<and> id_of r \<le> 0xF00)"
    (is "?L \<longleftrightarrow> ?R")
proof
  assume ?L
  then obtain reg where "register_all [] rs = Inr reg" by blast
  then show ?R unfolding register_all_iff by (simp add: list_all_iff)
next
  assume ?R
  then have reg: "register_all [] rs = Inr (map (\<lambda>r. (id_of r, r)) rs)"
    unfolding register_all_iff by (simp add: list_all_iff)
  have "i < 4096" if "map_of (map (\<lambda>r. (id_of r, r)) rs) i = Some r" for i r
    using register_dom [OF reg that] by simp
  then show ?L
    using reg register_lookup [OF reg] register_dom [OF reg] by blast
qed

text \<open>
  The types of a decorated procedure's parameters are the annotations in order, each one
  supported, and they stay in step exactly when each structure among them does: between
  parameters the offsets cannot get out of step.
\<close>

lemma decorated_in_step:
  assumes "rpc_decorator i nf d n sg = Inr r"
  shows "types (req_serdes r) = map snd (tl (parameters sg)) \<and>
    list_all supported_param (types (req_serdes r)) \<and>
    (in_step (types (req_serdes r)) \<longleftrightarrow> list_all struct_in_step (types (req_serdes r)))"
proof -
  obtain p ps ts where "parameters sg = p # ps" and "check_params ps = Inr ts" and t: "types (req_serdes r) = ts"
    using assms by (auto simp: rpc_decorator_def rbind_Inr_iff Rpc_new_def split: list.splits)
  then have "types (req_serdes r) = map snd (tl (parameters sg)) \<and> list_all supported_param ts"
    by (auto simp: check_params_Inr list_all_iff)
  with t in_step_supported [of ts] show ?thesis by simp
qed

text \<open>
  As long as every call is answered in time with its own number, every call of any sequence
  of calls returns a payload.
\<close>

lemma answered_calls_succeed:
  assumes "txn_valid s" "alive s" "q s = []" and "all_answered rpcs cs s" and "\<And>out. tsend out = Inr ()"
  shows "list_all (\<lambda>r. \<exists>bs. r = Inr bs) (fst (Session_rpcs rpcs run tsend cs s))"
  using assms by (rule synced_forever)

text \<open>
  C30. One response that comes after its call timed out puts the session out of step for good:
  every later call of any sequence fails with \<^verbatim>\<open>UnexpectedTxnError\<close>, although each one is answered
  in time with its own number.
\<close>

theorem late_response_desynchronises:
  assumes "txn_valid s" "alive s" "q s = []" and "length data \<le> 1020" and "\<And>out. tsend out = Inr ()"
    and "answers rpcs (fst (next_txn s)) late m"
  shows "\<exists>s'. Session_rpc rpcs run tsend i data [] s = (Inl RequestTimeoutError, s') \<and>
    (\<forall>cs. all_answered rpcs cs (receiver rpcs run [Inr late] s') \<longrightarrow>
       fst (Session_rpcs rpcs run tsend cs (receiver rpcs run [Inr late] s')) =
         replicate (length cs) (Inl UnexpectedTxnError))"
proof -
  obtain s' where s': "Session_rpc rpcs run tsend i data [] s = (Inl RequestTimeoutError, s')"
    "lagging rpcs (receiver rpcs run [Inr late] s')"
    using timeout_lags [where tsend = tsend and run = run and i = i, OF assms] by blast
  then show ?thesis
    using lagging_forever [where tsend = tsend and run = run, OF s'(2) _ assms(5)] by blast
qed

theorem late_response_desynchronises_witness:
  "\<exists>s'. Session_rpc [(1, read8)] (\<lambda>_ _. Inr ()) (\<lambda>_. Inr ()) 1 [] [] Session_init = (Inl RequestTimeoutError, s') \<and>
     fst (Session_rpcs [(1, read8)] (\<lambda>_ _. Inr ()) (\<lambda>_. Inr ())
       [(1, [], [Inr [0, 3, 16, 1]])] (receiver [(1, read8)] (\<lambda>_ _. Inr ()) [Inr [0, 2, 16, 1]] s')) =
     [Inl UnexpectedTxnError]"
proof -
  have "answers [(1, read8)] (fst (next_txn Session_init)) [0, 2, 16, 1]
      \<lparr>msg_header = \<lparr>len = 0, txn = 2, resp = True, rpc_id = 1\<rparr>, payload = []\<rparr>" by code_simp
  from late_response_desynchronises [OF _ _ _ _ _ this, of "[]" "\<lambda>_. Inr ()" "\<lambda>_ _. Inr ()" 1]
  obtain s' where s': "Session_rpc [(1, read8)] (\<lambda>_ _. Inr ()) (\<lambda>_. Inr ()) 1 [] [] Session_init =
      (Inl RequestTimeoutError, s')"
    "\<And>cs. all_answered [(1, read8)] cs (receiver [(1, read8)] (\<lambda>_ _. Inr ()) [Inr [0, 2, 16, 1]] s') \<Longrightarrow>
       fst (Session_rpcs [(1, read8)] (\<lambda>_ _. Inr ()) (\<lambda>_. Inr ()) cs
         (receiver [(1, read8)] (\<lambda>_ _. Inr ()) [Inr [0, 2, 16, 1]] s')) =
         replicate (length cs) (Inl UnexpectedTxnError)"
    by (auto simp: Session_init_def txn_valid_def)
  have "last_txn s' = 2"
    using Session_rpc_last_txn [of "[(1, read8)]" "\<lambda>_ _. Inr ()" "\<lambda>_. Inr ()" 1 "[]" "[]" Session_init] s'(1)
    by (simp add: next_txn_def TXN_MAX_def Session_init_def)
  then have "last_txn (receiver [(1, read8)] (\<lambda>_ _. Inr ()) [Inr [0, 2, 16, 1]] s') = 2"
    by (simp add: receiver_round_keeps)
  then have "all_answered [(1, read8)] [(1, [], [Inr [0, 3, 16, 1]])]
        (receiver [(1, read8)] (\<lambda>_ _. Inr ()) [Inr [0, 2, 16, 1]] s') =
      all_answered [(1, read8)] [(1, [], [Inr [0, 3, 16, 1]])] (Session_init\<lparr>last_txn := 2\<rparr>)"
    by (intro all_answered_cong) (simp del: receiver.simps)
  also have "\<dots>" by code_simp
  finally have "all_answered [(1, read8)] [(1, [], [Inr [0, 3, 16, 1]])]
      (receiver [(1, read8)] (\<lambda>_ _. Inr ()) [Inr [0, 2, 16, 1]] s')" .
  from s'(2) [OF this] s'(1) show ?thesis by simp
qed

text \<open>
  C31. When a callback or a malformed notification has ended the listener thread, it stays
  ended whatever happens, and every later call fails with \<^verbatim>\<open>RuntimeError\<close>, even if its response arrives.
\<close>

theorem dead_listener:
  assumes "\<not> alive (sess x)" and "(sstep rpcs)\<^sup>*\<^sup>* x y" and "txn_valid (sess y)"
    and "length data \<le> 1020" and "\<And>out. tsend out = Inr ()"
  shows "fst (Session_rpc rpcs run tsend i data arr (sess y)) = Inl RuntimeError"
proof -
  have "\<not> alive (sess y)" using dead.run_inv [OF assms(2,1)] .
  from Session_rpc_dead [where tsend = tsend and rpcs = rpcs and run = run and i = i and arr = arr,
      OF assms(3) this assms(4,5)]
  show ?thesis by auto
qed

theorem dead_listener_witness:
  "fst (Session_rpc [(1, read8)] (\<lambda>_ _. Inr ()) (\<lambda>_. Inr ()) 1 [] [Inr [0, 2, 16, 1]]
     (Session_init\<lparr>alive := False\<rparr>)) = Inl RuntimeError"
  using dead_listener [of "system_init\<lparr>sess := Session_init\<lparr>alive := False\<rparr>\<rparr>" "[(1, read8)]"
      "system_init\<lparr>sess := Session_init\<lparr>alive := False\<rparr>\<rparr>" "[]" "\<lambda>_. Inr ()" "\<lambda>_ _. Inr ()" 1 "[Inr [0, 2, 16, 1]]"]
  by (simp add: txn_valid_def Session_init_def)

text \<open>
  A request whose payload has more than 1020 bytes is refused with \<^verbatim>\<open>struct.error\<close>: nothing
  is sent, but the transaction number is used up.
\<close>

lemma request_too_long:
  assumes "txn_valid s" and "1020 < length data"
  shows "send_request tsend i data s = (Inl StructError, snd (next_txn s)) \<and> sent (snd (next_txn s)) = sent s"
  using send_request_too_long [OF assms] next_txn_eq [OF assms(1)] by simp

end
