(* ===== verification/CGen.thy ===== *)
theory CGen
  imports Names Session
begin

text \<open>
  The code generator for C: the mapping of annotations to C types and functions, the functions
  it emits for structures, and what it emits for the procedures of a protocol.  The body
  of a \<^verbatim>\<open>store\<close> or \<^verbatim>\<open>load\<close> function is a list of statements (\<open>stmt\<close>), whose text \<open>stmt_text\<close> renders as
  the generator does; the theory \<open>CSerdes\<close> executes it.
\<close>

section \<open>Features and endpoints\<close>

record features =
  inbound_rpc :: bool
  outbound_rpc :: bool
  inbound_notification :: bool
  outbound_notification :: bool

definition CodeGeneratorFeatures_new :: "bool \<Rightarrow> bool \<Rightarrow> bool \<Rightarrow> bool \<Rightarrow> features" where
  "CodeGeneratorFeatures_new in_r out_r in_n out_n =
     \<lparr>inbound_rpc = in_r, outbound_rpc = out_r, inbound_notification = in_n, outbound_notification = out_n\<rparr>"

definition CCodeGenerator_features :: features where
  "CCodeGenerator_features = CodeGeneratorFeatures_new True False True True"

definition CSharpCodeGenerator_features :: features where
  "CSharpCodeGenerator_features = CodeGeneratorFeatures_new False True True False"

definition endpoint_ok :: "features \<Rightarrow> endpoint \<Rightarrow> rpc \<Rightarrow> bool" where
  "endpoint_ok f e r =
     (if is_notification r
      then is_call_inbound e r \<and> inbound_notification f \<or> is_call_outbound e r \<and> outbound_notification f
      else is_call_inbound e r \<and> inbound_rpc f \<or> is_call_outbound e r \<and> outbound_rpc f)"

fun validate_endpoint :: "features \<Rightarrow> endpoint \<Rightarrow> rpc list \<Rightarrow> unit res" where
  "validate_endpoint f e [] = Inr ()"
| "validate_endpoint f e (r # rs) = (if endpoint_ok f e r then validate_endpoint f e rs else Inl ValueError)"

section \<open>Types in C\<close>

fun num_name :: "numty \<Rightarrow> string" where
  "num_name U64 = ''U64''" | "num_name I64 = ''I64''" | "num_name U32 = ''U32''" | "num_name I32 = ''I32''"
| "num_name U16 = ''U16''" | "num_name I16 = ''I16''" | "num_name U8 = ''U8''" | "num_name I8 = ''I8''"
| "num_name F32 = ''F32''" | "num_name F64 = ''F64''"

text \<open>Decimal numbers, as an f-string prints them.\<close>

fun dec_digits :: "nat \<Rightarrow> string" where
  "dec_digits n = (if n < 10 then [char_of (48 + n)] else dec_digits (n div 10) @ [char_of (48 + n mod 10)])"

declare dec_digits.simps [simp del]

definition dec_int :: "int \<Rightarrow> string" where
  "dec_int i = (if i < 0 then ''-'' @ dec_digits (nat (- i)) else dec_digits (nat i))"

text \<open>The attribute \<^verbatim>\<open>__name__\<close> of a class.\<close>

fun type_name :: "ctype \<Rightarrow> string" where
  "type_name (TNum k) = num_name k"
| "type_name (TBitU w) = ''BitU['' @ dec_digits w @ '']''"
| "type_name (TEnum n _ _) = n"
| "type_name TStr = ''str''"
| "type_name TBytes = ''bytes''"
| "type_name (TList _) = ''list''"
| "type_name (TStruct n _) = n"
| "type_name (TOther n) = n"

fun primitive_type :: "numty \<Rightarrow> string" where
  "primitive_type U8 = ''uint8_t''" | "primitive_type I8 = ''int8_t''"
| "primitive_type U16 = ''uint16_t''" | "primitive_type I16 = ''int16_t''"
| "primitive_type U32 = ''uint32_t''" | "primitive_type I32 = ''int32_t''"
| "primitive_type U64 = ''uint64_t''" | "primitive_type I64 = ''int64_t''"
| "primitive_type F32 = ''float''" | "primitive_type F64 = ''double''"

definition c_type :: "ctype \<Rightarrow> string res" where
  "c_type t =
     (case t of
        TNum k \<Rightarrow> Inr (primitive_type k)
      | TStr \<Rightarrow> Inr ''struct CompostSliceU8''
      | TBytes \<Rightarrow> Inr ''struct CompostSliceU8''
      | TList args \<Rightarrow> (case args of [] \<Rightarrow> Inl IndexError | a # _ \<Rightarrow> Inr (''struct CompostSlice'' @ type_name a))
      | TStruct n _ \<Rightarrow> Inr (''struct '' @ n)
      | TBitU _ \<Rightarrow> Inr (primitive_type U32)
      | TEnum n (BBitU _) _ \<Rightarrow> Inr (primitive_type U32)
      | TEnum n _ _ \<Rightarrow> Inr (''enum '' @ n)
      | TOther _ \<Rightarrow> Inl TypeError)"

section \<open>Store and load functions\<close>

datatype helper = Store | Load

fun helper_name :: "helper \<Rightarrow> string" where
  "helper_name Store = ''store''"
| "helper_name Load = ''load''"

definition num_fn :: "numty \<Rightarrow> string \<Rightarrow> string" where
  "num_fn k suffix = ''compost_'' @ lower (num_name k) @ ''_'' @ suffix"

definition serdes_fn :: "ctype \<Rightarrow> string \<Rightarrow> string res" where
  "serdes_fn t suffix =
     (case t of
        TNum k \<Rightarrow> Inr (num_fn k suffix)
      | TEnum _ b _ \<Rightarrow>
          (case b of BNum k \<Rightarrow> Inr (num_fn k suffix) | BBitU _ \<Rightarrow> Inr (''compost_bituint_'' @ suffix)
           | BNone \<Rightarrow> Inl AttributeError)
      | TStr \<Rightarrow> Inr (''compost_slice_u8_'' @ suffix)
      | TBytes \<Rightarrow> Inr (''compost_slice_u8_'' @ suffix)
      | TList args \<Rightarrow>
          (case args of [] \<Rightarrow> Inl IndexError
           | a # _ \<Rightarrow> Inr (''compost_slice_'' @ lower (type_name a) @ ''_'' @ suffix))
      | TBitU _ \<Rightarrow> Inr (''compost_bituint_'' @ suffix)
      | TStruct n _ \<Rightarrow> Inr (n @ ''_'' @ suffix)
      | TOther _ \<Rightarrow> Inl TypeError)"

text \<open>
  A statement of a function body: a call on a member of the structure, with the pointer
  dereferenced for bit fields and the member passed by reference for structures, or an advance
  of the pointer.
\<close>

datatype stmt =
    Call (fn_of: string) (deref: bool) (byref: bool) (member_of: string) (extra: "nat list")
  | Advance nat

type_synonym cfun = "string \<times> stmt list"

text \<open>The width of a member for which \<^verbatim>\<open>_issubclass(member_t, BitU)\<close> holds.\<close>

fun bitu_width :: "ctype \<Rightarrow> memunit option" where
  "bitu_width (TBitU w) = Some w"
| "bitu_width (TEnum _ (BBitU w) _) = Some w"
| "bitu_width _ = None"

definition byte_align_stmts :: "memunit \<Rightarrow> stmt list" where
  "byte_align_stmts off =
     (let off = mu_byte_align off in if mu_bytes off \<noteq> 0 then [Advance (mu_bytes off)] else [])"

text \<open>Assignment to a key of a dictionary, which keeps the position of a key that is there.\<close>

definition dict_set :: "('k \<times> 'v) list \<Rightarrow> 'k \<Rightarrow> 'v \<Rightarrow> ('k \<times> 'v) list" where
  "dict_set d k v =
     (if k \<in> fst ` set d then map (\<lambda>e. if fst e = k then (k, v) else e) d else d @ [(k, v)])"

text \<open>
  The member loop of \<^verbatim>\<open>_define_type_helper\<close> and the call emitters \<^verbatim>\<open>_store_call\<close> and \<^verbatim>\<open>_load_call\<close>.
  The dictionary \<^verbatim>\<open>_type_serdes\<close> is threaded through: a call for a structure without a function in
  it first defines this function.  The final alignment is emitted behind the last member.
\<close>

function member_stmts :: "helper \<Rightarrow> members \<Rightarrow> memunit \<Rightarrow> cfun list \<Rightarrow> (stmt list \<times> cfun list) res"
  and emit_call :: "helper \<Rightarrow> ctype \<Rightarrow> cfun list \<Rightarrow> (string \<times> cfun list) res" where
  "member_stmts h [] off d = Inr (byte_align_stmts off, d)"
| "member_stmts h ((name, t) # ms) off d =
     (case bitu_width t of
        Some w \<Rightarrow>
          rbind (emit_call h t d) (\<lambda>c.
          rbind (member_stmts h ms (mu_add off w) (snd c)) (\<lambda>p.
          Inr (Call (fst c) True False name [off, w] # fst p, snd p)))
      | None \<Rightarrow>
          rbind (emit_call h t d) (\<lambda>c.
          rbind (member_stmts h ms 0 (snd c)) (\<lambda>p.
          Inr (byte_align_stmts off @
                 Call (fst c) False (h = Store \<and> is_compost_struct t) name [] # fst p, snd p))))"
| "emit_call h t d =
     (case t of
        TStruct n ms \<Rightarrow>
          let fn = n @ ''_'' @ helper_name h in
          if fn \<in> fst ` set d then Inr (fn, d)
          else rbind (member_stmts h ms 0 d) (\<lambda>p. Inr (fn, dict_set (snd p) fn (fst p)))
      | _ \<Rightarrow> rbind (serdes_fn t (helper_name h)) (\<lambda>fn. Inr (fn, d)))"
  by pat_completeness auto
termination
  by (relation "measure (\<lambda>x. case x of
        Inl (_, ms, _, _) \<Rightarrow> 2 * size_list (size_prod (\<lambda>_. 0) size) ms
      | Inr (_, t, _) \<Rightarrow> 2 * size t + 1)") auto

section \<open>The emitted text\<close>

definition comma :: "string list \<Rightarrow> string" where
  "comma xs = (case xs of [] \<Rightarrow> [] | y # ys \<Rightarrow> y @ concat (map (\<lambda>z. '', '' @ z) ys))"

fun stmt_text :: "helper \<Rightarrow> stmt \<Rightarrow> string" where
  "stmt_text Store (Call fn dr rf name args) =
     fn @ ''('' @ comma ([if dr then ''*dest'' else ''dest'', (if rf then ''&'' else []) @ ''src->'' @ name] @
       map dec_digits args) @ '');''"
| "stmt_text Load (Call fn dr rf name args) =
     ''ret.'' @ name @ '' = '' @ fn @ ''('' @ comma ((if dr then ''*src'' else ''src'') # map dec_digits args) @ '');''"
| "stmt_text Store (Advance n) = ''*dest += '' @ dec_digits n @ '';''"
| "stmt_text Load (Advance n) = ''*src += '' @ dec_digits n @ '';''"

definition fn_text :: "helper \<Rightarrow> string \<Rightarrow> stmt list \<Rightarrow> string" where
  "fn_text h t ss =
     (let fn = t @ ''_'' @ helper_name h;
          proto = (if h = Store then ''void '' @ fn @ ''(uint8_t** dest, struct '' @ t @ ''* src)''
                   else ''struct '' @ t @ '' '' @ fn @ ''(const uint8_t ** src)'');
          code = indent_inc (add_lines (String_new [] 0) [proto, ''{'']);
          code = (if h = Load then add_line code (''struct '' @ t @ '' ret;'') else code);
          code = add_lines code (map (stmt_text h) ss);
          code = (if h = Load then add_line code ''return ret;'' else code)
      in str (add_line (indent_dec code) (''}'' @ ''\<newline>'')))"

end
