(* ===== verification/CBits.thy ===== *)
theory CBits
  imports BitU
begin

text \<open>
  The bit field accessors of the generated C code, at the widths of the C types: 32-bit
  counters, a 64-bit accumulator, bytes that are updated in place.  A read or write outside the
  buffer and a shift by the width of its operand or more are undefined in C and have the value
  \<open>None\<close>.  The theory ends with the agreement of the C and the Python implementations.
\<close>

section \<open>Helpers of the generated code\<close>

definition compost_bits_to_bytes :: "32 word \<Rightarrow> 32 word" where
  "compost_bits_to_bytes bits = (bits + 7) div 8"

text \<open>The sum is computed as an \<^verbatim>\<open>int\<close>, the result converted to \<^verbatim>\<open>uint8_t\<close>.\<close>

definition compost_bytes_to_words :: "16 word \<Rightarrow> 8 word" where
  "compost_bytes_to_words bytes = word_of_int ((uint bytes + 3) div 4)"

definition compost_min :: "16 word \<Rightarrow> 16 word \<Rightarrow> 16 word" where
  "compost_min len1 len2 = (if len1 < len2 then len1 else len2)"

section \<open>Loading and storing bit fields\<close>

lemma field_step:
  fixes bp br :: "32 word"
  defines "f \<equiv> 8 - bp mod 8"
  defines "p \<equiv> (if br \<le> f then br else f)"
  shows "unat f = 8 - unat bp mod 8" and "unat p = min (unat br) (8 - unat bp mod 8)"
    and "unat (f - p) = 8 - unat bp mod 8 - unat p" and "unat (br - p) = unat br - unat p"
    and "0 < br \<Longrightarrow> 0 < unat p"
proof -
  have m: "unat (bp mod 8) = unat bp mod 8" by (simp add: unat_mod)
  then have "bp mod 8 \<le> 8" by (simp add: word_le_nat_alt)
  then show f: "unat f = 8 - unat bp mod 8" by (simp add: f_def unat_sub m)
  show p: "unat p = min (unat br) (8 - unat bp mod 8)"
    using f by (simp add: p_def word_le_nat_alt min_def)
  have "p \<le> f" "p \<le> br" by (auto simp: p_def)
  then show "unat (f - p) = 8 - unat bp mod 8 - unat p" "unat (br - p) = unat br - unat p"
    by (simp_all add: unat_sub f)
  show "0 < unat p" if "0 < br" using that p by (simp add: word_greater_zero_iff unat_gt_0)
qed

lemma field_decrease:
  "0 < (br :: 32 word) \<Longrightarrow> unat (br - (if br \<le> 8 - bp mod 8 then br else 8 - bp mod 8)) < unat br"
  unfolding field_step(4) field_step(2)
  using mod_less_divisor [of 8 "unat bp"] by (simp add: word_less_nat_alt)

function bituint_load_loop ::
  "byte list \<Rightarrow> 32 word \<Rightarrow> 32 word \<Rightarrow> 32 word \<Rightarrow> 64 word \<Rightarrow> 64 word option" where
  "bituint_load_loop src byte_index bits_remaining bit_position val =
     (if bits_remaining > 0 then
        let bits_to_fill = 8 - (bit_position mod 8);
            bits_to_place = (if bits_remaining \<le> bits_to_fill then bits_remaining else bits_to_fill);
            shift = bits_to_fill - bits_to_place;
            mask' = push_bit (unat bits_to_place) 1 - 1
        in if unat byte_index < length src then
             let bitValue = drop_bit (unat shift) (ucast (src ! unat byte_index)) AND mask';
                 bits_remaining' = bits_remaining - bits_to_place
             in if unat bits_remaining' < 64 then
                  bituint_load_loop src (byte_index + 1) bits_remaining' (bit_position + bits_to_place)
                    (val OR push_bit (unat bits_remaining') bitValue)
                else None
           else None
      else Some val)"
  by pat_completeness auto
termination
  by (relation "measure (\<lambda>(_, _, r, _, _). unat r)")
     (simp, simp only: in_measure split_conv field_decrease)

definition compost_bituint_load :: "byte list \<Rightarrow> 32 word \<Rightarrow> 32 word \<Rightarrow> 32 word option" where
  "compost_bituint_load src offset_bits size_bits =
     map_option ucast (bituint_load_loop src (offset_bits div 8) size_bits offset_bits 0)"

function bituint_store_loop ::
  "byte list \<Rightarrow> 32 word \<Rightarrow> 32 word \<Rightarrow> 32 word \<Rightarrow> 32 word \<Rightarrow> byte list option" where
  "bituint_store_loop dest v byte_index bits_remaining bit_position =
     (if bits_remaining > 0 then
        let bits_to_fill = 8 - (bit_position mod 8);
            bits_to_place = (if bits_remaining \<le> bits_to_fill then bits_remaining else bits_to_fill);
            shift = bits_to_fill - bits_to_place;
            mask' = push_bit (unat bits_to_place) 1 - 1 :: 64 word
        in if unat (bits_remaining - bits_to_place) < 32 \<and> unat byte_index < length dest then
             let bitValue = ucast (drop_bit (unat (bits_remaining - bits_to_place)) v) AND mask';
                 i = unat byte_index;
                 dest1 = dest[i := ucast (ucast (dest ! i) AND NOT (push_bit (unat shift) mask'))];
                 dest2 = dest1[i := ucast (ucast (dest1 ! i) OR push_bit (unat shift) bitValue)]
             in bituint_store_loop dest2 v (byte_index + 1) (bits_remaining - bits_to_place)
                  (bit_position + bits_to_place)
           else None
      else Some dest)"
  by pat_completeness auto
termination
  by (relation "measure (\<lambda>(_, _, _, r, _). unat r)")
     (simp, simp only: in_measure split_conv field_decrease)

definition compost_bituint_store :: "byte list \<Rightarrow> 32 word \<Rightarrow> 32 word \<Rightarrow> 32 word \<Rightarrow> byte list option" where
  "compost_bituint_store dest v offset_bits size_bits =
     bituint_store_loop dest v (offset_bits div 8) size_bits offset_bits"

declare bituint_load_loop.simps [simp del] bituint_store_loop.simps [simp del]


section \<open>The loops, bit by bit\<close>

lemma unat_add_small: "unat a + unat b < 2 ^ 32 \<Longrightarrow> unat (a + b :: 32 word) = unat a + unat b"
  by (simp add: unat_word_ariths)

lemma unat_Suc_small: "unat a + 1 < 2 ^ 32 \<Longrightarrow> unat (a + 1 :: 32 word) = unat a + 1"
  using unat_add_small [of a 1] by simp

lemma mask_word: "(push_bit p 1 - 1 :: 64 word) = mask p"
  by (simp add: mask_eq_exp_minus_1 push_bit_eq_mult)

lemma byte_next:
  fixes bp bi p :: "32 word"
  assumes "unat bi = unat bp div 8" and "unat p = min r (8 - unat bp mod 8)" and "unat bp + r < 2 ^ 32"
  shows "unat (bp + p) = unat bp + unat p" and "0 < r - unat p \<Longrightarrow> unat (bi + 1) = (unat bp + unat p) div 8"
proof -
  show "unat (bp + p) = unat bp + unat p" using assms(2,3) by (intro unat_add_small) simp
  assume "0 < r - unat p"
  then have "unat p = 8 - unat bp mod 8" using assms(2) by simp
  moreover have "unat bp div 8 < 2 ^ 29" using assms(3) by (intro less_mult_imp_div_less) simp
  then have "unat bi + 1 < 2 ^ 32" using assms(1) by simp
  ultimately show "unat (bi + 1) = (unat bp + unat p) div 8"
    using bits_next_byte [of "unat bp"] assms(1) by (simp add: unat_Suc_small)
qed

lemma bituint_load_loop_bits:
  assumes "0 < br \<longrightarrow> unat bi = unat bp div 8" and "unat bp + unat br \<le> 8 * length src"
    and "unat bp + unat br < 2 ^ 32" and "unat br \<le> 64"
  shows "\<exists>r. bituint_load_loop src bi br bp v = Some r \<and>
    (\<forall>k < 64. bit r k = (bit v k \<or> k < unat br \<and> buf_bit src (unat bp + unat br - 1 - k)))"
  using assms
proof (induction src bi br bp v rule: bituint_load_loop.induct)
  case (1 src bi br bp v)
  show ?case
  proof (cases "0 < br")
    case False
    then have "br = 0" by (simp add: word_greater_zero_iff)
    then show ?thesis by (simp add: bituint_load_loop.simps)
  next
    case True
    define f where "f = 8 - bp mod 8"
    define p where "p = (if br \<le> f then br else f)"
    define br' where "br' = br - p"
    define bv where "bv = (drop_bit (unat (f - p)) (ucast (src ! unat bi)) AND (push_bit (unat p) 1 - 1) :: 64 word)"
    note st = field_step(2,2-5) [where bp = bp and br = br, folded f_def, folded p_def]
    let ?P = "unat p" and ?BP = "unat bp" and ?BR = "unat br"
    have p: "0 < ?P" "?P \<le> ?BR" "?P \<le> 8 - ?BP mod 8" using st(2,5) True by simp_all
    have bi: "unat bi = ?BP div 8" using "1.prems"(1) True by simp
    have lt: "unat bi < length src" using bi "1.prems"(2) True by (simp add: word_less_nat_alt)
    have br': "unat br' = ?BR - ?P" using st(4) by (simp add: br'_def)
    note nx = byte_next [OF bi st(2) "1.prems"(3)]
    have bits_bv: "bit (push_bit (?BR - ?P) bv) k \<longleftrightarrow>
        ?BR - ?P \<le> k \<and> k < ?BR \<and> buf_bit src (?BP + ?BR - 1 - k)" if "k < 64" for k
    proof (cases "?BR - ?P \<le> k \<and> k < ?BR")
      case k: True
      define t where "t = k - (?BR - ?P)"
      have t: "t < ?P" "?BP + ?BR - 1 - k = ?BP + ?P - 1 - t" using k p(1,2) unfolding t_def by linarith+
      have "8 - ?BP mod 8 - ?P + t < 8" using t(1) p(3) by linarith
      then show ?thesis
        using k t(1) that bit_chunk_index [OF t(1) p(3)] bi lt unfolding t(2) bv_def mask_word st(3)
        by (simp add: buf_bit_def bit_push_bit_iff bit_and_iff bit_drop_bit_eq bit_mask_iff
            bit_unsigned_iff flip: t_def)
    next
      case False
      then show ?thesis using p(2) unfolding bv_def mask_word
        by (auto simp: bit_push_bit_iff bit_and_iff bit_mask_iff)
    qed
    have l64: "unat br' < 64" using br' p(1) "1.prems"(4) p(2) by linarith
    have e: "?BP + ?P + (?BR - ?P) = ?BP + ?BR" using p(2) by simp
    have le: "?BR - ?P \<le> 64" using "1.prems"(4) by linarith
    obtain r where r: "bituint_load_loop src (bi + 1) br' (bp + p) (v OR push_bit (unat br') bv) = Some r"
      and rb: "\<And>k. k < 64 \<Longrightarrow> bit r k = (bit (v OR push_bit (unat br') bv) k \<or>
                k < unat br' \<and> buf_bit src (?BP + ?BR - 1 - k))"
      using "1.IH" [OF True f_def p_def refl refl lt bv_def br'_def l64] nx "1.prems"(2-4) p(2) le
      unfolding br' nx(1) e by (auto simp: word_less_nat_alt br')
    have "bituint_load_loop src bi br bp v = Some r"
      using True lt r l64
      by (subst bituint_load_loop.simps)
         (simp only: Let_def if_True flip: f_def p_def bv_def br'_def)
    moreover have "bit r k = (bit v k \<or> k < ?BR \<and> buf_bit src (?BP + ?BR - 1 - k))" if "k < 64" for k
      using rb [OF that] bits_bv [OF that] p(2) unfolding br' by (auto simp: bit_or_iff)
    ultimately show ?thesis by blast
  qed
qed


text \<open>One byte of the storing loop.\<close>

lemma c_byte_bits:
  fixes b :: byte and y :: "64 word"
  assumes "n < 8" and "s + p \<le> 8"
  shows "bit (ucast (ucast (ucast (ucast b AND NOT (push_bit s (mask p)) :: 64 word) :: byte) OR
                push_bit s (y AND mask p) :: 64 word) :: byte) n =
         (if s \<le> n \<and> n < s + p then bit y (n - s) else bit b n)"
  using assms
  by (auto simp: bit_unsigned_iff bit_or_iff bit_and_iff bit_not_iff bit_push_bit_iff bit_mask_iff)

lemma bituint_store_loop_bits:
  assumes "0 < br \<longrightarrow> unat bi = unat bp div 8" and "unat bp + unat br \<le> 8 * length dest"
    and "unat bp + unat br < 2 ^ 32" and "unat br \<le> 32"
  shows "\<exists>dest'. bituint_store_loop dest v bi br bp = Some dest' \<and> length dest' = length dest \<and>
    (\<forall>i < 8 * length dest. buf_bit dest' i =
       (if unat bp \<le> i \<and> i < unat bp + unat br then bit v (unat bp + unat br - 1 - i) else buf_bit dest i))"
  using assms
proof (induction dest v bi br bp rule: bituint_store_loop.induct)
  case (1 dest v bi br bp)
  show ?case
  proof (cases "0 < br")
    case False
    then have "br = 0" by (simp add: word_greater_zero_iff)
    then show ?thesis by (auto simp: bituint_store_loop.simps)
  next
    case True
    define f where "f = 8 - bp mod 8"
    define p where "p = (if br \<le> f then br else f)"
    define m :: "64 word" where "m = push_bit (unat p) 1 - 1"
    define bv where "bv = ucast (drop_bit (unat (br - p)) v) AND m"
    define i where "i = unat bi"
    define d1 where "d1 = dest[i := ucast (ucast (dest ! i) AND NOT (push_bit (unat (f - p)) m))]"
    define d2 where "d2 = d1[i := ucast (ucast (d1 ! i) OR push_bit (unat (f - p)) bv)]"
    note st = field_step(2,2-5) [where bp = bp and br = br, folded f_def, folded p_def]
    let ?P = "unat p" and ?BP = "unat bp" and ?BR = "unat br"
    have p: "0 < ?P" "?P \<le> ?BR" "?P \<le> 8 - ?BP mod 8" using st(2,5) True by simp_all
    have bi: "unat bi = ?BP div 8" using "1.prems"(1) True by simp
    have lt: "unat bi < length dest" using bi "1.prems"(2) True by (simp add: word_less_nat_alt)
    have g: "unat (br - p) < 32 \<and> unat bi < length dest" using st(4) p "1.prems"(4) lt by linarith
    note nx = byte_next [OF bi st(2) "1.prems"(3)]
    have sP: "unat (f - p) + ?P \<le> 8" using st(3) p(3) by linarith
    have d2: "d2 = dest[?BP div 8 := d2 ! (?BP div 8)]" "length d2 = length dest"
      using lt by (simp_all add: d2_def d1_def i_def bi)
    have bits2: "bit (d2 ! (?BP div 8)) n =
        (if unat (f - p) \<le> n \<and> n < unat (f - p) + ?P then bit v (?BR - ?P + (n - unat (f - p)))
         else bit (dest ! (?BP div 8)) n)" if "n < 8" for n
    proof -
      have "?BR - ?P + (n - unat (f - p)) < 32" if "n < unat (f - p) + ?P" 
        using that p(1,2) "1.prems"(4) by linarith
      then show ?thesis
        using c_byte_bits [OF that sP, of "dest ! i" "ucast (drop_bit (unat (br - p)) v)"] lt that sP
        unfolding d2_def d1_def bv_def m_def mask_word st(4) i_def bi
        by (auto simp: bit_unsigned_iff bit_drop_bit_eq)
    qed
    have e: "?BP + ?P + (?BR - ?P) = ?BP + ?BR" using p(2) by simp
    have le: "?BR - ?P \<le> 32" using "1.prems"(4) by linarith
    obtain dest' where r: "bituint_store_loop d2 v (bi + 1) (br - p) (bp + p) = Some dest'"
      and len: "length dest' = length dest"
      and rb: "\<And>j. j < 8 * length dest \<Longrightarrow> buf_bit dest' j =
              (if ?BP + ?P \<le> j \<and> j < ?BP + ?BR then bit v (?BP + ?BR - 1 - j) else buf_bit d2 j)"
      using "1.IH" [OF True f_def p_def refl m_def g bv_def i_def d1_def d2_def] nx "1.prems"(2-4) p(2) le
      unfolding st(4) nx(1) e d2(2) by (auto simp: word_less_nat_alt st(4))
    have "bituint_store_loop dest v bi br bp = Some dest'"
      using True g r
      by (subst bituint_store_loop.simps)
         (simp only: Let_def if_True simp_thms flip: f_def p_def m_def bv_def i_def d1_def d2_def)
    moreover have "buf_bit dest' j =
        (if ?BP \<le> j \<and> j < ?BP + ?BR then bit v (?BP + ?BR - 1 - j) else buf_bit dest j)"
      if j: "j < 8 * length dest" for j
      using rb [OF j] p(2) buf_bit_field_update [OF p(1,3) st(3) refl lt [unfolded bi] bits2, of j, folded d2(1)]
      by (auto intro!: arg_cong [of _ _ "bit v"])
    ultimately show ?thesis using len by blast
  qed
qed


section \<open>Agreement with the Python class\<close>

text \<open>
  The calls the generated code makes: a field of at most 32 bits at an offset that the 32-bit
  counters can hold.
\<close>

definition c_field_ok :: "nat \<Rightarrow> nat \<Rightarrow> bool" where
  "c_field_ok w off \<longleftrightarrow> w \<le> 32 \<and> off + w < 2 ^ 32"

definition c_store :: "nat \<Rightarrow> byte list \<Rightarrow> nat \<Rightarrow> int \<Rightarrow> byte list res" where
  "c_store w buf off v =
     (case compost_bituint_store buf (word_of_int v) (of_nat off) (of_nat w) of
        Some buf' \<Rightarrow> Inr buf' | None \<Rightarrow> Inl IndexError)"

definition c_load :: "nat \<Rightarrow> byte list \<Rightarrow> nat \<Rightarrow> int res" where
  "c_load w buf off =
     (case compost_bituint_load buf (of_nat off) (of_nat w) of
        Some r \<Rightarrow> Inr (uint r) | None \<Rightarrow> Inl IndexError)"

lemma c_field_unat:
  assumes "c_field_ok w off"
  shows "unat (of_nat off :: 32 word) = off" "unat (of_nat w :: 32 word) = w"
    "unat (of_nat off div 8 :: 32 word) = off div 8"
proof -
  show o: "unat (of_nat off :: 32 word) = off" and "unat (of_nat w :: 32 word) = w"
    using assms by (simp_all add: c_field_ok_def unat_of_nat)
  show "unat (of_nat off div 8 :: 32 word) = off div 8" using o by (simp add: unat_div)
qed

lemma c_store_bits:
  assumes ok: "c_field_ok w off" and fit: "off + w \<le> 8 * length buf"
  shows "\<exists>buf'. c_store w buf off v = Inr buf' \<and> length buf' = length buf \<and>
    (\<forall>i < 8 * length buf. buf_bit buf' i =
       (if off \<le> i \<and> i < off + w then bit v (off + w - 1 - i) else buf_bit buf i))"
proof -
  note u = c_field_unat [OF ok]
  have w: "w \<le> 32" "off + w < 2 ^ 32" using ok by (simp_all add: c_field_ok_def)
  obtain buf' where b: "compost_bituint_store buf (word_of_int v) (of_nat off) (of_nat w) = Some buf'"
    "length buf' = length buf" "\<And>i. i < 8 * length buf \<Longrightarrow> buf_bit buf' i =
      (if off \<le> i \<and> i < off + w then bit (word_of_int v :: 32 word) (off + w - 1 - i) else buf_bit buf i)"
    using bituint_store_loop_bits [of "of_nat w" "of_nat off div 8" "of_nat off" buf "word_of_int v"] fit w
    unfolding u compost_bituint_store_def by auto
  have "bit (word_of_int v :: 32 word) (off + w - 1 - i) = bit v (off + w - 1 - i)"
    if "off \<le> i" "i < off + w" for i
  proof -
    have "off + w - 1 - i < 32" using that w(1) by linarith
    then show ?thesis by (simp add: bit_word_of_int_iff)
  qed
  with b show ?thesis by (auto simp: c_store_def)
qed

lemma c_load_bits:
  assumes ok: "c_field_ok w off" and fit: "off + w \<le> 8 * length buf"
  shows "\<exists>r. c_load w buf off = Inr r \<and> (\<forall>k. bit r k = (k < w \<and> buf_bit buf (off + w - 1 - k)))"
proof -
  note u = c_field_unat [OF ok]
  have w: "w \<le> 32" "off + w < 2 ^ 32" using ok by (simp_all add: c_field_ok_def)
  obtain r where r: "bituint_load_loop buf (of_nat off div 8) (of_nat w) (of_nat off) 0 = Some r"
    "\<And>k. k < 64 \<Longrightarrow> bit r k = (k < w \<and> buf_bit buf (off + w - 1 - k))"
    using bituint_load_loop_bits [of "of_nat w" "of_nat off div 8" "of_nat off" buf 0] fit w
    unfolding u by auto
  have "bit (uint (ucast r :: 32 word)) k = (k < w \<and> buf_bit buf (off + w - 1 - k))" for k
    using r(2) [of k] w(1) by (auto simp: bit_uint_iff bit_unsigned_iff)
  with r(1) show ?thesis by (simp add: c_load_def compost_bituint_load_def)
qed

interpretation cbits: bit_field c_store c_load c_field_ok
  by unfold_locales (rule c_store_bits c_load_bits; assumption)+

text \<open>Both sides of a connection read and write the same bits.\<close>

interpretation both: bit_field_pair BitU_store BitU_load c_store c_load c_field_ok
  by unfold_locales (rule bitu.store_bits bitu.load_bits; simp)+

section \<open>Fields of an integer\<close>

text \<open>
  The functions for fields of a 32-bit or 64-bit integer, with a 32-bit \<^verbatim>\<open>unsigned long\<close>.  The value of a field
  in 64 bits is shifted as a 32-bit number, and both functions for 64 bits return 32 bits.
\<close>

definition compost_u32_field_set :: "32 word \<Rightarrow> 32 word \<Rightarrow> 32 word \<Rightarrow> 32 word \<Rightarrow> 32 word option" where
  "compost_u32_field_set backing bitfield_value offset_bits size_bits =
     (if size_bits < 32 \<and> offset_bits < 32 then
        let mask' = push_bit (unat offset_bits) (push_bit (unat size_bits) 1 - 1)
        in Some ((backing AND mask') OR (push_bit (unat offset_bits) bitfield_value AND mask'))
      else None)"

definition compost_u32_field_get :: "32 word \<Rightarrow> 32 word \<Rightarrow> 32 word \<Rightarrow> 32 word option" where
  "compost_u32_field_get backing offset_bits size_bits =
     (if size_bits < 32 \<and> offset_bits < 32
      then Some (drop_bit (unat offset_bits) backing AND (push_bit (unat size_bits) 1 - 1)) else None)"

definition compost_u64_field_set :: "64 word \<Rightarrow> 32 word \<Rightarrow> 32 word \<Rightarrow> 32 word \<Rightarrow> 32 word option" where
  "compost_u64_field_set backing bitfield_value offset_bits size_bits =
     (if size_bits < 64 \<and> offset_bits < 32 then
        let mask' = push_bit (unat offset_bits) (push_bit (unat size_bits) 1 - 1)
        in Some (ucast ((backing AND mask') OR (ucast (push_bit (unat offset_bits) bitfield_value) AND mask')))
      else None)"

definition compost_u64_field_get :: "64 word \<Rightarrow> 32 word \<Rightarrow> 32 word \<Rightarrow> 32 word option" where
  "compost_u64_field_get backing offset_bits size_bits =
     (if size_bits < 64 \<and> offset_bits < 64
      then Some (ucast (drop_bit (unat offset_bits) backing AND (push_bit (unat size_bits) 1 - 1))) else None)"

text \<open>
  Setting a field keeps the old bits of the field, joined with the new ones, and clears everything else, where it
  should clear the field and keep everything else.
\<close>

lemma u32_field_set_bits:
  assumes "off < 32" and "w < 32" and "compost_u32_field_set b v off w = Some x"
  shows "bit x i = (unat off \<le> i \<and> i < unat off + unat w \<and> i < 32 \<and> (bit b i \<or> bit v (i - unat off)))"
proof -
  have "x = (b AND push_bit (unat off) (mask (unat w))) OR (push_bit (unat off) v AND push_bit (unat off) (mask (unat w)))"
    using assms by (simp add: compost_u32_field_set_def Let_def mask_eq_exp_minus_1)
  then show ?thesis by (auto simp: bit_simps)
qed

lemma u32_field_set_wrong:
  "compost_u32_field_set 0xFF 0 0 4 = Some 0x0F" "compost_u32_field_set 0xA0 3 0 4 = Some 3"
  by code_simp+

section \<open>Property of the two implementations\<close>

text \<open>
  C14. For every field of at most 32 bits inside a buffer, the C function \<^verbatim>\<open>compost_bituint_store\<close>
  leaves the buffer that \<^verbatim>\<open>BitU.pack\<close> leaves, and \<^verbatim>\<open>compost_bituint_load\<close> returns the value
  that \<^verbatim>\<open>BitU.unpack\<close> returns; neither runs into undefined behaviour.
\<close>

theorem bit_fields_agree:
  assumes "w \<le> 32" and "off + w < 2 ^ 32" and "off + w \<le> 8 * length buf"
  shows "\<exists>buf' r. compost_bituint_store buf (word_of_int v) (of_nat off) (of_nat w) = Some buf' \<and>
    BitU_pack w buf off v = Inr (buf', off + w) \<and>
    compost_bituint_load buf (of_nat off) (of_nat w) = Some r \<and>
    BitU_unpack w buf off = Inr (uint r, off + w)"
proof -
  have ok: "c_field_ok w off" using assms by (simp add: c_field_ok_def)
  obtain buf' where "BitU_store w buf off v = Inr buf'" using bitu.store_bits [OF TrueI assms(3)] by blast
  moreover obtain k where "BitU_load w buf off = Inr k" using bitu.load_bits [OF TrueI assms(3)] by blast
  ultimately show ?thesis
    using both.stores_agree [OF ok assms(3), of v] both.loads_agree [OF ok assms(3)]
    by (auto simp: c_store_def c_load_def BitU_pack_eq BitU_unpack_eq split: option.splits)
qed

theorem bit_fields_agree_witness:
  "\<exists>buf' r. compost_bituint_store [0, 255, 0] (word_of_int 300) 5 10 = Some buf' \<and>
    BitU_pack 10 [0, 255, 0] 5 300 = Inr (buf', 15) \<and>
    compost_bituint_load [0, 255, 0] 5 10 = Some r \<and> BitU_unpack 10 [0, 255, 0] 5 = Inr (uint r, 15)"
  using bit_fields_agree [of 10 5 "[0, 255, 0]" 300] by simp

end
