(* ===== verification/CMemory.thy ===== *)
theory CMemory
  imports PyStruct Types CBits "HOL-Library.Monad_Syntax"
begin

text \<open>
  The memory functions of the generated C code: loads and stores of numbers, slices and the
  allocator.  Memory is one flat sequence of bytes that holds all buffers, so that pointers
  into different buffers, and aliasing between them, are visible; a pointer is an index, and
  access outside is undefined in C and has the outcome \<open>None\<close>.  Signed types are words read by
  \<open>sint\<close>, and \<^verbatim>\<open>float\<close> and \<^verbatim>\<open>double\<close> are their bit patterns.
\<close>

section \<open>Memory\<close>

type_synonym cmem = "byte list"
type_synonym caddr = nat

definition mload :: "cmem \<Rightarrow> caddr \<Rightarrow> byte option" where
  "mload m p = (if p < length m then Some (m ! p) else None)"

definition mstore :: "cmem \<Rightarrow> caddr \<Rightarrow> byte \<Rightarrow> cmem option" where
  "mstore m p b = (if p < length m then Some (m[p := b]) else None)"

text \<open>The bytes of \<open>bs\<close> put at address \<open>p\<close>.\<close>

definition put :: "cmem \<Rightarrow> caddr \<Rightarrow> byte list \<Rightarrow> cmem" where
  "put m p bs = take p m @ bs @ drop (p + length bs) m"

section \<open>Loads and stores of numbers\<close>

definition compost_u8_load :: "cmem \<Rightarrow> caddr \<Rightarrow> (8 word \<times> caddr) option" where
  "compost_u8_load m src = do { val \<leftarrow> mload m src; Some (val, src + 1) }"

definition compost_u8_store :: "cmem \<Rightarrow> caddr \<Rightarrow> 8 word \<Rightarrow> (cmem \<times> caddr) option" where
  "compost_u8_store m dest src = do { m \<leftarrow> mstore m dest src; Some (m, dest + 1) }"

definition compost_i8_load :: "cmem \<Rightarrow> caddr \<Rightarrow> (8 word \<times> caddr) option" where
  "compost_i8_load m src = compost_u8_load m src"

definition compost_i8_store :: "cmem \<Rightarrow> caddr \<Rightarrow> 8 word \<Rightarrow> (cmem \<times> caddr) option" where
  "compost_i8_store m dest src = compost_u8_store m dest src"

definition compost_u16_load :: "cmem \<Rightarrow> caddr \<Rightarrow> (16 word \<times> caddr) option" where
  "compost_u16_load m src = do {
     b0 \<leftarrow> mload m src; b1 \<leftarrow> mload m (src + 1);
     Some (push_bit 8 (ucast b0) OR ucast b1, src + 2) }"

definition compost_u16_store :: "cmem \<Rightarrow> caddr \<Rightarrow> 16 word \<Rightarrow> (cmem \<times> caddr) option" where
  "compost_u16_store m dest src = do {
     m \<leftarrow> mstore m dest (ucast (drop_bit 8 src));
     m \<leftarrow> mstore m (dest + 1) (ucast src);
     Some (m, dest + 2) }"

definition compost_i16_load :: "cmem \<Rightarrow> caddr \<Rightarrow> (16 word \<times> caddr) option" where
  "compost_i16_load m src = compost_u16_load m src"

definition compost_i16_store :: "cmem \<Rightarrow> caddr \<Rightarrow> 16 word \<Rightarrow> (cmem \<times> caddr) option" where
  "compost_i16_store m dest src = compost_u16_store m dest src"

definition compost_u32_load :: "cmem \<Rightarrow> caddr \<Rightarrow> (32 word \<times> caddr) option" where
  "compost_u32_load m src = do {
     b0 \<leftarrow> mload m src; b1 \<leftarrow> mload m (src + 1); b2 \<leftarrow> mload m (src + 2); b3 \<leftarrow> mload m (src + 3);
     Some (push_bit 24 (ucast b0) OR push_bit 16 (ucast b1) OR push_bit 8 (ucast b2) OR ucast b3,
           src + 4) }"

definition compost_u32_store :: "cmem \<Rightarrow> caddr \<Rightarrow> 32 word \<Rightarrow> (cmem \<times> caddr) option" where
  "compost_u32_store m dest src = do {
     m \<leftarrow> mstore m dest (ucast (drop_bit 24 src));
     m \<leftarrow> mstore m (dest + 1) (ucast (drop_bit 16 src));
     m \<leftarrow> mstore m (dest + 2) (ucast (drop_bit 8 src));
     m \<leftarrow> mstore m (dest + 3) (ucast src);
     Some (m, dest + 4) }"

definition compost_i32_load :: "cmem \<Rightarrow> caddr \<Rightarrow> (32 word \<times> caddr) option" where
  "compost_i32_load m src = compost_u32_load m src"

definition compost_i32_store :: "cmem \<Rightarrow> caddr \<Rightarrow> 32 word \<Rightarrow> (cmem \<times> caddr) option" where
  "compost_i32_store m dest src = compost_u32_store m dest src"

definition compost_u64_load :: "cmem \<Rightarrow> caddr \<Rightarrow> (64 word \<times> caddr) option" where
  "compost_u64_load m src = do {
     b0 \<leftarrow> mload m src; b1 \<leftarrow> mload m (src + 1); b2 \<leftarrow> mload m (src + 2); b3 \<leftarrow> mload m (src + 3);
     b4 \<leftarrow> mload m (src + 4); b5 \<leftarrow> mload m (src + 5); b6 \<leftarrow> mload m (src + 6); b7 \<leftarrow> mload m (src + 7);
     Some (push_bit 56 (ucast b0) OR push_bit 48 (ucast b1) OR push_bit 40 (ucast b2) OR
           push_bit 32 (ucast b3) OR push_bit 24 (ucast b4) OR push_bit 16 (ucast b5) OR
           push_bit 8 (ucast b6) OR ucast b7, src + 8) }"

definition compost_u64_store :: "cmem \<Rightarrow> caddr \<Rightarrow> 64 word \<Rightarrow> (cmem \<times> caddr) option" where
  "compost_u64_store m dest src = do {
     m \<leftarrow> mstore m dest (ucast (drop_bit 56 src));
     m \<leftarrow> mstore m (dest + 1) (ucast (drop_bit 48 src));
     m \<leftarrow> mstore m (dest + 2) (ucast (drop_bit 40 src));
     m \<leftarrow> mstore m (dest + 3) (ucast (drop_bit 32 src));
     m \<leftarrow> mstore m (dest + 4) (ucast (drop_bit 24 src));
     m \<leftarrow> mstore m (dest + 5) (ucast (drop_bit 16 src));
     m \<leftarrow> mstore m (dest + 6) (ucast (drop_bit 8 src));
     m \<leftarrow> mstore m (dest + 7) (ucast src);
     Some (m, dest + 8) }"

definition compost_i64_load :: "cmem \<Rightarrow> caddr \<Rightarrow> (64 word \<times> caddr) option" where
  "compost_i64_load m src = compost_u64_load m src"

definition compost_i64_store :: "cmem \<Rightarrow> caddr \<Rightarrow> 64 word \<Rightarrow> (cmem \<times> caddr) option" where
  "compost_i64_store m dest src = compost_u64_store m dest src"

text \<open>\<^verbatim>\<open>memcpy\<close> between a number and a float of the same width keeps the bit pattern.\<close>

definition compost_f32_load :: "cmem \<Rightarrow> caddr \<Rightarrow> (32 word \<times> caddr) option" where
  "compost_f32_load m src = do { (tmp, src) \<leftarrow> compost_u32_load m src; Some (tmp, src) }"

definition compost_f32_store :: "cmem \<Rightarrow> caddr \<Rightarrow> 32 word \<Rightarrow> (cmem \<times> caddr) option" where
  "compost_f32_store m dest src = (let tmp = src in compost_u32_store m dest tmp)"

definition compost_f64_load :: "cmem \<Rightarrow> caddr \<Rightarrow> (64 word \<times> caddr) option" where
  "compost_f64_load m src = do { (tmp, src) \<leftarrow> compost_u64_load m src; Some (tmp, src) }"

definition compost_f64_store :: "cmem \<Rightarrow> caddr \<Rightarrow> 64 word \<Rightarrow> (cmem \<times> caddr) option" where
  "compost_f64_store m dest src = (let tmp = src in compost_u64_store m dest tmp)"

text \<open>
  The templates name these functions \<^verbatim>\<open>compost_${fn_suffix}_load\<close> and \<^verbatim>\<open>compost_${fn_suffix}_store\<close>;
  a number of any of the C types is a \<open>cnum\<close>.
\<close>

datatype cnum = C8 "8 word" | C16 "16 word" | C32 "32 word" | C64 "64 word"

definition ld :: "('w \<Rightarrow> cnum) \<Rightarrow> ('w \<times> caddr) option \<Rightarrow> (cnum \<times> caddr) option" where
  "ld C r = map_option (map_prod C id) r"

fun num_load :: "numty \<Rightarrow> cmem \<Rightarrow> caddr \<Rightarrow> (cnum \<times> caddr) option" where
  "num_load U8 m p = ld C8 (compost_u8_load m p)" | "num_load I8 m p = ld C8 (compost_i8_load m p)"
| "num_load U16 m p = ld C16 (compost_u16_load m p)" | "num_load I16 m p = ld C16 (compost_i16_load m p)"
| "num_load U32 m p = ld C32 (compost_u32_load m p)" | "num_load I32 m p = ld C32 (compost_i32_load m p)"
| "num_load U64 m p = ld C64 (compost_u64_load m p)" | "num_load I64 m p = ld C64 (compost_i64_load m p)"
| "num_load F32 m p = ld C32 (compost_f32_load m p)" | "num_load F64 m p = ld C64 (compost_f64_load m p)"

fun num_store :: "numty \<Rightarrow> cmem \<Rightarrow> caddr \<Rightarrow> cnum \<Rightarrow> (cmem \<times> caddr) option" where
  "num_store U8 m p (C8 w) = compost_u8_store m p w" | "num_store I8 m p (C8 w) = compost_i8_store m p w"
| "num_store U16 m p (C16 w) = compost_u16_store m p w" | "num_store I16 m p (C16 w) = compost_i16_store m p w"
| "num_store U32 m p (C32 w) = compost_u32_store m p w" | "num_store I32 m p (C32 w) = compost_i32_store m p w"
| "num_store U64 m p (C64 w) = compost_u64_store m p w" | "num_store I64 m p (C64 w) = compost_i64_store m p w"
| "num_store F32 m p (C32 w) = compost_f32_store m p w" | "num_store F64 m p (C64 w) = compost_f64_store m p w"
| "num_store _ m p _ = None"

definition csizeof :: "numty \<Rightarrow> nat" where "csizeof k = fmt_width (num_fmt k)"

section \<open>Numbers in memory\<close>

lemma length_put [simp]: "p + length bs \<le> length m \<Longrightarrow> length (put m p bs) = length m"
  by (simp add: put_def)

lemma put_Nil [simp]: "put m p [] = m"
  by (simp add: put_def)

lemma put_put:
  "p + length as + length bs \<le> length m \<Longrightarrow> put (put m p as) (p + length as) bs = put m p (as @ bs)"
  by (simp add: put_def ac_simps)

lemma slice_put: "p + length bs \<le> length m \<Longrightarrow> slice p (length bs) (put m p bs) = bs"
  by (simp add: put_def slice_def)

lemma put_slice: "put m p (slice p n m) = m"
proof (cases "p + n \<le> length m")
  case True
  then have "put m p (slice p n m) = take p m @ (take n (drop p m) @ drop n (drop p m))"
    by (simp add: put_def slice_def add.commute)
  then show ?thesis unfolding append_take_drop_id .
next
  case False
  then show ?thesis by (cases "p \<le> length m") (simp_all add: put_def slice_def)
qed

lemma put_next:
  "p' = p + length as \<Longrightarrow> p' + length bs \<le> length m \<Longrightarrow> put (put m p as) p' bs = put m p (as @ bs)"
  by (simp add: put_put)

lemma mstore_put: "p < length m \<Longrightarrow> mstore m p b = Some (put m p [b])"
  by (simp add: mstore_def put_def upd_conv_take_nth_drop)

lemma ucast_drop_byte: "ucast (drop_bit n (w :: 'a :: len word)) = (word_of_int (uint w div 2 ^ n) :: byte)"
  by (rule bit_word_eqI)
     (auto simp: bit_unsigned_iff bit_word_of_int_iff bit_drop_bit_eq bit_uint_iff
       simp flip: drop_bit_eq_div dest: bit_imp_le_length)

lemma ucast_byte: "ucast (w :: 'a :: len word) = (word_of_int (uint w) :: byte)"
  using ucast_drop_byte [of 0 w] by simp

lemma be_encode_bytes:
  "be_encode 2 v = [word_of_int (v div 2 ^ 8), word_of_int v]"
  "be_encode 4 v =
     [word_of_int (v div 2 ^ 24), word_of_int (v div 2 ^ 16), word_of_int (v div 2 ^ 8), word_of_int v]"
  "be_encode 8 v =
     [word_of_int (v div 2 ^ 56), word_of_int (v div 2 ^ 48), word_of_int (v div 2 ^ 40),
      word_of_int (v div 2 ^ 32), word_of_int (v div 2 ^ 24), word_of_int (v div 2 ^ 16),
      word_of_int (v div 2 ^ 8), word_of_int v]"
  by (simp_all add: numeral_eq_Suc flip: zdiv_zmult2_eq)

text \<open>Shifting in a byte.\<close>

lemma or_byte:
  assumes "0 \<le> w" "(w :: int) < 256" shows "push_bit 8 z OR w = z * 256 + w"
proof -
  have w: "take_bit 8 w = w" using assms by (simp add: take_bit_int_eq_self)
  have "push_bit 8 z AND w = 0"
    by (rule bit_eqI, subst w [symmetric]) (auto simp: bit_and_iff bit_push_bit_iff bit_take_bit_iff)
  then show ?thesis using plus_and_or [of "push_bit 8 z" w] by (simp add: push_bit_eq_mult)
qed

lemma word_or_byte:
  "push_bit 8 (word_of_int v) OR ucast (b :: byte) = (word_of_int (v * 256 + uint b) :: 'a :: len word)"
proof -
  have "v * 256 + uint b = push_bit 8 v OR uint b"
    by (rule or_byte [symmetric]) (simp_all add: uint_byte_lt)
  then show ?thesis
    by (auto intro!: bit_word_eqI simp: bit_or_iff bit_push_bit_iff bit_word_of_int_iff bit_unsigned_iff)
qed
text \<open>What a number looks like in memory, and the addresses a store touches.\<close>

fun cnum_val :: "cnum \<Rightarrow> int" where
  "cnum_val (C8 w) = uint w" | "cnum_val (C16 w) = uint w"
| "cnum_val (C32 w) = uint w" | "cnum_val (C64 w) = uint w"

fun cnum_width :: "cnum \<Rightarrow> nat" where
  "cnum_width (C8 _) = 1" | "cnum_width (C16 _) = 2" | "cnum_width (C32 _) = 4" | "cnum_width (C64 _) = 8"

definition cnum_bytes :: "cnum \<Rightarrow> byte list" where
  "cnum_bytes c = be_encode (cnum_width c) (cnum_val c)"

lemma length_cnum_bytes [simp]: "length (cnum_bytes c) = cnum_width c"
  by (simp add: cnum_bytes_def)

lemma store_1: "p + 1 \<le> length m \<Longrightarrow> compost_u8_store m p w = Some (put m p [w], p + 1)"
  by (simp add: compost_u8_store_def mstore_put put_next)

lemma store_2: "p + 2 \<le> length m \<Longrightarrow> compost_u16_store m p w = Some (put m p (be_encode 2 (uint w)), p + 2)"
  unfolding be_encode_bytes ucast_drop_byte [symmetric] ucast_byte [symmetric]
  by (simp add: compost_u16_store_def mstore_put put_next)

lemma store_4: "p + 4 \<le> length m \<Longrightarrow> compost_u32_store m p w = Some (put m p (be_encode 4 (uint w)), p + 4)"
  unfolding be_encode_bytes ucast_drop_byte [symmetric] ucast_byte [symmetric]
  by (simp add: compost_u32_store_def mstore_put put_next)

lemma store_8: "p + 8 \<le> length m \<Longrightarrow> compost_u64_store m p w = Some (put m p (be_encode 8 (uint w)), p + 8)"
  unfolding be_encode_bytes ucast_drop_byte [symmetric] ucast_byte [symmetric]
  by (simp add: compost_u64_store_def mstore_put put_next)

text \<open>Loads.\<close>

lemma slice_nth: "p + n < length m \<Longrightarrow> slice p (Suc n) m = slice p n m @ [m ! (p + n)]"
  by (simp add: slice_def take_Suc_conv_app_nth)

lemma word_be_decode:
  "p + n < length m \<Longrightarrow> (word_of_int (be_decode (slice p (Suc n) m)) :: 'a :: len word) =
     push_bit 8 (word_of_int (be_decode (slice p n m))) OR ucast (m ! (p + n))"
  by (simp add: slice_nth word_or_byte)

lemma slice_0 [simp]: "slice p 0 m = []"
  by (simp add: slice_def)

lemma load_1: "p + 1 \<le> length m \<Longrightarrow> compost_u8_load m p = Some (word_of_int (be_decode (slice p 1 m)), p + 1)"
  by (simp add: compost_u8_load_def mload_def slice_nth be_decode_def)

lemma load_2: "p + 2 \<le> length m \<Longrightarrow> compost_u16_load m p = Some (word_of_int (be_decode (slice p 2 m)), p + 2)"
  by (simp add: compost_u16_load_def mload_def numeral_2_eq_2 word_be_decode)

lemma load_4: "p + 4 \<le> length m \<Longrightarrow> compost_u32_load m p = Some (word_of_int (be_decode (slice p 4 m)), p + 4)"
  by (simp add: compost_u32_load_def mload_def eval_nat_numeral word_be_decode push_bit_or or.assoc)

lemma load_8: "p + 8 \<le> length m \<Longrightarrow> compost_u64_load m p = Some (word_of_int (be_decode (slice p 8 m)), p + 8)"
  by (simp add: compost_u64_load_def mload_def eval_nat_numeral word_be_decode push_bit_or or.assoc)

text \<open>All numeric types at once.\<close>

fun cnum_of :: "numty \<Rightarrow> int \<Rightarrow> cnum" where
  "cnum_of U8 i = C8 (word_of_int i)" | "cnum_of I8 i = C8 (word_of_int i)"
| "cnum_of U16 i = C16 (word_of_int i)" | "cnum_of I16 i = C16 (word_of_int i)"
| "cnum_of U32 i = C32 (word_of_int i)" | "cnum_of I32 i = C32 (word_of_int i)"
| "cnum_of U64 i = C64 (word_of_int i)" | "cnum_of I64 i = C64 (word_of_int i)"
| "cnum_of F32 i = C32 (word_of_int i)" | "cnum_of F64 i = C64 (word_of_int i)"

lemma num_load_slice:
  "p + csizeof k \<le> length m \<Longrightarrow>
   num_load k m p = Some (cnum_of k (be_decode (slice p (csizeof k) m)), p + csizeof k)"
  by (cases k) (simp_all add: csizeof_def ld_def load_1 [simplified] load_2 [simplified] load_4 load_8 compost_i8_load_def compost_i16_load_def
      compost_i32_load_def compost_i64_load_def compost_f32_load_def compost_f64_load_def)

lemma num_store_put:
  "cnum_width c = csizeof k \<Longrightarrow> p + csizeof k \<le> length m \<Longrightarrow>
   num_store k m p c = Some (put m p (cnum_bytes c), p + csizeof k)"
  by (cases k; cases c) (simp_all add: csizeof_def cnum_bytes_def store_1 [simplified] store_2 [simplified] store_4 store_8 compost_i8_store_def
      compost_i16_store_def compost_i32_store_def compost_i64_store_def compost_f32_store_def
      compost_f64_store_def)

lemma cnum_val_bounds: "0 \<le> cnum_val c" "cnum_val c < 256 ^ cnum_width c"
proof -
  show "0 \<le> cnum_val c" by (cases c) simp_all
  show "cnum_val c < 256 ^ cnum_width c"
  proof (cases c)
    case (C8 w) then show ?thesis using uint_bounded [of w] by simp
  next
    case (C16 w) then show ?thesis using uint_bounded [of w] by simp
  next
    case (C32 w) then show ?thesis using uint_bounded [of w] by simp
  next
    case (C64 w) then show ?thesis using uint_bounded [of w] by simp
  qed
qed

lemma cnum_bytes_decode: "be_decode (cnum_bytes c) = cnum_val c"
  unfolding cnum_bytes_def by (rule be_decode_encode_id [OF cnum_val_bounds])

lemma cnum_of_val: "cnum_width c = csizeof k \<Longrightarrow> cnum_of k (cnum_val c) = c"
  by (cases k; cases c) (simp_all add: csizeof_def)

lemma cnum_of_width [simp]: "cnum_width (cnum_of k i) = csizeof k"
  by (cases k) (simp_all add: csizeof_def)

text \<open>A number stored is loaded back.\<close>

lemma num_load_put:
  assumes "cnum_width c = csizeof k" and "p + csizeof k \<le> length m"
  shows "num_load k (put m p (cnum_bytes c)) p = Some (c, p + csizeof k)"
  using assms num_load_slice [of p k "put m p (cnum_bytes c)"] slice_put [of p "cnum_bytes c" m]
  by (simp add: cnum_bytes_decode cnum_of_val)

lemma cnum_bytes_of: "length bs = csizeof k \<Longrightarrow> cnum_bytes (cnum_of k (be_decode bs)) = bs"
proof -
  assume l: "length bs = csizeof k"
  have b: "0 \<le> be_decode bs" "be_decode bs < 256 ^ csizeof k" using be_decode_bounds [of bs] l by simp_all
  then have "cnum_val (cnum_of k (be_decode bs)) = be_decode bs"
    by (cases k) (simp_all add: csizeof_def uint_word_of_int_eq take_bit_int_eq_self)
  then show ?thesis using be_encode_decode [of bs] l by (simp add: cnum_bytes_def)
qed

section \<open>Numbers in C and in Python\<close>

text \<open>The Python value of a C number; a \<^verbatim>\<open>float\<close> is the \<^verbatim>\<open>double\<close> of the same value.\<close>

definition float_to_double :: "32 word \<Rightarrow> 64 word" where
  "float_to_double w = f64_make (2 ^ 31 \<le> unat w) (f32_widen_mag (unat w mod 2 ^ 31))"

fun py_of_cnum :: "numty \<Rightarrow> cnum \<Rightarrow> pyval" where
  "py_of_cnum F32 (C32 w) = VFloat (float_to_double w)"
| "py_of_cnum F64 (C64 w) = VFloat w"
| "py_of_cnum I8 (C8 w) = VInt (sint w)"
| "py_of_cnum I16 (C16 w) = VInt (sint w)"
| "py_of_cnum I32 (C32 w) = VInt (sint w)"
| "py_of_cnum I64 (C64 w) = VInt (sint w)"
| "py_of_cnum _ c = VInt (cnum_val c)"

fun c_nan :: "numty \<Rightarrow> cnum \<Rightarrow> bool" where
  "c_nan F32 (C32 w) = (f32_inf < unat w mod 2 ^ 31)"
| "c_nan _ _ = False"

lemma uint_sint_mod: "LENGTH('a) = 8 * n \<Longrightarrow> sint (w :: 'a :: len word) mod 256 ^ n = uint w"
  by (simp add: uint_sint take_bit_eq_mod power_mult)

lemma sint_sign_extend:
  assumes "LENGTH('a) = 8 * n" and "0 < n"
  shows "sign_extend (8 * n) (uint (w :: 'a :: len word)) = sint w"
  using be_decode_encode_signed [OF assms(2), of "sint w"] assms sint_ge [of w] sint_lt [of w]
  by (simp add: be_decode_encode uint_sint_mod)

lemma be_encode_sint: "LENGTH('a) = 8 * n \<Longrightarrow> be_encode n (sint (w :: 'a :: len word)) = be_encode n (uint w)"
  by (metis be_encode_mod uint_sint_mod)

lemma fmt_range_sint:
  "LENGTH('a) = 8 * fmt_width f \<Longrightarrow> fmt_signed f \<Longrightarrow> fmt_range f (sint (w :: 'a :: len word))"
  using sint_ge [of w] sint_lt [of w] by (simp add: fmt_range_def)

lemma fmt_range_uint:
  "LENGTH('a) = 8 * fmt_width f \<Longrightarrow> \<not> fmt_signed f \<Longrightarrow> fmt_range f (uint (w :: 'a :: len word))"
  using uint_bounded [of w] by (simp add: fmt_range_def)

lemmas sint_widths = sint_sign_extend [where n = 1 and 'a = 8, simplified]
  sint_sign_extend [where n = 2 and 'a = 16, simplified] sint_sign_extend [where n = 4 and 'a = 32, simplified]
  sint_sign_extend [where n = 8 and 'a = 64, simplified]

lemma py_of_cnum_val:
  assumes "cnum_width c = csizeof k"
  shows "py_of_cnum k c = struct_unpack (num_fmt k) (cnum_bytes c)"
  using assms
  by (cases k; cases c)
     (simp_all add: csizeof_def struct_unpack_def cnum_bytes_decode sint_widths float_to_double_def
       unpack_f32_def unpack_f64_def Let_def)

text \<open>A C number goes through \<^verbatim>\<open>struct.pack\<close> with the bytes the C code stores.\<close>

lemma f64_make_parts: "m < 2 ^ 63 \<Longrightarrow> f64_sign (f64_make s m) = s \<and> f64_mag (f64_make s m) = m"
proof -
  assume m: "m < 2 ^ 63"
  have "unat (f64_make s m) = ((if s then 2 ^ 63 else 0) + m) mod 2 ^ 64"
    unfolding f64_make_def by (simp only: unat_of_nat) simp
  with m have "unat (f64_make s m) = (if s then 2 ^ 63 else 0) + m" by simp
  with m show ?thesis by (auto simp: f64_sign_def f64_mag_def)
qed

lemma f32_widen_bound: "m \<le> f32_inf \<Longrightarrow> f32_widen_mag m < 2 ^ 63"
  using f32_widen_narrow [of m]
  by (auto simp: f32_narrow_mag_def f64_inf_def split: if_splits)

lemma pack_f32_widen:
  assumes "unat w mod 2 ^ 31 \<le> f32_inf"
  shows "pack_f32 (float_to_double w) = Inr (be_encode 4 (uint w))"
proof -
  have u: "int (unat w) = uint w" by simp
  have len32: "LENGTH(32) = 32" by simp
  have "unat w < 2 ^ 32" using unsigned_less [of w] unfolding len32 .
  then have "(if 2 ^ 31 \<le> unat w then 2 ^ 31 else 0) + unat w mod 2 ^ 31 = unat w"
    by (cases "2 ^ 31 \<le> unat w") (simp_all add: le_mod_geq)
  then have "int ((if 2 ^ 31 \<le> unat w then 2 ^ 31 else 0) + unat w mod 2 ^ 31) = uint w"
    by (simp only: u)
  then show ?thesis
    using assms f64_make_parts [OF f32_widen_bound [OF assms]]
    by (simp add: pack_f32_def float_to_double_def f32_widen_narrow)
qed

lemma struct_pack_cnum:
  assumes "cnum_width c = csizeof k" and "\<not> c_nan k c"
  shows "struct_pack (num_fmt k) (py_of_cnum k c) = Inr (cnum_bytes c)"
  using assms
  by (cases k; cases c)
     (simp_all add: csizeof_def struct_pack_def cnum_bytes_def pack_f64_def pack_f32_widen
      fmt_range_sint fmt_range_uint be_encode_sint del: be_encode.simps)

text \<open>
  C15. For every numeric type, loading in C gives the value that \<^verbatim>\<open>struct.unpack_from\<close> reads, and
  storing in C writes the bytes of \<^verbatim>\<open>struct.pack\<close>, which are loaded back; only for the patterns
  of a \<^verbatim>\<open>float\<close> that are not numbers is nothing said about \<^verbatim>\<open>struct.pack\<close>.
\<close>

theorem c_numbers_agree:
  assumes "p + csizeof k \<le> length m"
  shows "(\<exists>c. num_load k m p = Some (c, p + csizeof k) \<and> unpack_from (num_fmt k) m p = Inr (py_of_cnum k c)) \<and>
    (cnum_width c = csizeof k \<and> \<not> c_nan k c \<longrightarrow>
       (\<exists>bs. struct_pack (num_fmt k) (py_of_cnum k c) = Inr bs \<and>
          num_store k m p c = Some (put m p bs, p + csizeof k) \<and>
          num_load k (put m p bs) p = Some (c, p + csizeof k)))"
proof -
  let ?bs = "slice p (csizeof k) m"
  have l: "length ?bs = csizeof k" using assms by simp
  then have "py_of_cnum k (cnum_of k (be_decode ?bs)) = struct_unpack (num_fmt k) ?bs"
    using py_of_cnum_val [of "cnum_of k (be_decode ?bs)" k] by (simp add: cnum_bytes_of)
  then have "unpack_from (num_fmt k) m p = Inr (py_of_cnum k (cnum_of k (be_decode ?bs)))"
    using assms by (simp add: unpack_from_def csizeof_def)
  then show ?thesis
    using num_load_slice [OF assms] struct_pack_cnum num_store_put num_load_put assms by blast
qed

theorem c_numbers_agree_witness:
  "num_load I16 [0, 255, 254, 0] 1 = Some (C16 65534, 3) \<and> unpack_from Fmt_h [0, 255, 254, 0] 1 = Inr (VInt (- 2)) \<and>
   num_store I32 (replicate 5 7) 1 (C32 258) = Some (put (replicate 5 7) 1 [0, 0, 1, 2], 5)"
proof -
  have "num_load I16 [0, 255, 254, 0] 1 = Some (C16 65534, 3)" by code_simp
  moreover have "struct_pack Fmt_i (VInt 258) = Inr [0, 0, 1, 2]" by code_simp
  ultimately show ?thesis
    using c_numbers_agree [of 1 I16 "[0, 255, 254, 0]"] c_numbers_agree [of 1 I32 "replicate 5 7" "C32 258"]
    by (auto simp: csizeof_def)
qed

end
