(* ===== verification/PayloadSize.thy ===== *)
theory PayloadSize
  imports Payload
begin

text \<open>
  The size of a payload: where packing a well-typed value ends, that packing succeeds when that
  lies within the buffer of 1024 bytes, and that a packed payload has exactly this size.
\<close>

section \<open>When packing succeeds\<close>

text \<open>The bit offset behind a value of a type, packed at a given offset.\<close>

definition blob_len :: "pyval \<Rightarrow> nat" where
  "blob_len v =
     (case v of
        VStr s \<Rightarrow> (case str_encode s of Inr bs \<Rightarrow> length bs | Inl _ \<Rightarrow> 0)
      | VBytes bs \<Rightarrow> length bs
      | VList vs \<Rightarrow> length vs
      | _ \<Rightarrow> 0)"

fun end_of :: "ctype \<Rightarrow> pyval \<Rightarrow> memunit \<Rightarrow> memunit"
  and end_of_members :: "members \<Rightarrow> pyval list \<Rightarrow> memunit \<Rightarrow> memunit" where
  "end_of (TNum k) v off = 8 * mu_bytes off + num_size k"
| "end_of (TBitU w) v off = off + w"
| "end_of (TEnum _ b _) v off =
     (case b of BNum k \<Rightarrow> 8 * mu_bytes off + num_size k | BBitU w \<Rightarrow> off + w | BNone \<Rightarrow> off)"
| "end_of TStr v off = 8 * (mu_bytes off + 2 + blob_len v)"
| "end_of TBytes v off = 8 * (mu_bytes off + 2 + blob_len v)"
| "end_of (TList args) v off =
     8 * (mu_bytes off + 2 + (case type_size (hd args) of Inr s \<Rightarrow> blob_len v * mu_bytes s | Inl _ \<Rightarrow> 0))"
| "end_of (TStruct _ ms) v off =
     (case v of VStruct _ vs \<Rightarrow> end_of_members ms vs (8 * mu_bytes off) | _ \<Rightarrow> 8 * mu_bytes off)"
| "end_of (TOther _) v off = off"
| "end_of_members ((_, t) # ms) (v # vs) off = end_of_members ms vs (end_of t v off)"
| "end_of_members _ _ off = off"

fun end_of_args :: "ctype list \<Rightarrow> pyval list \<Rightarrow> memunit \<Rightarrow> memunit" where
  "end_of_args (t # ts) (v # vs) off = end_of_args ts vs (end_of t v off)"
| "end_of_args _ _ off = off"

definition payload_size :: "ctype list \<Rightarrow> pyval list \<Rightarrow> nat" where
  "payload_size ts vs = mu_bytes (end_of_args ts vs 0)"

text \<open>Structures whose members are not structures: the ones that can be packed.\<close>

definition flat :: "ctype \<Rightarrow> bool" where
  "flat t = (case t of TStruct _ ms \<Rightarrow> list_all (\<lambda>m. \<not> is_compost_struct (snd m)) ms | _ \<Rightarrow> True)"

lemma end_of_ge:
  "off \<le> end_of t v off" "off \<le> end_of_members ms vs off"
proof (induction t v off and ms vs off rule: end_of_end_of_members.induct)
  case (7 n ms v off)
  then show ?case using mu_bytes_bounds(1) [of off]
    by (auto split: pyval.splits intro: le_trans)
next
  case (9 n t ms v vs off)
  then show ?case by (auto intro: le_trans)
next
  case (4 v off)
  show ?case using mu_bytes_bounds(1) [of off] by simp
next
  case (5 v off)
  show ?case using mu_bytes_bounds(1) [of off] by simp
next
  case (6 args v off)
  show ?case using mu_bytes_bounds(1) [of off] by (simp split: sum.splits)
qed (use mu_bytes_bounds(1) in \<open>auto split: backing.splits intro: le_trans trans_le_add1\<close>)

lemma end_of_args_ge: "off \<le> end_of_args ts vs off"
  by (induction ts vs off rule: end_of_args.induct) (auto intro: le_trans end_of_ge(1))

lemma pack_num_total:
  assumes "\<exists>bs. struct_pack (num_fmt k) v = Inr bs" and "8 * mu_bytes off + num_size k \<le> 8 * length buf"
  shows "\<exists>buf'. pack_num k v buf off = Inr (buf', 8 * mu_bytes off + num_size k)"
proof -
  obtain bs where bs: "struct_pack (num_fmt k) v = Inr bs" using assms(1) by blast
  then have "\<exists>buf'. put_bytes buf (8 * mu_bytes off) (fmt_width (num_fmt k)) bs = Inr buf'"
    using assms(2) by (intro put_bytes_total struct_pack_width) (simp_all add: num_size_width)
  then show ?thesis using bs by (auto simp: pack_num_def Let_def mu_byte_align_eq mu_add_def)
qed

lemma u16_header_total: "n < 65536 \<Longrightarrow> struct_pack Fmt_H (VInt (int n)) = Inr (be_encode 2 (int n))"
  by (simp add: struct_pack_def fmt_range_def)

lemma pack_blob_total:
  assumes "8 * (mu_bytes off + 2 + length bs) \<le> 8 * length buf" and "length bs < 65536"
  shows "\<exists>buf'. pack_blob bs buf off = Inr (buf', 8 * (mu_bytes off + 2 + length bs))"
proof -
  let ?hdr = "be_encode 2 (int (length bs))"
  have h: "struct_pack Fmt_H (VInt (int (length bs))) = Inr ?hdr"
    using assms by (intro u16_header_total) simp
  obtain b1 where b1: "put_bytes buf off 2 ?hdr = Inr b1"
    using put_bytes_total [of ?hdr 2 off buf] assms(1) by auto
  have "length b1 = length buf"
    using put_bytes_spec(1) [OF b1] assms(1) mu_bytes_le_iff [of off "length buf"]
    by (simp add: appends_def)
  then obtain b2 where "put_bytes b1 (8 * (mu_bytes off + 2)) (length bs) bs = Inr b2"
    using put_bytes_total [of bs "length bs" "8 * (mu_bytes off + 2)" b1] assms(1) by auto
  with h b1 show ?thesis by (simp add: pack_blob_def Let_def mu_set_bytes_eq)
qed

lemma pack_items_total:
  assumes "type_fmt inner = Inr f" and "list_all (fmt_dom f) vs"
    and "8 * (b + length vs * fmt_width f) \<le> 8 * length buf"
  shows "\<exists>buf'. pack_items inner vs buf (8 * b) = Inr (buf', 8 * (b + length vs * fmt_width f))"
  using assms
proof (induction vs arbitrary: buf b)
  case Nil
  then show ?case by simp
next
  case (Cons v vs)
  let ?w = "fmt_width f"
  obtain bs where bs: "struct_pack f v = Inr bs" "length bs = ?w"
    using st.enc_domain [of f v] Cons.prems(2) by auto
  obtain b1 where b1: "put_bytes buf (8 * b) ?w bs = Inr b1"
    using put_bytes_total [OF bs(2), of "8 * b" buf] Cons.prems(3) by auto
  have len: "length b1 = length buf"
    using put_bytes_spec(1) [OF b1 bs(2)] Cons.prems(3) by (simp add: appends_def)
  obtain b2 where "pack_items inner vs b1 (8 * (b + ?w)) = Inr (b2, 8 * (b + ?w + length vs * ?w))"
    using Cons.IH [OF Cons.prems(1), of "b + ?w" b1] Cons.prems(2,3) len by auto
  then show ?case
    using bs b1 Cons.prems(1) type_fmt_size [OF Cons.prems(1)]
    by (simp add: mu_add_def add.assoc)
qed

lemma pack_list_total:
  assumes "list_all (fmt_dom (num_fmt k)) vs" and "length vs * fmt_width (num_fmt k) < 65536"
    and "8 * (mu_bytes off + 2 + length vs * fmt_width (num_fmt k)) \<le> 8 * length buf"
  shows "\<exists>buf'. pack_list [TNum k] (VList vs) buf off =
           Inr (buf', 8 * (mu_bytes off + 2 + length vs * fmt_width (num_fmt k)))"
proof -
  let ?n = "length vs * fmt_width (num_fmt k)"
  let ?hdr = "be_encode 2 (int ?n)"
  have ty: "type_fmt (TNum k) = Inr (num_fmt k)" "type_size (TNum k) = Inr (num_size k)"
    by (simp_all add: type_fmt_def type_size_def)
  have h: "struct_pack Fmt_H (VInt (int ?n)) = Inr ?hdr"
    using assms by (intro u16_header_total) simp
  obtain b1 where b1: "put_bytes buf off 2 ?hdr = Inr b1"
    using put_bytes_total [of ?hdr 2 off buf] assms(3) by auto
  have "length b1 = length buf"
    using put_bytes_spec(1) [OF b1] assms(3) mu_bytes_le_iff [of off "length buf"]
    by (simp add: appends_def)
  then show ?thesis
    using pack_items_total [OF ty(1) assms(1), of "mu_bytes off + 2" b1] assms(3) b1 ty(2) h
    by (auto simp: pack_list_def mu_set_bytes_eq simp flip: of_nat_mult)
qed

lemma pack_bitu_total:
  assumes "as_index v = Some i" and "off + w \<le> 8 * length buf"
  shows "\<exists>buf'. pack_bitu w v buf off = Inr (buf', off + w)"
  using bitu.store_bits [OF TrueI assms(2), of i] assms(1)
  by (auto simp: pack_bitu_def BitU_pack_eq)

lemma pack_value_total_basic:
  assumes t: "wt t v" "\<not> is_compost_struct t" and fit: "end_of t v off \<le> 8 * length buf"
    and len: "end_of t v off < off + 8 * 65536"
  shows "\<exists>buf'. pack_value t v buf off = Inr (buf', end_of t v off)"
proof (cases t)
  case (TNum k)
  then show ?thesis using t fit pack_num_total [of k v off buf] st.enc_dec [of "num_fmt k" v] by auto
next
  case (TBitU w)
  then obtain i where "v = VInt i" using t by (auto split: pyval.splits)
  then show ?thesis using TBitU fit pack_bitu_total [of v i off w buf] by simp
next
  case (TEnum n b ms)
  then obtain i where v: "v = VEnum n i" using t by (auto split: pyval.splits)
  show ?thesis
  proof (cases b)
    case (BNum k)
    with TEnum t v have "fmt_dom (num_fmt k) (VInt i)" by auto
    then have "struct_pack (num_fmt k) v = struct_pack (num_fmt k) (VInt i)"
      using v by (simp add: struct_pack_enum)
    with \<open>fmt_dom (num_fmt k) (VInt i)\<close> have "\<exists>bs. struct_pack (num_fmt k) v = Inr bs"
      using st.enc_domain by metis
    then show ?thesis using BNum TEnum fit pack_num_total [of k v off buf] by simp
  next
    case (BBitU w)
    then show ?thesis using v TEnum fit pack_bitu_total [of v i off w buf] by simp
  qed (use TEnum t v in auto)
next
  case TStr
  then obtain s where v: "v = VStr s" "list_all scalar_value s" using t by (auto split: pyval.splits)
  then obtain bs where bs: "str_encode s = Inr bs" using str_encode_total by blast
  have "length bs < 65536" using len mu_bytes_bounds(1) [of off] by (simp add: TStr v bs blob_len_def)
  then show ?thesis
    using TStr v bs fit pack_blob_total [of "8 * mu_bytes off" bs buf]
    by (auto simp: Let_def py_str_encode_def py_bytes_def mu_byte_align_eq blob_len_def)
next
  case TBytes
  then obtain bs where v: "v = VBytes bs" using t by (auto split: pyval.splits)
  have "length bs < 65536" using len mu_bytes_bounds(1) [of off] by (simp add: TBytes v blob_len_def)
  then show ?thesis
    using TBytes v fit pack_blob_total [of "8 * mu_bytes off" bs buf]
    by (auto simp: Let_def py_bytes_def mu_byte_align_eq blob_len_def)
next
  case (TList args)
  with t(1) obtain k vs where v: "args = [TNum k]" "v = VList vs" "list_all (fmt_dom (num_fmt k)) vs"
    by (auto simp del: wt.simps elim: wt_TListE)
  have "length vs * fmt_width (num_fmt k) < 65536"
    using len mu_bytes_bounds(1) [of off] by (simp add: TList v blob_len_def type_size_def)
  from pack_list_total [OF v(3) this, of "8 * mu_bytes off"] show ?thesis
    using TList v fit
    by (auto simp: mu_byte_align_eq blob_len_def type_size_def)
qed (use t in auto)

lemma pack_members_total:
  assumes "wt_members ms vs" and "list_all (\<lambda>m. \<not> is_compost_struct (snd m)) ms"
    and "end_of_members ms vs off \<le> 8 * length buf" and "end_of_members ms vs off < off + 8 * 65536"
  shows "\<exists>buf'. pack_members ms (map astuple_inner vs) buf off = Inr (buf', end_of_members ms vs off)"
  using assms
proof (induction ms arbitrary: vs buf off)
  case Nil
  then show ?case by simp
next
  case (Cons m ms)
  obtain n t where m: "m = (n, t)" by fastforce
  with Cons.prems(1) obtain v vs' where vs: "vs = v # vs'" and wt: "wt t v" "wt_members ms vs'"
    by (auto split: list.splits)
  have ns: "\<not> is_compost_struct t" using Cons.prems(2) m by simp
  have "end_of t v off \<le> 8 * length buf"
    using Cons.prems(3) m vs end_of_ge(2) [of "end_of t v off" ms vs'] by simp
  moreover have "end_of t v off < off + 8 * 65536"
    using Cons.prems(4) m vs end_of_ge(2) [of "end_of t v off" ms vs'] by simp
  ultimately obtain b1 where b1: "pack_value t v buf off = Inr (b1, end_of t v off)"
    using pack_value_total_basic [OF wt(1) ns] by blast
  have "off \<le> 8 * length buf" using Cons.prems(3) end_of_ge(2) [of off "m # ms" vs] by simp
  then have "length b1 = length buf" using pack_value_appends(1) [OF b1] by (simp add: appends_def)
  moreover have "end_of_members ms vs' (end_of t v off) < end_of t v off + 8 * 65536"
    using Cons.prems(4) m vs end_of_ge(1) [of off t v] by simp
  ultimately show ?case
    using Cons.IH [OF wt(2), of "end_of t v off" b1] Cons.prems(2,3) m vs b1 wt_astuple [OF wt(1) ns] by auto
qed

lemma pack_value_total:
  assumes "wt t v" and "flat t" and "end_of t v off \<le> 8 * length buf" and "end_of t v off < off + 8 * 65536"
  shows "\<exists>buf'. pack_value t v buf off = Inr (buf', end_of t v off)"
proof (cases "is_compost_struct t")
  case False
  with assms show ?thesis by (intro pack_value_total_basic)
next
  case True
  then obtain n ms where t: "t = TStruct n ms" by (cases t) auto
  with assms(1) obtain vs where v: "v = VStruct n vs" "wt_members ms vs"
    by (auto split: pyval.splits)
  with t assms pack_members_total [OF v(2), of "8 * mu_bytes off" buf] mu_bytes_bounds(1) [of off] show ?thesis
    by (auto simp: flat_def astuple_def Let_def mu_byte_align_eq)
qed

lemma pack_args_total:
  assumes "list_all2 wt ts vs" and "list_all flat ts"
    and "end_of_args ts vs off \<le> 8 * length buf" and "end_of_args ts vs off < off + 8 * 65536"
  shows "\<exists>buf'. pack_args ts vs buf off = Inr (buf', end_of_args ts vs off)"
  using assms
proof (induction ts arbitrary: vs buf off)
  case Nil
  then show ?case by simp
next
  case (Cons t ts)
  obtain v vs' where vs: "vs = v # vs'" and wt: "wt t v" "list_all2 wt ts vs'"
    using Cons.prems(1) by (auto simp: list_all2_Cons1)
  have "end_of t v off \<le> 8 * length buf"
    using Cons.prems(3) vs end_of_args_ge [of "end_of t v off" ts vs'] by simp
  moreover have "end_of t v off < off + 8 * 65536"
    using Cons.prems(4) vs end_of_args_ge [of "end_of t v off" ts vs'] by simp
  ultimately obtain b1 where b1: "pack_value t v buf off = Inr (b1, end_of t v off)"
    using pack_value_total [OF wt(1)] Cons.prems(2) by auto
  have "off \<le> 8 * length buf" using Cons.prems(3) end_of_args_ge [of off "t # ts" vs] by simp
  then have "length b1 = length buf" using pack_value_appends(1) [OF b1] by (simp add: appends_def)
  moreover have "end_of_args ts vs' (end_of t v off) < end_of t v off + 8 * 65536"
    using Cons.prems(4) vs end_of_ge(1) [of off t v] by simp
  ultimately show ?case using Cons.IH [OF wt(2), of "end_of t v off" b1] Cons.prems(2,3) vs b1 by auto
qed


text \<open>The other direction: whenever packing succeeds it ends where \<open>end_of\<close> says.\<close>

lemma pack_value_end_basic:
  assumes p: "pack_value t v buf off = Inr (buf', off')" and fit: "off \<le> 8 * length buf"
    and t: "wt t v" "\<not> is_compost_struct t"
  shows "off' = end_of t v off"
proof (cases t)
  case (TNum k)
  then show ?thesis using p pack_num_spec [of k v buf off, OF _ fit] by (auto simp: num_size_width)
next
  case (TBitU w)
  then show ?thesis using p pack_bitu_spec [of w v buf off, OF _ fit] by auto
next
  case (TEnum n b ms)
  then show ?thesis
    using p pack_bitu_spec [of _ v buf off, OF _ fit] pack_num_spec [of _ v buf off, OF _ fit]
    by (cases b) (auto simp: num_size_width)
next
  case TStr
  then obtain s bs where "v = VStr s" "str_encode s = Inr bs"
    "pack_blob bs buf (8 * mu_bytes off) = Inr (buf', off')"
    using p t
    by (auto simp: Let_def rbind_Inr_iff mu_byte_align_eq py_str_encode_def py_bytes_def split: pyval.splits)
  then show ?thesis
    using TStr fit pack_blob_spec [of bs buf "8 * mu_bytes off"] by (auto simp: blob_len_def mu_bytes_le_iff)
next
  case TBytes
  then obtain bs where "v = VBytes bs" "pack_blob bs buf (8 * mu_bytes off) = Inr (buf', off')"
    using p t by (auto simp: Let_def rbind_Inr_iff mu_byte_align_eq py_bytes_def split: pyval.splits)
  then show ?thesis
    using TBytes fit pack_blob_spec [of bs buf "8 * mu_bytes off"] by (auto simp: blob_len_def mu_bytes_le_iff)
next
  case (TList args)
  with t(1) obtain k vs where v: "args = [TNum k]" "v = VList vs"
    by (auto simp del: wt.simps elim: wt_TListE)
  then have "pack_list [TNum k] (VList vs) buf (8 * mu_bytes off) = Inr (buf', off')"
    using p TList by (simp add: mu_byte_align_eq)
  then show ?thesis
    using TList v fit pack_list_spec [of "[TNum k]" "VList vs" buf "8 * mu_bytes off"]
    by (auto simp: blob_len_def mu_bytes_le_iff type_size_def type_fmt_def)
qed (use t in auto)

lemma pack_members_end:
  assumes "pack_members ms (map astuple_inner vs) buf off = Inr (buf', off')"
    and "off \<le> 8 * length buf" and "wt_members ms vs"
  shows "off' = end_of_members ms vs off"
  using assms
proof (induction ms arbitrary: vs buf off)
  case Nil
  then show ?case by simp
next
  case (Cons m ms)
  obtain n t where m: "m = (n, t)" by fastforce
  with Cons.prems(3) obtain v vs' where vs: "vs = v # vs'" and wt: "wt t v" "wt_members ms vs'"
    by (auto split: list.splits)
  from Cons.prems(1) m vs obtain b1 o1 where p1: "pack_value t (astuple_inner v) buf off = Inr (b1, o1)"
    and p2: "pack_members ms (map astuple_inner vs') b1 o1 = Inr (buf', off')"
    by (auto simp: rbind_Inr_iff)
  have ns: "\<not> is_compost_struct t" using p1 pack_nested_struct by (cases t) auto
  have p1: "pack_value t v buf off = Inr (b1, o1)" using p1 wt_astuple [OF wt(1) ns] by simp
  have "o1 = end_of t v off" by (rule pack_value_end_basic [OF p1 Cons.prems(2) wt(1) ns])
  with Cons.IH [OF p2 appends_fit [OF pack_value_appends(1) [OF p1 Cons.prems(2)]] wt(2)] m vs
  show ?case by simp
qed

lemma pack_value_end:
  assumes p: "pack_value t v buf off = Inr (buf', off')" and fit: "off \<le> 8 * length buf"
    and t: "wt t v"
  shows "off' = end_of t v off"
proof (cases "is_compost_struct t")
  case False
  with assms show ?thesis by (intro pack_value_end_basic)
next
  case True
  then obtain n ms where tt: "t = TStruct n ms" by (cases t) auto
  with p t obtain vs where v: "v = VStruct n vs" and wt: "wt_members ms vs"
    and p': "pack_members ms (map astuple_inner vs) buf (8 * mu_bytes off) = Inr (buf', off')"
    by (auto simp: Let_def astuple_def mu_byte_align_eq split: pyval.splits)
  then show ?thesis using tt fit pack_members_end [OF p'] by (simp add: mu_bytes_le_iff)
qed

lemma pack_args_end:
  assumes "pack_args ts vs buf off = Inr (buf', off')" and "off \<le> 8 * length buf"
    and "list_all2 wt ts vs"
  shows "off' = end_of_args ts vs off"
  using assms
proof (induction ts arbitrary: vs buf off)
  case Nil
  then show ?case by simp
next
  case (Cons t ts)
  obtain v vs' where vs: "vs = v # vs'" and wt: "wt t v" "list_all2 wt ts vs'"
    using Cons.prems(3) by (auto simp: list_all2_Cons1)
  from Cons.prems(1) vs obtain b1 o1 where p1: "pack_value t v buf off = Inr (b1, o1)"
    and p2: "pack_args ts vs' b1 o1 = Inr (buf', off')"
    by (auto simp: rbind_Inr_iff)
  have "o1 = end_of t v off" by (rule pack_value_end [OF p1 Cons.prems(2) wt(1)])
  with Cons.IH [OF p2 appends_fit [OF pack_value_appends(1) [OF p1 Cons.prems(2)]] wt(2)] vs
  show ?case by simp
qed

text \<open>Packing succeeds exactly when the arguments fit, and the payload then has the computed size.\<close>

lemma pack_payload_fits:
  assumes "list_all2 wt ts vs" and "list_all flat ts" and "payload_size ts vs \<le> 1024"
  shows "\<exists>bs. pack_payload ts vs = Inr bs"
proof -
  have "end_of_args ts vs 0 \<le> 8 * length (replicate 1024 (0 :: byte))"
    using assms(3) unfolding payload_size_def mu_bytes_le_iff by simp
  moreover from this have "end_of_args ts vs 0 < 0 + 8 * 65536" by simp
  ultimately obtain buf' where "pack_args ts vs (replicate 1024 0) 0 = Inr (buf', end_of_args ts vs 0)"
    using pack_args_total [OF assms(1,2)] by blast
  then show ?thesis using assms(1) by (auto simp: pack_payload_def list_all2_lengthD)
qed

lemma pack_payload_length:
  assumes "pack_payload ts vs = Inr bs" and "list_all2 wt ts vs"
  shows "length bs = payload_size ts vs" "payload_size ts vs \<le> 1024"
proof -
  let ?buf = "replicate 1024 0 :: byte list"
  obtain buf' off' where p: "pack_args ts vs ?buf 0 = Inr (buf', off')"
    and bs: "bs = slice 0 (mu_bytes off') buf'"
    using assms(1) by (auto simp: pack_payload_def Let_def rbind_Inr_iff split: if_splits)
  have "off' = end_of_args ts vs 0" by (rule pack_args_end [OF p _ assms(2)]) simp
  moreover have "length buf' = 1024" "mu_bytes off' \<le> 1024"
    using pack_args_appends [OF p] by (auto simp: appends_def mu_bytes_le_iff)
  ultimately show "length bs = payload_size ts vs" "payload_size ts vs \<le> 1024"
    using bs by (simp_all add: payload_size_def slice_def)
qed

section \<open>Property of the payload size\<close>

text \<open>
  C10. Well-typed arguments, with structures that contain no structure, pack exactly when their
  size is at most 1024 bytes, and the payload then has this size.
\<close>

theorem payload_packs_iff_fits:
  assumes "list_all2 wt ts vs" and "list_all flat ts"
  shows "(\<exists>bs. pack_payload ts vs = Inr bs \<and> length bs = payload_size ts vs) \<longleftrightarrow> payload_size ts vs \<le> 1024"
  using pack_payload_fits [OF assms] pack_payload_length assms(1) by blast

theorem payload_packs_iff_fits_witness:
  "\<not> (\<exists>bs. pack_payload [TBytes] [VBytes (replicate 1023 0)] = Inr bs \<and> length bs = 1025) \<and>
   (\<exists>bs. pack_payload [TNum U8] [VInt 5] = Inr bs \<and> length bs = 1)"
proof -
  have "payload_size [TBytes] [VBytes (replicate 1023 0)] = 1025" "payload_size [TNum U8] [VInt 5] = 1"
    by (simp_all add: payload_size_def mu_bytes_def blob_len_def BITS_PER_BYTE_def)
  then show ?thesis
    using payload_packs_iff_fits [of "[TBytes]" "[VBytes (replicate 1023 0)]"]
      payload_packs_iff_fits [of "[TNum U8]" "[VInt 5]"]
    by (simp add: flat_def fmt_range_def)
qed

section \<open>The wire format\<close>

text \<open>A payload of one argument whose bytes stand at the front of the buffer.\<close>

lemma pack_payload_single:
  assumes "pack_value t v (replicate 1024 0) 0 = Inr (buf', 8 * n)"
  shows "pack_payload [t] [v] = Inr (slice 0 n buf')"
  using assms by (simp add: pack_payload_def Let_def)

lemma mu_bytes_0: "mu_bytes 0 = 0"
  using mu_bytes_mult [of 0] by simp

lemma slice_0_add: "slice 0 (a + b) xs = slice 0 a xs @ slice a b xs"
  by (simp add: slice_def take_add)

text \<open>
  A string argument is packed as its length in bytes, two bytes big-endian, and its UTF-8
  bytes, and is unpacked to the same string; it packs whenever it has at most 1022 bytes.
\<close>

lemma string_wire_format:
  assumes "list_all scalar_value s" and "str_encode s = Inr bs" and "length bs \<le> 1022"
  shows "pack_payload [TStr] [VStr s] = Inr (be_encode 2 (int (length bs)) @ bs) \<and>
    unpack_payload [TStr] (be_encode 2 (int (length bs)) @ bs @ rest) = Inr [VStr s]"
proof -
  let ?buf = "replicate 1024 0 :: byte list"
  obtain buf' where p: "pack_blob bs ?buf 0 = Inr (buf', 8 * (2 + length bs))"
    using pack_blob_total [of 0 bs ?buf] assms(3) by (auto simp: mu_bytes_0)
  then have pv: "pack_value TStr (VStr s) ?buf 0 = Inr (buf', 8 * (2 + length bs))"
    using assms(2) by (simp add: py_str_encode_def py_bytes_def mu_byte_align_eq mu_bytes_0)
  have sl: "slice 0 2 buf' = be_encode 2 (int (length bs))" "slice 2 (length bs) buf' = bs"
    using pack_blob_spec [OF p] by (simp_all add: mu_bytes_0 numeral_2_eq_2)
  have pp: "pack_payload [TStr] [VStr s] = Inr (be_encode 2 (int (length bs)) @ bs)"
    by (simp only: pack_payload_single [OF pv] slice_0_add sl)
  then show ?thesis
    using unpack_pack_payload [OF pp, of rest] assms(1) by (simp add: in_step_def)
qed

lemma list_payload_bytes:
  assumes p: "pack_list [TNum k] (VList vs) (replicate 1024 0) 0 = Inr (buf', off')"
    and bss: "rmap (struct_pack (num_fmt k)) vs = Inr bss"
  shows "slice 0 2 buf' = be_encode 2 (int (length vs * fmt_width (num_fmt k))) \<and>
    slice 2 (length vs * fmt_width (num_fmt k)) buf' = concat bss"
proof -
  have ty: "type_fmt (TNum k) = Inr (num_fmt k)" "type_size (TNum k) = Inr (num_size k)"
    by (simp_all add: type_fmt_def type_size_def)
  show ?thesis
  proof (cases "vs = []")
    case True
    then show ?thesis using pack_list_spec [OF p] ty bss by (auto simp: mu_bytes_0 slice_def numeral_2_eq_2)
  next
    case False
    then show ?thesis using pack_list_spec [OF p] ty bss by (auto simp: mu_bytes_0 numeral_2_eq_2)
  qed
qed

lemma list_payload_wire:
  assumes "list_all (fmt_dom (num_fmt k)) vs" and "2 + length vs * fmt_width (num_fmt k) \<le> 1024"
  shows "\<exists>bss. rmap (struct_pack (num_fmt k)) vs = Inr bss \<and>
    pack_payload [TList [TNum k]] [VList vs] =
      Inr (be_encode 2 (int (length vs * fmt_width (num_fmt k))) @ concat bss) \<and>
    unpack_payload [TList [TNum k]]
      (be_encode 2 (int (length vs * fmt_width (num_fmt k))) @ concat bss @ rest) = Inr [VList vs]"
proof -
  let ?buf = "replicate 1024 0 :: byte list" and ?n = "length vs * fmt_width (num_fmt k)"
  obtain bss where bss: "rmap (struct_pack (num_fmt k)) vs = Inr bss"
    using st.enc_list_total [OF assms(1)] by blast
  obtain buf' where p: "pack_list [TNum k] (VList vs) ?buf 0 = Inr (buf', 8 * (2 + ?n))"
    using pack_list_total [OF assms(1), of 0 ?buf] assms(2) by (auto simp: mu_bytes_0)
  then have pv: "pack_value (TList [TNum k]) (VList vs) ?buf 0 = Inr (buf', 8 * (2 + ?n))"
    by (simp add: mu_byte_align_eq mu_bytes_0)
  have sl: "slice 0 2 buf' = be_encode 2 (int ?n)" "slice 2 ?n buf' = concat bss"
    using list_payload_bytes [OF p bss] by simp_all
  have pp: "pack_payload [TList [TNum k]] [VList vs] = Inr (be_encode 2 (int ?n) @ concat bss)"
    by (simp only: pack_payload_single [OF pv] slice_0_add sl)
  then show ?thesis
    using unpack_pack_payload [OF pp, of rest] assms(1) bss by (simp add: in_step_def)
qed

text \<open>
  A list of numbers is packed as its length in bytes, two bytes big-endian, and the elements
  in order in their format; it packs whenever that fits, and is unpacked to the same list.
\<close>

lemma list_wire_format:
  assumes "list_all (fmt_dom (num_fmt k)) vs" and "2 + length vs * fmt_width (num_fmt k) \<le> 1024"
  shows "\<exists>bss. rmap (struct_pack (num_fmt k)) vs = Inr bss \<and>
    pack_payload [TList [TNum k]] [VList vs] =
      Inr (be_encode 2 (int (length vs * fmt_width (num_fmt k))) @ concat bss) \<and>
    unpack_payload [TList [TNum k]]
      (be_encode 2 (int (length vs * fmt_width (num_fmt k))) @ concat bss @ rest) = Inr [VList vs]"
  using assms by (rule list_payload_wire)

text \<open>
  A byte string or string whose announced length exceeds the payload is not refused: what
  is there is returned.
\<close>

lemma truncated_bytes_accepted:
  assumes "length bs \<le> n" and "n < 65536"
  shows "unpack_payload [TBytes] (be_encode 2 (int n) @ bs) = Inr [VBytes bs]"
proof -
  have "be_decode (be_encode 2 (int n)) = int n" using assms(2) by (simp add: be_decode_encode)
  then show ?thesis
    using assms(1)
    by (simp add: unpack_payload_def unpack_blob_def unpack_u16_def unpack_from_def struct_unpack_def
        slice_def mu_bytes_def mu_set_bytes_def BITS_PER_BYTE_def Let_def)
qed

end
