(* ===== verification/CSlice.thy ===== *)
theory CSlice
  imports CMemory PayloadSize
begin

text \<open>
  Slices and the allocator of the generated C code.  A slice is a pointer (\<open>None\<close> is \<^verbatim>\<open>NULL\<close>) and a
  number of elements, whose bytes are in memory in wire format; the slice functions are
  templates over the element type.  Assertions are off, as in a release build.  A native array
  of the application (a \<^verbatim>\<open>uint16_t *\<close>, say, or a C string) is its address and its elements; the
  code compares the address only.
\<close>

section \<open>Slices\<close>

record c_slice =
  ptr :: "caddr option"
  slen :: "16 word"

text \<open>
  \<^verbatim>\<open>memcpy\<close>: copying between objects that overlap is undefined, and so is a null pointer.  Copying
  an object onto itself is also undefined by the standard, but works with most implementations;
  \<open>self\<close> says whether the implementation at hand allows it.
\<close>

definition memcpy :: "bool \<Rightarrow> cmem \<Rightarrow> caddr option \<Rightarrow> caddr option \<Rightarrow> nat \<Rightarrow> cmem option" where
  "memcpy self m dest src n =
     (case (dest, src) of
        (Some d, Some s) \<Rightarrow>
          if d + n \<le> length m \<and> s + n \<le> length m \<and> (d + n \<le> s \<or> s + n \<le> d \<or> self \<and> d = s)
          then Some (put m d (slice s n m)) else None
      | _ \<Rightarrow> None)"

definition compost_slice_load :: "numty \<Rightarrow> cmem \<Rightarrow> caddr \<Rightarrow> (c_slice \<times> caddr) option" where
  "compost_slice_load k m src = do {
     (len, src) \<leftarrow> compost_u16_load m src;
     let ret = \<lparr>ptr = Some src, slen = len div of_nat (csizeof k)\<rparr>;
     Some (ret, src + unat len) }"

definition compost_slice_store :: "bool \<Rightarrow> numty \<Rightarrow> cmem \<Rightarrow> caddr \<Rightarrow> c_slice \<Rightarrow> (cmem \<times> caddr) option" where
  "compost_slice_store self k m dest src = do {
     let len = slen src * of_nat (csizeof k);
     m \<leftarrow> (if ptr src \<noteq> Some dest then memcpy self m (Some (dest + 2)) (ptr src) (unat len) else Some m);
     (m, dest) \<leftarrow> compost_u16_store m dest len;
     Some (m, dest + unat len) }"

definition compost_slice_init :: "caddr option \<Rightarrow> 16 word \<Rightarrow> c_slice" where
  "compost_slice_init p n = \<lparr>ptr = p, slen = n\<rparr>"

definition compost_slice_get :: "numty \<Rightarrow> cmem \<Rightarrow> c_slice \<Rightarrow> nat \<Rightarrow> cnum option" where
  "compost_slice_get k m target idx = do {
     base \<leftarrow> ptr target;
     (val, _) \<leftarrow> num_load k m (base + csizeof k * idx);
     Some val }"

definition compost_slice_set :: "numty \<Rightarrow> cmem \<Rightarrow> c_slice \<Rightarrow> nat \<Rightarrow> cnum \<Rightarrow> cmem option" where
  "compost_slice_set k m target idx val = do {
     base \<leftarrow> ptr target;
     (m, _) \<leftarrow> num_store k m (base + csizeof k * idx) val;
     Some m }"

record native =
  naddr :: caddr
  elems :: "cnum list"

text \<open>The loops \<^verbatim>\<open>for (int i = 0; i < len_limit; i++)\<close>, with \<open>n\<close> rounds left.\<close>

fun copy_from_loop :: "numty \<Rightarrow> cmem \<Rightarrow> c_slice \<Rightarrow> cnum list \<Rightarrow> nat \<Rightarrow> nat \<Rightarrow> cmem option" where
  "copy_from_loop k m dest src i 0 = Some m"
| "copy_from_loop k m dest src i (Suc n) =
     (if i < length src then do {
        m \<leftarrow> compost_slice_set k m dest i (src ! i);
        copy_from_loop k m dest src (i + 1) n }
      else None)"

definition compost_slice_copy_from ::
  "numty \<Rightarrow> cmem \<Rightarrow> c_slice \<Rightarrow> native \<Rightarrow> 16 word \<Rightarrow> (cmem \<times> 16 word) option" where
  "compost_slice_copy_from k m dest src n = do {
     let len_limit = (if n \<le> slen dest then n else slen dest);
     m \<leftarrow> (if Some (naddr src) \<noteq> ptr dest
           then copy_from_loop k m dest (elems src) 0 (unat len_limit) else Some m);
     Some (m, len_limit) }"

fun ncopy_to_loop :: "numty \<Rightarrow> cmem \<Rightarrow> c_slice \<Rightarrow> cnum list \<Rightarrow> nat \<Rightarrow> nat \<Rightarrow> cnum list option" where
  "ncopy_to_loop k m src dest i 0 = Some dest"
| "ncopy_to_loop k m src dest i (Suc n) = do {
     v \<leftarrow> compost_slice_get k m src i;
     if i < length dest then ncopy_to_loop k m src (dest[i := v]) (i + 1) n else None }"

definition compost_slice_ncopy_to ::
  "numty \<Rightarrow> cmem \<Rightarrow> c_slice \<Rightarrow> native \<Rightarrow> 16 word \<Rightarrow> (native \<times> 16 word) option" where
  "compost_slice_ncopy_to k m src dest n = do {
     let len_limit = (if n \<le> slen src then n else slen src);
     vs \<leftarrow> (if ptr src \<noteq> Some (naddr dest)
            then ncopy_to_loop k m src (elems dest) 0 (unat len_limit) else Some (elems dest));
     Some (dest\<lparr>elems := vs\<rparr>, len_limit) }"

definition compost_slice_copy_to :: "numty \<Rightarrow> cmem \<Rightarrow> c_slice \<Rightarrow> native \<Rightarrow> native option" where
  "compost_slice_copy_to k m src dest = do {
     (dest, _) \<leftarrow> compost_slice_ncopy_to k m src dest (slen src);
     Some dest }"

definition compost_slice_copy :: "bool \<Rightarrow> numty \<Rightarrow> cmem \<Rightarrow> c_slice \<Rightarrow> c_slice \<Rightarrow> (cmem \<times> c_slice) option" where
  "compost_slice_copy self k m dest src = do {
     let len_limit = compost_min (slen src) (slen dest);
     let dest = dest\<lparr>slen := len_limit\<rparr>;
     m \<leftarrow> (if ptr src \<noteq> ptr dest then memcpy self m (ptr dest) (ptr src) (unat len_limit * csizeof k) else Some m);
     Some (m, dest) }"

section \<open>The allocator\<close>

text \<open>
  \<open>suffixes\<close> is the array behind the pointer.  The difference of two pointers into the buffer is
  an \<^verbatim>\<open>int\<close> without overflow, as buffers have at most 65535 bytes.
\<close>

record c_alloc =
  aptr :: caddr
  suffixes :: "16 word list option"
  buffer :: c_slice
  suffixes_len :: "16 word"
  alloc_ctr :: "16 word"

definition compost_alloc_init :: "caddr \<Rightarrow> 16 word \<Rightarrow> c_alloc" where
  "compost_alloc_init buf n =
     \<lparr>aptr = buf, suffixes = None, buffer = compost_slice_init (Some buf) n, suffixes_len = 0, alloc_ctr = 0\<rparr>"

definition compost_alloc_set_suffixes :: "c_alloc \<Rightarrow> 16 word list \<Rightarrow> 16 word \<Rightarrow> c_alloc" where
  "compost_alloc_set_suffixes alloc sfx n = alloc\<lparr>suffixes := Some sfx, suffixes_len := n\<rparr>"

definition compost_alloc_reset :: "c_alloc \<Rightarrow> c_alloc option" where
  "compost_alloc_reset alloc =
     (case ptr (buffer alloc) of
        None \<Rightarrow> None
      | Some base \<Rightarrow> Some (alloc\<lparr>suffixes := None, suffixes_len := 0, alloc_ctr := 0, aptr := base\<rparr>))"

definition compost_alloc_next :: "c_alloc \<Rightarrow> 16 word \<Rightarrow> (caddr option \<times> c_alloc) option" where
  "compost_alloc_next alloc n =
     (case ptr (buffer alloc) of
        None \<Rightarrow> None
      | Some base \<Rightarrow>
          let capacity = uint (slen (buffer alloc)) - (int (aptr alloc) - int base) in
          if uint n > capacity \<or> suffixes alloc \<noteq> None \<and> alloc_ctr alloc \<ge> suffixes_len alloc
          then Some (None, alloc)
          else do {
            let ret = aptr alloc;
            let alloc = alloc\<lparr>aptr := aptr alloc + unat n\<rparr>;
            alloc \<leftarrow> (if suffixes_len alloc > 0 then
                        (case suffixes alloc of
                           None \<Rightarrow> None
                         | Some sfx \<Rightarrow>
                             if unat (alloc_ctr alloc) < length sfx
                             then Some (alloc\<lparr>aptr := aptr alloc + unat (sfx ! unat (alloc_ctr alloc))\<rparr>)
                             else None)
                      else Some alloc);
            Some (Some ret, alloc\<lparr>alloc_ctr := alloc_ctr alloc + 1\<rparr>) })"

text \<open>The number of bytes is converted to \<^verbatim>\<open>uint16_t\<close> when it is passed on.\<close>

definition compost_slice_new :: "numty \<Rightarrow> c_alloc \<Rightarrow> 16 word \<Rightarrow> (c_slice \<times> c_alloc) option" where
  "compost_slice_new k alloc n = do {
     (p, alloc) \<leftarrow> compost_alloc_next alloc (of_nat (csizeof k * unat n));
     let n = (if p = None then 0 else n);
     Some (\<lparr>ptr = p, slen = n\<rparr>, alloc) }"

text \<open>The length of a C string, which must have a terminating zero.\<close>

fun strlen :: "cnum list \<Rightarrow> nat option" where
  "strlen [] = None"
| "strlen (c # cs) = (if c = C8 0 then Some 0 else map_option Suc (strlen cs))"

definition compost_str_new :: "cmem \<Rightarrow> c_alloc \<Rightarrow> native \<Rightarrow> (c_slice \<times> cmem \<times> c_alloc) option" where
  "compost_str_new m alloc cstr = do {
     len \<leftarrow> strlen (elems cstr);
     (ret, alloc) \<leftarrow> compost_slice_new U8 alloc (of_nat len);
     (m, _) \<leftarrow> compost_slice_copy_from U8 m ret cstr (of_nat len);
     Some (ret, m, alloc) }"

fun zero_fill_loop :: "cmem \<Rightarrow> c_slice \<Rightarrow> nat \<Rightarrow> nat \<Rightarrow> cmem option" where
  "zero_fill_loop m dest i 0 = Some m"
| "zero_fill_loop m dest i (Suc n) = do {
     m \<leftarrow> compost_slice_set U8 m dest i (C8 0);
     zero_fill_loop m dest (i + 1) n }"

definition compost_str_copy :: "cmem \<Rightarrow> c_slice \<Rightarrow> native \<Rightarrow> cmem option" where
  "compost_str_copy m dest src = do {
     len \<leftarrow> strlen (elems src);
     (m, _) \<leftarrow> compost_slice_copy_from U8 m dest src (of_nat len);
     if len < unat (slen dest) then zero_fill_loop m dest len (unat (slen dest) - len) else Some m }"

section \<open>Elements of a slice\<close>

lemma slice_put_other:
  assumes "p + n \<le> a \<or> a + length bs \<le> p" and "a + length bs \<le> length m"
  shows "slice p n (put m a bs) = slice p n m"
  using assms(1)
proof
  assume "p + n \<le> a"
  then have "slice p n (put m a bs) = slice p n (take a (put m a bs))" "slice p n m = slice p n (take a m)"
    by (simp_all add: slice_take)
  then show ?thesis using assms(2) by (simp add: put_def)
next
  assume "a + length bs \<le> p"
  then show ?thesis using assms(2) by (simp add: slice_def put_def)
qed

text \<open>Only the addresses from \<open>lo\<close> up to \<open>hi\<close> may differ.\<close>

definition same_outside :: "nat \<Rightarrow> nat \<Rightarrow> cmem \<Rightarrow> cmem \<Rightarrow> bool" where
  "same_outside lo hi m m' \<longleftrightarrow> length m' = length m \<and> take lo m' = take lo m \<and> drop hi m' = drop hi m"

lemma same_outside_refl [simp]: "same_outside lo hi m m"
  by (simp add: same_outside_def)

lemma same_outside_trans [trans]:
  "same_outside lo hi a b \<Longrightarrow> same_outside lo hi b c \<Longrightarrow> same_outside lo hi a c"
  by (simp add: same_outside_def)

lemma same_outside_put:
  "lo \<le> p \<Longrightarrow> p + length bs \<le> hi \<Longrightarrow> p + length bs \<le> length m \<Longrightarrow> same_outside lo hi m (put m p bs)"
  by (simp add: same_outside_def put_def)

lemma same_outside_slice:
  assumes "same_outside lo hi m m'" and "p + n \<le> lo \<or> hi \<le> p"
  shows "slice p n m' = slice p n m"
  using assms(2)
proof
  assume "p + n \<le> lo"
  then show ?thesis
    using assms(1) slice_take [of p n lo m] slice_take [of p n lo m'] by (simp add: same_outside_def)
next
  assume "hi \<le> p"
  then have "drop p x = drop (p - hi) (drop hi x)" for x :: cmem by simp
  with assms(1) show ?thesis by (simp only: slice_def same_outside_def)
qed

text \<open>The elements a slice stands for, and that it lies in memory.\<close>

definition elem :: "numty \<Rightarrow> cmem \<Rightarrow> caddr \<Rightarrow> nat \<Rightarrow> cnum" where
  "elem k m b i = cnum_of k (be_decode (slice (b + csizeof k * i) (csizeof k) m))"

definition slice_vals :: "numty \<Rightarrow> cmem \<Rightarrow> c_slice \<Rightarrow> cnum list" where
  "slice_vals k m s = (case ptr s of None \<Rightarrow> [] | Some b \<Rightarrow> map (elem k m b) [0..<unat (slen s)])"

definition slice_end :: "numty \<Rightarrow> c_slice \<Rightarrow> nat" where
  "slice_end k s = (case ptr s of None \<Rightarrow> 0 | Some b \<Rightarrow> b + csizeof k * unat (slen s))"

definition slice_in :: "numty \<Rightarrow> cmem \<Rightarrow> c_slice \<Rightarrow> bool" where
  "slice_in k m s = (ptr s \<noteq> None \<and> slice_end k s \<le> length m)"

lemma slice_inE:
  assumes "slice_in k m s"
  obtains b where "ptr s = Some b" and "b + csizeof k * unat (slen s) \<le> length m"
    and "slice_vals k m s = map (elem k m b) [0..<unat (slen s)]"
  using assms by (auto simp: slice_in_def slice_end_def slice_vals_def)

lemma elem_bound: "i < n \<Longrightarrow> b + csizeof k * n \<le> l \<Longrightarrow> b + csizeof k * i + csizeof k \<le> l"
  using mult_le_mono2 [of "Suc i" n "csizeof k"] by simp

lemma slice_get:
  assumes "slice_in k m s" and "i < unat (slen s)"
  shows "compost_slice_get k m s i = Some (slice_vals k m s ! i)"
proof -
  obtain b where b: "ptr s = Some b" "b + csizeof k * unat (slen s) \<le> length m"
    "slice_vals k m s = map (elem k m b) [0..<unat (slen s)]"
    using assms(1) by (rule slice_inE)
  then show ?thesis
    using assms(2) elem_bound [OF assms(2) b(2)]
    by (simp add: compost_slice_get_def num_load_slice elem_def)
qed

lemma elem_put:
  assumes "b + csizeof k * i + csizeof k \<le> length m" and "cnum_width c = csizeof k"
  shows "elem k (put m (b + csizeof k * i) (cnum_bytes c)) b j = (if j = i then c else elem k m b j)"
proof (cases "j = i")
  case True
  then show ?thesis
    using assms slice_put [of "b + csizeof k * i" "cnum_bytes c" m]
    by (simp add: elem_def cnum_bytes_decode cnum_of_val)
next
  case False
  then have "csizeof k * j + csizeof k \<le> csizeof k * i \<or> csizeof k * i + csizeof k \<le> csizeof k * j"
    using mult_le_mono2 [of "Suc j" i "csizeof k"] mult_le_mono2 [of "Suc i" j "csizeof k"]
    by (cases "j < i") auto
  then have "b + csizeof k * j + csizeof k \<le> b + csizeof k * i \<or>
      b + csizeof k * i + length (cnum_bytes c) \<le> b + csizeof k * j"
    using assms(2) by auto
  then show ?thesis
    using False assms slice_put_other [of "b + csizeof k * j" "csizeof k" "b + csizeof k * i" "cnum_bytes c" m]
    by (simp add: elem_def)
qed

lemma slice_set:
  assumes "slice_in k m s" and "i < unat (slen s)" and "cnum_width c = csizeof k"
  shows "\<exists>m'. compost_slice_set k m s i c = Some m' \<and> slice_vals k m' s = (slice_vals k m s)[i := c] \<and>
    same_outside (the (ptr s)) (slice_end k s) m m'"
proof -
  obtain b where b: "ptr s = Some b" "b + csizeof k * unat (slen s) \<le> length m"
    "slice_vals k m s = map (elem k m b) [0..<unat (slen s)]"
    using assms(1) by (rule slice_inE)
  note e = elem_bound [OF assms(2) b(2)]
  let ?m = "put m (b + csizeof k * i) (cnum_bytes c)"
  have "compost_slice_set k m s i c = Some ?m"
    using b(1) e assms(3) by (simp add: compost_slice_set_def num_store_put)
  moreover have "slice_vals k ?m s = (slice_vals k m s)[i := c]"
    using b e assms by (auto intro!: nth_equalityI simp: slice_vals_def elem_put nth_list_update)
  moreover have "same_outside b (slice_end k s) m ?m"
    using b(1) e elem_bound [OF assms(2) order_refl, of b k] assms(3)
    by (intro same_outside_put) (simp_all add: slice_end_def)
  ultimately show ?thesis using b(1) by auto
qed

lemma same_outside_in: "slice_in k m s \<Longrightarrow> same_outside lo hi m m' \<Longrightarrow> slice_in k m' s"
  by (simp add: slice_in_def same_outside_def)

lemma length_slice_vals: "slice_in k m s \<Longrightarrow> length (slice_vals k m s) = unat (slen s)"
  by (auto elim: slice_inE)

definition widths :: "numty \<Rightarrow> cnum list \<Rightarrow> bool" where
  "widths k cs = list_all (\<lambda>c. cnum_width c = csizeof k) cs"

lemma copy_from_loop_spec:
  assumes "slice_in k m s" and "i + n \<le> unat (slen s)" and "i + n \<le> length src" and "widths k src"
  shows "\<exists>m'. copy_from_loop k m s src i n = Some m' \<and>
    slice_vals k m' s = take i (slice_vals k m s) @ slice i n src @ drop (i + n) (slice_vals k m s) \<and>
    same_outside (the (ptr s)) (slice_end k s) m m'"
  using assms
proof (induction n arbitrary: i m)
  case 0
  then show ?case by simp
next
  case (Suc n)
  have w: "cnum_width (src ! i) = csizeof k" using Suc.prems(3,4) by (simp add: widths_def list_all_length)
  have lt: "i < unat (slen s)" using Suc.prems(2) by simp
  obtain m1 where m1: "compost_slice_set k m s i (src ! i) = Some m1"
    "slice_vals k m1 s = (slice_vals k m s)[i := src ! i]" "same_outside (the (ptr s)) (slice_end k s) m m1"
    using slice_set [OF Suc.prems(1) lt w] by blast
  obtain m' where m': "copy_from_loop k m1 s src (Suc i) n = Some m'"
    "slice_vals k m' s = take (Suc i) (slice_vals k m1 s) @ slice (Suc i) n src @ drop (Suc i + n) (slice_vals k m1 s)"
    "same_outside (the (ptr s)) (slice_end k s) m1 m'"
    using Suc.IH [of m1 "Suc i"] same_outside_in [OF Suc.prems(1) m1(3)] Suc.prems(2-4) by auto
  have l: "i < length (slice_vals k m s)" using length_slice_vals [OF Suc.prems(1)] Suc.prems(2) by simp
  have "slice i (Suc n) src = src ! i # slice (Suc i) n src"
    using Suc.prems(3) by (simp add: slice_def Cons_nth_drop_Suc [symmetric])
  then have "slice_vals k m' s = take i (slice_vals k m s) @ slice i (Suc n) src @ drop (i + Suc n) (slice_vals k m s)"
    using m'(2) m1(2) l by (simp add: take_Suc_conv_app_nth)
  then show ?case
    using m1 m' Suc.prems(3) same_outside_trans [OF m1(3) m'(3)] by auto
qed

lemma ncopy_to_loop_spec:
  assumes "slice_in k m s" and "i + n \<le> unat (slen s)" and "i + n \<le> length dest"
  shows "ncopy_to_loop k m s dest i n =
    Some (take i dest @ slice i n (slice_vals k m s) @ drop (i + n) dest)"
  using assms
proof (induction n arbitrary: i dest)
  case (Suc n)
  have "slice i (Suc n) (slice_vals k m s) = slice_vals k m s ! i # slice (Suc i) n (slice_vals k m s)"
    using Suc.prems length_slice_vals [OF Suc.prems(1)] by (simp add: slice_def Cons_nth_drop_Suc [symmetric])
  then show ?case
    using Suc.prems Suc.IH [of "Suc i" "dest[i := slice_vals k m s ! i]"] slice_get [OF Suc.prems(1), of i]
    by (simp add: take_Suc_conv_app_nth)
qed simp

section \<open>Copying between slices and arrays\<close>

lemma min_word: "unat (if n \<le> l then n else l :: 16 word) = min (unat n) (unat l)"
  by (simp add: min_def word_le_nat_alt)

lemma copy_from_spec:
  assumes "slice_in k m s" and "unat n \<le> length (elems src)" and "widths k (elems src)"
    and "ptr s \<noteq> Some (naddr src)"
  shows "\<exists>m' r. compost_slice_copy_from k m s src n = Some (m', r) \<and> unat r = min (unat n) (unat (slen s)) \<and>
    slice_vals k m' s = take (unat r) (elems src) @ drop (unat r) (slice_vals k m s) \<and>
    same_outside (the (ptr s)) (slice_end k s) m m'"
proof -
  let ?r = "if n \<le> slen s then n else slen s"
  have "0 + unat ?r \<le> unat (slen s)" "0 + unat ?r \<le> length (elems src)"
    using assms(2) unfolding min_word by simp_all
  from copy_from_loop_spec [OF assms(1) this assms(3)] obtain m' where
    "copy_from_loop k m s (elems src) 0 (unat ?r) = Some m'"
    "slice_vals k m' s = take (unat ?r) (elems src) @ drop (unat ?r) (slice_vals k m s)"
    "same_outside (the (ptr s)) (slice_end k s) m m'"
    by (auto simp: slice_def)
  then show ?thesis
    using assms(4) unfolding compost_slice_copy_from_def Let_def by (intro exI [of _ m'] exI [of _ ?r]) (auto simp: min_word)
qed

lemma ncopy_to_spec:
  assumes "slice_in k m s" and "min (unat n) (unat (slen s)) \<le> length (elems dest)"
    and "ptr s \<noteq> Some (naddr dest)"
  shows "\<exists>r. unat r = min (unat n) (unat (slen s)) \<and> compost_slice_ncopy_to k m s dest n =
    Some (dest\<lparr>elems := take (unat r) (slice_vals k m s) @ drop (unat r) (elems dest)\<rparr>, r)"
proof -
  let ?r = "if n \<le> slen s then n else slen s"
  have "0 + unat ?r \<le> unat (slen s)" "0 + unat ?r \<le> length (elems dest)"
    using assms(2) unfolding min_word by simp_all
  from ncopy_to_loop_spec [OF assms(1) this] show ?thesis
    using assms(3) unfolding compost_slice_ncopy_to_def Let_def
    by (intro exI [of _ ?r]) (auto simp: min_word slice_def)
qed

lemma zero_fill_loop_spec:
  assumes "slice_in U8 m s" and "i + n = unat (slen s)"
  shows "\<exists>m'. zero_fill_loop m s i n = Some m' \<and>
    slice_vals U8 m' s = take i (slice_vals U8 m s) @ replicate n (C8 0) \<and>
    same_outside (the (ptr s)) (slice_end U8 s) m m'"
  using assms
proof (induction n arbitrary: i m)
  case 0
  then show ?case using length_slice_vals [OF 0(1)] by simp
next
  case (Suc n)
  have lt: "i < unat (slen s)" using Suc.prems(2) by simp
  obtain m1 where m1: "compost_slice_set U8 m s i (C8 0) = Some m1"
    "slice_vals U8 m1 s = (slice_vals U8 m s)[i := C8 0]" "same_outside (the (ptr s)) (slice_end U8 s) m m1"
    using slice_set [OF Suc.prems(1) lt, of "C8 0"] by (auto simp: csizeof_def)
  obtain m' where m': "zero_fill_loop m1 s (Suc i) n = Some m'"
    "slice_vals U8 m' s = take (Suc i) (slice_vals U8 m1 s) @ replicate n (C8 0)"
    "same_outside (the (ptr s)) (slice_end U8 s) m1 m'"
    using Suc.IH [of m1 "Suc i"] same_outside_in [OF Suc.prems(1) m1(3)] Suc.prems(2) by auto
  have l: "i < length (slice_vals U8 m s)" using length_slice_vals [OF Suc.prems(1)] lt by simp
  show ?case
    using m1 m' l same_outside_trans [OF m1(3) m'(3)] by (auto simp: take_Suc_conv_app_nth)
qed

text \<open>A C string with its terminating zero.\<close>

definition c_string :: "byte list \<Rightarrow> cnum list \<Rightarrow> bool" where
  "c_string bs cs \<longleftrightarrow> list_all (\<lambda>b. b \<noteq> 0) bs \<and> (\<exists>rest. cs = map C8 bs @ C8 0 # rest) \<and> widths U8 cs"

lemma strlen_c_string: "c_string bs cs \<Longrightarrow> strlen cs = Some (length bs)"
  unfolding c_string_def by (induction bs arbitrary: cs) (auto simp: widths_def)

lemma str_copy_spec:
  assumes "slice_in U8 m s" and "c_string bs (elems src)" and "ptr s \<noteq> Some (naddr src)"
    and "length bs < 65536"
  shows "\<exists>m'. compost_str_copy m s src = Some m' \<and>
    slice_vals U8 m' s = map C8 (take (unat (slen s)) bs) @ replicate (unat (slen s) - length bs) (C8 0) \<and>
    same_outside (the (ptr s)) (slice_end U8 s) m m'"
proof -
  have n: "unat (of_nat (length bs) :: 16 word) = length bs" using assms(4) by (simp add: unat_of_nat)
  obtain rest where e: "elems src = map C8 bs @ C8 0 # rest" and w: "widths U8 (elems src)"
    using assms(2) by (auto simp: c_string_def)
  obtain m1 r where m1: "compost_slice_copy_from U8 m s src (of_nat (length bs)) = Some (m1, r)"
    "unat r = min (length bs) (unat (slen s))"
    "slice_vals U8 m1 s = map C8 (take (unat r) bs) @ drop (unat r) (slice_vals U8 m s)"
    "same_outside (the (ptr s)) (slice_end U8 s) m m1"
    using copy_from_spec [OF assms(1) _ w assms(3), of "of_nat (length bs)"] n e by (auto simp: take_map)
  show ?thesis
  proof (cases "length bs < unat (slen s)")
    case False
    then show ?thesis
      using m1 strlen_c_string [OF assms(2)] length_slice_vals [OF assms(1)]
      by (simp add: compost_str_copy_def)
  next
    case True
    obtain m' where m': "zero_fill_loop m1 s (length bs) (unat (slen s) - length bs) = Some m'"
      "slice_vals U8 m' s = take (length bs) (slice_vals U8 m1 s) @ replicate (unat (slen s) - length bs) (C8 0)"
      "same_outside (the (ptr s)) (slice_end U8 s) m1 m'"
      using zero_fill_loop_spec [OF same_outside_in [OF assms(1) m1(4)]] True by (metis le_add_diff_inverse less_imp_le)
    then show ?thesis
      using True m1 strlen_c_string [OF assms(2)] same_outside_trans [OF m1(4) m'(3)]
      by (simp add: compost_str_copy_def)
  qed
qed

section \<open>Slices on the wire\<close>

lemma put_before: "p + length as + length bs \<le> length m \<Longrightarrow> put (put m (p + length as) bs) p as = put m p (as @ bs)"
  by (simp add: put_def add.assoc)

lemma slice_add: "slice p (a + b) m = slice p a m @ slice (p + a) b m"
  by (simp add: slice_def take_add add.commute)

lemma slice_elems:
  assumes "b + csizeof k * n \<le> length m"
  shows "slice b (csizeof k * n) m = concat (map (\<lambda>i. cnum_bytes (elem k m b i)) [0..<n])"
  using assms
proof (induction n)
  case (Suc n)
  then have "length (slice (b + csizeof k * n) (csizeof k) m) = csizeof k" by simp
  then have "cnum_bytes (elem k m b n) = slice (b + csizeof k * n) (csizeof k) m"
    unfolding elem_def by (rule cnum_bytes_of)
  then show ?case using Suc slice_add [of b "csizeof k * n" "csizeof k" m] by (simp add: add.commute)
qed simp

lemma slice_vals_bytes:
  "slice_in k m s \<Longrightarrow> slice (the (ptr s)) (csizeof k * unat (slen s)) m = concat (map cnum_bytes (slice_vals k m s))"
  by (elim slice_inE) (simp add: slice_elems o_def)

lemma csizeof_pos [simp]: "0 < csizeof k" "csizeof k \<le> 8"
  by (simp_all add: csizeof_def)

lemma unat_mult_size:
  "csizeof k * unat (n :: 16 word) < 65536 \<Longrightarrow> unat (n * of_nat (csizeof k)) = csizeof k * unat n"
proof -
  assume n: "csizeof k * unat n < 65536"
  have "csizeof k < 65536" using csizeof_pos(2) [of k] by linarith
  with n show ?thesis by (simp add: unat_word_ariths unat_of_nat mult.commute)
qed

lemma slice_store_put:
  assumes "slice_in k m s" and n: "n = csizeof k * unat (slen s)" "n < 65536"
    and d: "dest + 2 + n \<le> length m" and b: "ptr s = Some b" "b \<noteq> dest"
    and dis: "dest + 2 + n \<le> b \<or> b + n \<le> dest + 2 \<or> self \<and> b = dest + 2"
  shows "compost_slice_store self k m dest s =
    Some (put m dest (be_encode 2 (int n) @ concat (map cnum_bytes (slice_vals k m s))), dest + 2 + n)"
proof -
  let ?len = "slen s * of_nat (csizeof k)" and ?data = "concat (map cnum_bytes (slice_vals k m s))"
  have len: "unat ?len = n" using n by (simp add: unat_mult_size)
  then have u: "uint ?len = int n" by (metis uint_nat)
  have data: "slice b n m = ?data" using slice_vals_bytes [OF assms(1)] b(1) n(1) by simp
  have bn: "b + n \<le> length m" using assms(1) b(1) n(1) by (simp add: slice_in_def slice_end_def)
  then have l: "length ?data = n" unfolding data [symmetric] by simp
  have "memcpy self m (Some (dest + 2)) (Some b) n = Some (put m (dest + 2) ?data)"
    using d dis bn by (auto simp: memcpy_def data)
  moreover have "compost_u16_store (put m (dest + 2) ?data) dest ?len =
      Some (put m dest (be_encode 2 (int n) @ ?data), dest + 2)"
    using store_2 [of dest "put m (dest + 2) ?data" ?len] d l put_before [of dest "be_encode 2 (int n)" ?data m]
    by (simp add: u)
  ultimately show ?thesis using b by (simp add: compost_slice_store_def Let_def len)
qed

lemma slice_load_put:
  assumes n: "length bs = n" "n < 65536" and d: "src + 2 + n \<le> length m"
    and at: "slice src (2 + n) m = be_encode 2 (int n) @ bs"
  shows "compost_slice_load k m src = Some (\<lparr>ptr = Some (src + 2), slen = of_nat (n div csizeof k)\<rparr>, src + 2 + n)"
proof -
  have "slice src 2 m = take 2 (slice src (2 + n) m)" by (simp add: slice_def numeral_2_eq_2)
  then have "slice src 2 m = be_encode 2 (int n)" unfolding at by simp
  then have "compost_u16_load m src = Some (of_nat n, src + 2)"
    using load_2 [of src m] d n(2) by (simp add: be_decode_encode)
  moreover have "unat (of_nat n :: 16 word) = n" using n(2) by (simp add: unat_of_nat)
  moreover have "(of_nat n :: 16 word) div of_nat (csizeof k) = of_nat (n div csizeof k)"
  proof -
    have "csizeof k < 65536" "n div csizeof k < 65536"
      using csizeof_pos(2) [of k] div_le_dividend [of n "csizeof k"] n(2) by linarith+
    then show ?thesis using n(2) by (intro iffD2 [OF word_unat_eq_iff]) (simp add: unat_div unat_of_nat)
  qed
  ultimately show ?thesis by (simp add: compost_slice_load_def)
qed

section \<open>Allocation\<close>

text \<open>
  The contract of an allocator that hands out blocks of a region in ascending order: what is
  free starts at \<open>free\<close> and ends at \<open>limit\<close>; a failed request changes nothing.
\<close>

primrec alloc_all :: "('a \<Rightarrow> 'n \<Rightarrow> (caddr option \<times> 'a) option) \<Rightarrow> 'a \<Rightarrow> 'n list \<Rightarrow> ((caddr \<times> 'n) list \<times> 'a) option" where
  "alloc_all nxt a [] = Some ([], a)"
| "alloc_all nxt a (n # ns) = do {
     (p, a) \<leftarrow> nxt a n;
     (bs, a) \<leftarrow> alloc_all nxt a ns;
     Some (case p of None \<Rightarrow> bs | Some p \<Rightarrow> (p, n) # bs, a) }"

fun blocks_in :: "('n \<Rightarrow> nat) \<Rightarrow> nat \<Rightarrow> nat \<Rightarrow> (caddr \<times> 'n) list \<Rightarrow> bool" where
  "blocks_in sz lo hi [] = True"
| "blocks_in sz lo hi ((p, n) # bs) = (lo \<le> p \<and> p + sz n \<le> hi \<and> blocks_in sz (p + sz n) hi bs)"

lemma blocks_in_mono: "blocks_in sz lo hi bs \<Longrightarrow> lo' \<le> lo \<Longrightarrow> blocks_in sz lo' hi bs"
  by (cases bs) auto

lemma blocks_in_bounds:
  "blocks_in sz lo hi bs \<Longrightarrow> (p, n) \<in> set bs \<Longrightarrow> lo \<le> p \<and> p + sz n \<le> hi"
  by (induction bs arbitrary: lo) (auto, meson add_leD1 le_trans)

lemma blocks_in_disjoint:
  "blocks_in sz lo hi bs \<Longrightarrow> i < j \<Longrightarrow> j < length bs \<Longrightarrow>
   fst (bs ! i) + sz (snd (bs ! i)) \<le> fst (bs ! j)"
proof (induction bs arbitrary: lo i j)
  case (Cons b bs)
  obtain p n where b: "b = (p, n)" by fastforce
  then have tl: "blocks_in sz (p + sz n) hi bs" using Cons.prems(1) by simp
  obtain j' where j: "j = Suc j'" using Cons.prems(2) by (cases j) auto
  then have "j' < length bs" using Cons.prems(3) by simp
  with b j Cons.IH [OF tl] Cons.prems(2) blocks_in_bounds [OF tl, of "fst (bs ! j')" "snd (bs ! j')"]
  show ?case by (cases i) (simp_all add: nth_mem)
qed simp

locale region_allocator =
  fixes nxt :: "'a \<Rightarrow> 'n \<Rightarrow> (caddr option \<times> 'a) option"
    and sz :: "'n \<Rightarrow> nat"
    and free limit :: "'a \<Rightarrow> nat"
    and wf :: "'a \<Rightarrow> bool"
  assumes next_total: "wf a \<Longrightarrow> \<exists>p a'. nxt a n = Some (p, a')"
    and next_wf: "wf a \<Longrightarrow> nxt a n = Some (r, a') \<Longrightarrow> wf a'"
    and next_block: "nxt a n = Some (Some p, a') \<Longrightarrow>
      free a \<le> p \<and> p + sz n \<le> free a' \<and> p + sz n \<le> limit a \<and> limit a' = limit a"
    and next_fail: "nxt a n = Some (None, a') \<Longrightarrow> a' = a"
begin

lemma alloc_all_total: "wf a \<Longrightarrow> \<exists>bs a'. alloc_all nxt a ns = Some (bs, a') \<and> wf a'"
proof (induction ns arbitrary: a)
  case (Cons n ns)
  from next_total [OF Cons.prems] obtain p a1 where p: "nxt a n = Some (p, a1)" by blast
  from Cons.IH [OF next_wf [OF Cons.prems p]] p show ?case by auto
qed simp

lemma alloc_all_blocks: "alloc_all nxt a ns = Some (bs, a') \<Longrightarrow> blocks_in sz (free a) (limit a) bs"
proof (induction ns arbitrary: a bs)
  case (Cons n ns)
  then obtain p a1 bs1 where p: "nxt a n = Some (p, a1)" and r: "alloc_all nxt a1 ns = Some (bs1, a')"
    and bs: "bs = (case p of None \<Rightarrow> bs1 | Some p \<Rightarrow> (p, n) # bs1)"
    by (auto simp: bind_eq_Some_conv)
  show ?case
  proof (cases p)
    case None
    then show ?thesis using p bs Cons.IH [OF r] next_fail [of a n a1] by simp
  next
    case (Some x)
    then show ?thesis
      using p bs Cons.IH [OF r] next_block [of a n x a1] blocks_in_mono [of sz "free a1" "limit a1" bs1 "x + sz n"]
      by simp
  qed
qed simp

end

definition alloc_wf :: "c_alloc \<Rightarrow> bool" where
  "alloc_wf a \<longleftrightarrow> ptr (buffer a) \<noteq> None \<and>
     (case suffixes a of None \<Rightarrow> suffixes_len a = 0 | Some sfx \<Rightarrow> length sfx = unat (suffixes_len a))"

definition alloc_limit :: "c_alloc \<Rightarrow> nat" where
  "alloc_limit a = (case ptr (buffer a) of None \<Rightarrow> 0 | Some b \<Rightarrow> b + unat (slen (buffer a)))"

lemma alloc_next_cases:
  assumes "alloc_wf a"
  shows "(\<exists>p a'. compost_alloc_next a n = Some (p, a') \<and> alloc_wf a') \<and>
    (\<forall>p a'. compost_alloc_next a n = Some (Some p, a') \<longrightarrow> p = aptr a \<and> aptr a + unat n \<le> aptr a')"
  using assms
  by (auto simp: alloc_wf_def compost_alloc_next_def Let_def word_le_nat_alt word_less_nat_alt
      split: option.splits if_splits)


lemma capacity_left:
  fixes n l :: "16 word"
  assumes "uint n \<le> uint l - (int x - int b)" shows "x + unat n \<le> b + unat l"
proof -
  have "int (unat n) = uint n" "int (unat l) = uint l" by simp_all
  with assms have "int (x + unat n) \<le> int (b + unat l)" unfolding of_nat_add by linarith
  then show ?thesis by (simp only: of_nat_le_iff)
qed

lemma alloc_next_block:
  "compost_alloc_next a n = Some (Some p, a') \<Longrightarrow>
   p = aptr a \<and> aptr a + unat n \<le> aptr a' \<and> aptr a + unat n \<le> alloc_limit a \<and> alloc_limit a' = alloc_limit a"
  by (auto simp: alloc_limit_def compost_alloc_next_def Let_def bind_eq_Some_conv not_less capacity_left
      split: option.splits if_splits)

lemma alloc_next_fail: "compost_alloc_next a n = Some (None, a') \<Longrightarrow> a' = a"
  by (auto simp: compost_alloc_next_def Let_def bind_eq_Some_conv split: option.splits if_splits)

interpretation bump: region_allocator compost_alloc_next unat aptr alloc_limit alloc_wf
proof
  show "\<exists>p a'. compost_alloc_next a n = Some (p, a')" if "alloc_wf a" for a n
    using alloc_next_cases [OF that] by blast
  show "alloc_wf a'" if "alloc_wf a" "compost_alloc_next a n = Some (r, a')" for a n r a'
    using alloc_next_cases [OF that(1), of n] that(2) by auto
qed (auto dest: alloc_next_block alloc_next_fail)

section \<open>Lists in C and in Python\<close>

lemma f32_widen_inf: "m \<le> f32_inf \<Longrightarrow> f32_widen_mag m \<le> f64_inf"
  using f32_widen_narrow [of m] by (auto simp: f32_narrow_mag_def not_less split: if_splits)

lemma fmt_dom_cnum:
  assumes "cnum_width c = csizeof k" and "\<not> c_nan k c"
  shows "fmt_dom (num_fmt k) (py_of_cnum k c)"
proof (cases "k = F32")
  case True
  with assms obtain w where c: "c = C32 w" by (cases c) (auto simp: csizeof_def)
  let ?m = "unat w mod 2 ^ 31"
  have m: "?m \<le> f32_inf" using assms(2) True c by simp
  note p = f64_make_parts [OF f32_widen_bound [OF m], of "2 ^ 31 \<le> unat w"]
  have "f32_representable (float_to_double w)"
    using p m f32_widen_narrow [OF m] f32_widen_inf [OF m]
    by (simp add: f32_representable_def is_nan_def float_to_double_def)
  then show ?thesis using True c by simp
next
  case False
  then show ?thesis
    using assms by (cases k; cases c) (simp_all add: csizeof_def fmt_range_sint fmt_range_uint)
qed

text \<open>The Python list a slice stands for.\<close>

definition slice_py :: "numty \<Rightarrow> cmem \<Rightarrow> c_slice \<Rightarrow> pyval list" where
  "slice_py k m s = map (py_of_cnum k) (slice_vals k m s)"

definition no_nan :: "numty \<Rightarrow> cnum list \<Rightarrow> bool" where
  "no_nan k cs = list_all (\<lambda>c. \<not> c_nan k c) cs"

lemma slice_vals_width: "slice_in k m s \<Longrightarrow> widths k (slice_vals k m s)"
  by (elim slice_inE) (simp add: widths_def list_all_iff elem_def)

lemma slice_py_bytes:
  assumes "slice_in k m s" and "no_nan k (slice_vals k m s)"
  shows "list_all (fmt_dom (num_fmt k)) (slice_py k m s)"
    and "rmap (struct_pack (num_fmt k)) (slice_py k m s) = Inr (map cnum_bytes (slice_vals k m s))"
proof -
  have w: "list_all (\<lambda>c. cnum_width c = csizeof k \<and> \<not> c_nan k c) (slice_vals k m s)"
    using slice_vals_width [OF assms(1)] assms(2) by (simp add: widths_def no_nan_def list_all_iff)
  then show "list_all (fmt_dom (num_fmt k)) (slice_py k m s)"
    by (simp add: slice_py_def list_all_iff fmt_dom_cnum)
  from w have "list_all2 (\<lambda>x y. struct_pack (num_fmt k) x = Inr y) (slice_py k m s) (map cnum_bytes (slice_vals k m s))"
    by (simp add: slice_py_def list_all2_conv_all_nth list_all_length struct_pack_cnum)
  then show "rmap (struct_pack (num_fmt k)) (slice_py k m s) = Inr (map cnum_bytes (slice_vals k m s))"
    by (simp only: rmap_Inr_iff)
qed

lemma slice_payload:
  assumes "slice_in k m s" and "no_nan k (slice_vals k m s)" and "2 + csizeof k * unat (slen s) \<le> 1024"
  shows "pack_payload [TList [TNum k]] [VList (slice_py k m s)] =
    Inr (be_encode 2 (int (csizeof k * unat (slen s))) @ concat (map cnum_bytes (slice_vals k m s)))"
proof -
  have l: "length (slice_py k m s) = unat (slen s)" by (simp add: slice_py_def length_slice_vals [OF assms(1)])
  show ?thesis
    using list_payload_wire [OF slice_py_bytes(1) [OF assms(1,2)], of "[]"] assms(3) slice_py_bytes(2) [OF assms(1,2)] l
    by (simp add: csizeof_def mult.commute)
qed

section \<open>Properties\<close>

lemma slice_vals_cong:
  assumes "slice a (csizeof k * n) m = slice b (csizeof k * n) m'" and "i < n"
  shows "elem k m a i = elem k m' b i"
proof -
  have "csizeof k * i + csizeof k \<le> csizeof k * n" using elem_bound [OF assms(2) order_refl, of 0 k] by simp
  then have "slice (x + csizeof k * i) (csizeof k) y = slice (csizeof k * i) (csizeof k) (slice x (csizeof k * n) y)"
    for x and y :: cmem by (simp add: slice_slice)
  then show ?thesis unfolding elem_def by (simp only: assms(1))
qed

text \<open>
  C16. Storing a slice writes the length prefix and the bytes that \<^verbatim>\<open>pack_payload\<close> produces for
  the list of its elements, if the slice lies elsewhere, or in place if the implementation
  of \<^verbatim>\<open>memcpy\<close> allows this; loading the bytes gives a slice with the same elements.
\<close>

theorem c_list_agrees:
  assumes "slice_in k m s" and "no_nan k (slice_vals k m s)"
    and n: "n = csizeof k * unat (slen s)" and "2 + n \<le> 1024" and d: "dest + 2 + n \<le> length m"
    and "ptr s = Some b" and "b \<noteq> dest" and "dest + 2 + n \<le> b \<or> b + n \<le> dest + 2 \<or> self \<and> b = dest + 2"
  shows "\<exists>bs s'. pack_payload [TList [TNum k]] [VList (slice_py k m s)] = Inr bs \<and>
    compost_slice_store self k m dest s = Some (put m dest bs, dest + length bs) \<and>
    compost_slice_load k (put m dest bs) dest = Some (s', dest + length bs) \<and>
    slice_py k (put m dest bs) s' = slice_py k m s"
proof -
  let ?data = "concat (map cnum_bytes (slice_vals k m s))"
  let ?bs = "be_encode 2 (int n) @ ?data" and ?s = "\<lparr>ptr = Some (dest + 2), slen = slen s\<rparr>"
  have nn: "n < 65536" using assms(4) by simp
  have data: "?data = slice b n m" using slice_vals_bytes [OF assms(1)] assms(6) n by simp
  have l: "length ?data = n" using assms(1,6) unfolding data n by (simp add: slice_in_def slice_end_def)
  have at: "slice dest (2 + n) (put m dest ?bs) = ?bs" using slice_put [of dest ?bs m] d l by simp
  have "(of_nat (n div csizeof k) :: 16 word) = slen s" using n by simp
  then have "compost_slice_load k (put m dest ?bs) dest = Some (?s, dest + length ?bs)"
    using slice_load_put [OF l nn _ at, of k] d l by simp
  moreover have "slice (dest + 2) n (put m dest ?bs) = slice b n m"
    using slice_slice [of 2 n "2 + n" dest "put m dest ?bs"] l unfolding at data [symmetric] by (simp add: slice_def)
  then have "slice_py k (put m dest ?bs) ?s = slice_py k m s"
    using assms(6) n slice_vals_cong [of "dest + 2" k "unat (slen s)" "put m dest ?bs" b m]
    by (simp add: slice_py_def slice_vals_def)
  ultimately show ?thesis
    using slice_payload [OF assms(1,2)] slice_store_put [OF assms(1) n nn d assms(6-8)] assms(4) n l
    by (intro exI [of _ ?bs] exI [of _ ?s]) simp
qed

theorem c_list_agrees_witness:
  "\<exists>bs. pack_payload [TList [TNum U16]] [VList [VInt 258, VInt 772]] = Inr bs \<and>
     compost_slice_store False U16 ([1, 2, 3, 4] @ replicate 8 0) 5 \<lparr>ptr = Some 0, slen = 2\<rparr> =
       Some (put ([1, 2, 3, 4] @ replicate 8 0) 5 bs, 5 + length bs)"
proof -
  let ?m = "[1, 2, 3, 4] @ replicate 8 0 :: cmem" and ?s = "\<lparr>ptr = Some 0, slen = 2\<rparr>"
  have v: "slice_vals U16 ?m ?s = [C16 258, C16 772]" by code_simp
  then have p: "slice_py U16 ?m ?s = [VInt 258, VInt 772]" "no_nan U16 (slice_vals U16 ?m ?s)"
    by (simp_all add: slice_py_def no_nan_def)
  have "slice_in U16 ?m ?s" by (simp add: slice_in_def slice_end_def csizeof_def)
  from c_list_agrees [OF this p(2) refl, of 5 0 False] show ?thesis
    unfolding p by (auto simp: csizeof_def)
qed

lemma alloc_next_buffer: "compost_alloc_next a n = Some (p, a') \<Longrightarrow> buffer a' = buffer a"
  by (auto simp: compost_alloc_next_def Let_def bind_eq_Some_conv split: option.splits if_splits)

lemma alloc_all_buffer: "alloc_all compost_alloc_next a ns = Some (bs, a') \<Longrightarrow> buffer a' = buffer a"
  by (induction ns arbitrary: a bs) (fastforce simp: bind_eq_Some_conv dest: alloc_next_buffer)+

text \<open>
  C17. Every sequence of requests to an allocator, with or without suffixes, is served
  without undefined behaviour: the blocks handed out lie in the buffer, in ascending order and without overlap,
  and a reset gives the initial allocator back.
\<close>

theorem allocator_blocks:
  assumes "a = compost_alloc_init buf n \<or>
    a = compost_alloc_set_suffixes (compost_alloc_init buf n) sfx l \<and> length sfx = unat l"
  shows "\<exists>bs a'. alloc_all compost_alloc_next a ns = Some (bs, a') \<and>
    (\<forall>(p, r) \<in> set bs. buf \<le> p \<and> p + unat r \<le> buf + unat n) \<and>
    (\<forall>i j. i < j \<and> j < length bs \<longrightarrow> fst (bs ! i) + unat (snd (bs ! i)) \<le> fst (bs ! j)) \<and>
    compost_alloc_reset a' = Some (compost_alloc_init buf n)"
proof -
  have a: "alloc_wf a" "aptr a = buf" "alloc_limit a = buf + unat n" "buffer a = \<lparr>ptr = Some buf, slen = n\<rparr>"
    using assms by (auto simp: alloc_wf_def alloc_limit_def compost_alloc_init_def compost_slice_init_def
        compost_alloc_set_suffixes_def)
  obtain bs a' where r: "alloc_all compost_alloc_next a ns = Some (bs, a')"
    using bump.alloc_all_total [OF a(1)] by blast
  note b = bump.alloc_all_blocks [OF r, unfolded a(2,3)]
  have "compost_alloc_reset a' = Some (compost_alloc_init buf n)"
    using alloc_all_buffer [OF r] a(4)
    by (simp add: compost_alloc_reset_def compost_alloc_init_def compost_slice_init_def)
  moreover have "\<forall>(p, r) \<in> set bs. buf \<le> p \<and> p + unat r \<le> buf + unat n"
    using blocks_in_bounds [OF b] by blast
  moreover have "\<forall>i j. i < j \<and> j < length bs \<longrightarrow> fst (bs ! i) + unat (snd (bs ! i)) \<le> fst (bs ! j)"
    using blocks_in_disjoint [OF b] by blast
  ultimately show ?thesis using r by blast
qed

theorem allocator_blocks_witness:
  "\<exists>bs a'. alloc_all compost_alloc_next
     (compost_alloc_set_suffixes (compost_alloc_init 100 20) [2, 3] 2) [4, 6, 1] = Some (bs, a') \<and>
   bs = [(100, 4), (106, 6)] \<and> (\<forall>(p, r) \<in> set bs. 100 \<le> p \<and> p + unat r \<le> 120)"
proof -
  have "map_option fst (alloc_all compost_alloc_next
     (compost_alloc_set_suffixes (compost_alloc_init 100 20) [2, 3] 2) [4, 6, 1]) = Some [(100, 4), (106, 6)]"
    by code_simp
  then show ?thesis using allocator_blocks [of _ 100 20 "[2, 3]" 2 "[4, 6, 1]"] by fastforce
qed

text \<open>A request in an allocator, exactly: whether it is served, and the allocator afterwards.\<close>

definition alloc_room :: "c_alloc \<Rightarrow> nat \<Rightarrow> bool" where
  "alloc_room a n \<longleftrightarrow> aptr a + n \<le> alloc_limit a \<and> (suffixes a = None \<or> alloc_ctr a < suffixes_len a)"

definition next_suffix :: "c_alloc \<Rightarrow> nat" where
  "next_suffix a = (case suffixes a of None \<Rightarrow> 0 | Some sfx \<Rightarrow> unat (sfx ! unat (alloc_ctr a)))"

lemma alloc_next_exact:
  assumes "alloc_wf a"
  shows "compost_alloc_next a n =
    (if alloc_room a (unat n)
     then Some (Some (aptr a), a\<lparr>aptr := aptr a + unat n + next_suffix a, alloc_ctr := alloc_ctr a + 1\<rparr>)
     else Some (None, a))"
proof -
  obtain b where b: "ptr (buffer a) = Some b" using assms by (auto simp: alloc_wf_def)
  have "int (unat n) = uint n" "int (unat (slen (buffer a))) = uint (slen (buffer a))" by simp_all
  then have "uint n > uint (slen (buffer a)) - (int (aptr a) - int b) \<longleftrightarrow> \<not> aptr a + unat n \<le> b + unat (slen (buffer a))"
    by linarith
  then show ?thesis
    using b assms
    by (cases "suffixes a")
      (auto simp: alloc_wf_def alloc_room_def alloc_limit_def next_suffix_def compost_alloc_next_def Let_def word_le_nat_alt word_less_nat_alt)
qed

text \<open>
  C24. A new slice, exactly: the size in bytes is reduced to 16 bits; if this many bytes are free and a suffix is left
  the slice starts at the pointer of the allocator, which moves behind the reduced size and the suffix, and otherwise the
  slice is empty and nothing is allocated.  A slice that is handed out lies in the buffer if and only if its size was not
  reduced.
\<close>

theorem slice_new_fits:
  assumes "alloc_wf a" and "the (ptr (buffer a)) \<le> aptr a" and "n = csizeof k * unat len"
  shows "\<exists>s a'. compost_slice_new k a len = Some (s, a') \<and>
    (if alloc_room a (n mod 65536)
     then s = \<lparr>ptr = Some (aptr a), slen = len\<rparr> \<and>
       a' = a\<lparr>aptr := aptr a + n mod 65536 + next_suffix a, alloc_ctr := alloc_ctr a + 1\<rparr> \<and>
       slice_end k s = aptr a + n \<and> (slice_end k s \<le> alloc_limit a \<longleftrightarrow> n < 65536)
     else s = \<lparr>ptr = None, slen = 0\<rparr> \<and> a' = a)"
proof -
  have u: "unat (of_nat n :: 16 word) = n mod 65536" by (simp only: unat_of_nat) simp
  have "unat (slen (buffer a)) < 2 ^ LENGTH(16)" by (rule unsigned_less)
  then have lim: "alloc_limit a < aptr a + 65536" using assms(1,2) by (auto simp: alloc_wf_def alloc_limit_def)
  show ?thesis
  proof (cases "alloc_room a (n mod 65536)")
    case True
    have "compost_slice_new k a len = Some (\<lparr>ptr = Some (aptr a), slen = len\<rparr>,
        a\<lparr>aptr := aptr a + n mod 65536 + next_suffix a, alloc_ctr := alloc_ctr a + 1\<rparr>)"
      using True unfolding compost_slice_new_def assms(3) [symmetric] alloc_next_exact [OF assms(1)] u by simp
    moreover have "aptr a + n \<le> alloc_limit a \<longleftrightarrow> n < 65536" using True lim by (auto simp: alloc_room_def)
    ultimately show ?thesis using True assms(3) by (simp add: slice_end_def)
  next
    case False
    then show ?thesis
      unfolding compost_slice_new_def assms(3) [symmetric] alloc_next_exact [OF assms(1)] u by simp
  qed
qed

theorem slice_new_fits_witness:
  "(\<exists>a'. compost_slice_new U16 (compost_alloc_init 8 20) 10 = Some (\<lparr>ptr = Some 8, slen = 10\<rparr>, a')) \<and>
   compost_slice_new U32 (compost_alloc_init 8 20) 20000 = Some (\<lparr>ptr = None, slen = 0\<rparr>, compost_alloc_init 8 20) \<and>
   (\<exists>s a'. compost_slice_new U32 (compost_alloc_init 8 14464) 20000 = Some (s, a') \<and> slice_end U32 s = 80008 \<and> aptr a' = 14472)"
proof -
  have i: "alloc_wf (compost_alloc_init b l)" "the (ptr (buffer (compost_alloc_init b l))) \<le> aptr (compost_alloc_init b l)"
    "aptr (compost_alloc_init b l) = b" "next_suffix (compost_alloc_init b l) = 0"
    "alloc_room (compost_alloc_init b l) x \<longleftrightarrow> x \<le> unat l" for b l x
    by (auto simp: alloc_wf_def alloc_room_def alloc_limit_def next_suffix_def compost_alloc_init_def compost_slice_init_def)
  show ?thesis
    using slice_new_fits [of "compost_alloc_init 8 20" _ U16 10, OF i(1,2) refl] slice_new_fits [of "compost_alloc_init 8 20" _ U32 20000, OF i(1,2) refl]
      slice_new_fits [of "compost_alloc_init 8 14464" _ U32 20000, OF i(1,2) refl]
    by (auto simp: i csizeof_def)
qed

text \<open>Copying a slice into another one that lies elsewhere.\<close>

lemma slice_copy_spec:
  assumes "slice_in k m d" and "slice_in k m s" and "ptr d = Some p" and "ptr s = Some q" and "p \<noteq> q"
    and "r = min (unat (slen s)) (unat (slen d))" and "p + csizeof k * r \<le> q \<or> q + csizeof k * r \<le> p"
  shows "\<exists>m'. compost_slice_copy self k m d s = Some (m', d\<lparr>slen := of_nat r\<rparr>) \<and>
    slice_vals k m' d = take r (slice_vals k m s) @ drop r (slice_vals k m d) \<and>
    same_outside p (slice_end k d) m m'"
proof -
  let ?m = "put m p (slice q (csizeof k * r) m)"
  have len: "compost_min (slen s) (slen d) = of_nat r" "unat (compost_min (slen s) (slen d)) = r"
    using assms(6) by (auto simp: compost_min_def word_less_nat_alt min_def)
  have u: "unat (of_nat r :: 16 word) = r" using len by metis
  have b: "p + csizeof k * unat (slen d) \<le> length m" "q + csizeof k * unat (slen s) \<le> length m"
    using assms(1-4) by (auto simp: slice_in_def slice_end_def)
  have r: "csizeof k * r \<le> csizeof k * unat (slen d)" "csizeof k * r \<le> csizeof k * unat (slen s)" using assms(6) by simp_all
  have pr: "p + csizeof k * r \<le> length m" using b(1) r(1) by linarith
  have l: "length (slice q (csizeof k * r) m) = csizeof k * r"
  proof -
    have "q + csizeof k * r \<le> length m" using b(2) r(2) by linarith
    then show ?thesis by simp
  qed
  have c: "compost_slice_copy self k m d s = Some (?m, d\<lparr>slen := of_nat r\<rparr>)"
  proof -
    have "p + csizeof k * r \<le> length m" "q + csizeof k * r \<le> length m" using b r by linarith+
    then have "memcpy self m (Some p) (Some q) (csizeof k * r) = Some ?m" using assms(7) by (auto simp: memcpy_def)
    then show ?thesis using assms(3-5) by (simp add: compost_slice_copy_def Let_def len(1) u mult.commute [of r])
  qed
  have "elem k ?m p i = (if i < r then elem k m q i else elem k m p i)" if i: "i < unat (slen d)" for i
  proof (cases "i < r")
    case True
    have "slice p (csizeof k * r) ?m = slice q (csizeof k * r) m"
      using slice_put [of p "slice q (csizeof k * r) m" m] l pr by simp
    from slice_vals_cong [OF this True] True show ?thesis by simp
  next
    case False
    then have "csizeof k * r \<le> csizeof k * i" by simp
    then have "slice (p + csizeof k * i) (csizeof k) ?m = slice (p + csizeof k * i) (csizeof k) m"
      using l pr by (intro slice_put_other) simp_all
    with False show ?thesis by (simp add: elem_def)
  qed
  then have "slice_vals k ?m d = take r (slice_vals k m s) @ drop r (slice_vals k m d)"
    using assms(3,4,6) by (intro nth_equalityI) (auto simp: slice_vals_def nth_append)
  moreover have "same_outside p (slice_end k d) m ?m"
    using l pr r(1) assms(3) by (intro same_outside_put) (simp_all add: slice_end_def)
  ultimately show ?thesis using c by blast
qed
text \<open>
  C18. A slice behaves as an array: reading an element gives it, and writing one replaces it and keeps the rest of the
  memory.  Copying an array into the slice, the slice into an array, and the slice into another slice copy the elements
  up to the smaller of both lengths, or to the number asked for, keep the elements behind and the rest of the memory, and
  report the number of elements copied.
\<close>

theorem slice_refines_array:
  assumes "slice_in k m s" and "i < unat (slen s)" and "cnum_width c = csizeof k"
    and xs: "widths k (elems xs)" "unat n \<le> length (elems xs)" "ptr s \<noteq> Some (naddr xs)"
    and ys: "unat (slen s) \<le> length (elems ys)" "ptr s \<noteq> Some (naddr ys)"
    and d: "slice_in k m d" "ptr d = Some p" "ptr s = Some q" "p \<noteq> q" "e = min (unat (slen s)) (unat (slen d))"
      "p + csizeof k * e \<le> q \<or> q + csizeof k * e \<le> p"
  shows "compost_slice_get k m s i = Some (slice_vals k m s ! i) \<and>
    (\<exists>m'. compost_slice_set k m s i c = Some m' \<and> slice_vals k m' s = (slice_vals k m s)[i := c] \<and>
       same_outside q (slice_end k s) m m') \<and>
    (\<exists>m' r. compost_slice_copy_from k m s xs n = Some (m', r) \<and> unat r = min (unat n) (unat (slen s)) \<and>
       slice_vals k m' s = take (unat r) (elems xs) @ drop (unat r) (slice_vals k m s) \<and> same_outside q (slice_end k s) m m') \<and>
    (\<exists>r. compost_slice_ncopy_to k m s ys l =
         Some (ys\<lparr>elems := take (unat r) (slice_vals k m s) @ drop (unat r) (elems ys)\<rparr>, r) \<and>
       unat r = min (unat l) (unat (slen s))) \<and>
    compost_slice_copy_to k m s ys = Some (ys\<lparr>elems := slice_vals k m s @ drop (unat (slen s)) (elems ys)\<rparr>) \<and>
    (\<exists>m'. compost_slice_copy self k m d s = Some (m', d\<lparr>slen := of_nat e\<rparr>) \<and>
       slice_vals k m' d = take e (slice_vals k m s) @ drop e (slice_vals k m d) \<and> same_outside p (slice_end k d) m m')"
proof -
  have "\<exists>r. unat r = min (unat l) (unat (slen s)) \<and> compost_slice_ncopy_to k m s ys l =
      Some (ys\<lparr>elems := take (unat r) (slice_vals k m s) @ drop (unat r) (elems ys)\<rparr>, r)" for l
    using ncopy_to_spec [OF assms(1) _ ys(2)] ys(1) by simp
  moreover from this [of "slen s"]
  have "compost_slice_copy_to k m s ys = Some (ys\<lparr>elems := slice_vals k m s @ drop (unat (slen s)) (elems ys)\<rparr>)"
    using length_slice_vals [OF assms(1)] by (auto simp: compost_slice_copy_to_def)
  ultimately show ?thesis
    using slice_get [OF assms(1,2)] slice_set [OF assms(1-3)] copy_from_spec [OF assms(1) xs(2,1,3)]
      slice_copy_spec [OF d(1) assms(1) d(2-6)] d(3) by auto
qed

theorem slice_refines_array_witness:
  "\<exists>m'. compost_slice_ncopy_to I16 [0, 0, 255, 254, 0, 3, 1] \<lparr>ptr = Some 1, slen = 2\<rparr>
       \<lparr>naddr = 9, elems = [C16 1, C16 2, C16 3]\<rparr> 1 = Some (\<lparr>naddr = 9, elems = [C16 255, C16 2, C16 3]\<rparr>, 1) \<and>
     compost_slice_copy False I16 [0, 0, 255, 254, 0, 3, 1] \<lparr>ptr = Some 5, slen = 1\<rparr> \<lparr>ptr = Some 1, slen = 2\<rparr> =
       Some (m', \<lparr>ptr = Some 5, slen = 1\<rparr>) \<and>
     slice_vals I16 m' \<lparr>ptr = Some 5, slen = 1\<rparr> = [C16 255]"
proof -
  let ?m = "[0, 0, 255, 254, 0, 3, 1] :: cmem"
  have v: "slice_vals I16 ?m \<lparr>ptr = Some 1, slen = 2\<rparr> = [C16 255, C16 (- 512)]"
    "slice_vals I16 ?m \<lparr>ptr = Some 5, slen = 1\<rparr> = [C16 769]" by code_simp+
  have i: "slice_in I16 ?m \<lparr>ptr = Some 1, slen = 2\<rparr>" "slice_in I16 ?m \<lparr>ptr = Some 5, slen = 1\<rparr>"
    by (simp_all add: slice_in_def slice_end_def csizeof_def)
  have u: "r = 1" if "unat r = Suc 0" for r :: "16 word" using that by (simp add: word_unat_eq_iff)
  from slice_refines_array [OF i(1) _ _ _ _ _ _ _ i(2), of 0 "C16 7" "\<lparr>naddr = 9, elems = [C16 1, C16 2]\<rparr>" 2
      "\<lparr>naddr = 9, elems = [C16 1, C16 2, C16 3]\<rparr>" 5 1 1 1 False]
  show ?thesis unfolding v by (auto simp: csizeof_def widths_def dest!: u)
qed

text \<open>
  Copying a C string into a slice fills the whole slice, truncating the string or padding
  it with zeros, and keeps the rest of the memory.
\<close>

lemma string_copy_fills:
  assumes "slice_in U8 m s" and "c_string bs (elems src)" and "ptr s \<noteq> Some (naddr src)"
    and "length bs < 65536"
  shows "\<exists>m'. compost_str_copy m s src = Some m' \<and>
    slice_vals U8 m' s = map C8 (take (unat (slen s)) bs) @ replicate (unat (slen s) - length bs) (C8 0) \<and>
    same_outside (the (ptr s)) (slice_end U8 s) m m'"
  using assms by (rule str_copy_spec)

end
