(* ===== verification/CSerdes.thy ===== *)
theory CSerdes
  imports CGen CSlice
begin

text \<open>
  The generated \<^verbatim>\<open>store\<close> and \<^verbatim>\<open>load\<close> functions at work.  A program is the list of the generated
  functions, the last one first; as there are no prototypes, a function can only call functions
  defined before it, so that running a function is a recursion over the program.
\<close>

section \<open>Execution of the generated functions\<close>

text \<open>
  A C value: a number, the value of a bit field, a slice or a structure.  An enumeration value is a
  number of the type of its backing class, to which the call converts it.
\<close>

datatype cval = CNum cnum | CBit "32 word" | CSl c_slice | CStruct "(string \<times> cval) list"

type_synonym cstate = "cmem \<times> caddr \<times> cval"

definition num_access :: "helper \<Rightarrow> numty \<Rightarrow> cmem \<Rightarrow> caddr \<Rightarrow> cval \<Rightarrow> cstate option" where
  "num_access h k m p c =
     (case h of
        Store \<Rightarrow> (case c of CNum x \<Rightarrow> map_option (\<lambda>(m, p). (m, p, c)) (num_store k m p x) | _ \<Rightarrow> None)
      | Load \<Rightarrow> map_option (\<lambda>(x, p). (m, p, CNum x)) (num_load k m p))"

definition slice_access :: "helper \<Rightarrow> bool \<Rightarrow> numty \<Rightarrow> cmem \<Rightarrow> caddr \<Rightarrow> cval \<Rightarrow> cstate option" where
  "slice_access h self k m p c =
     (case h of
        Store \<Rightarrow> (case c of CSl s \<Rightarrow> map_option (\<lambda>(m, p). (m, p, c)) (compost_slice_store self k m p s) | _ \<Rightarrow> None)
      | Load \<Rightarrow> map_option (\<lambda>(s, p). (m, p, CSl s)) (compost_slice_load k m p))"

text \<open>The bit field functions get the pointer itself and do not advance it.\<close>

definition bits_access :: "helper \<Rightarrow> nat \<Rightarrow> nat \<Rightarrow> cmem \<Rightarrow> caddr \<Rightarrow> cval \<Rightarrow> cstate option" where
  "bits_access h off w m p c =
     (if p \<le> length m then
        (case h of
           Store \<Rightarrow> (case c of
               CBit x \<Rightarrow> map_option (\<lambda>d. (take p m @ d, p, c)) (compost_bituint_store (drop p m) x (of_nat off) (of_nat w))
             | _ \<Rightarrow> None)
         | Load \<Rightarrow> map_option (\<lambda>x. (m, p, CBit x)) (compost_bituint_load (drop p m) (of_nat off) (of_nat w)))
      else None)"

datatype builtin = FNum numty | FSlice numty | FBits

definition num_types :: "numty list" where
  "num_types = [U8, I8, U16, I16, U32, I32, U64, I64, F32, F64]"

text \<open>The functions of the source template.\<close>

definition builtins :: "helper \<Rightarrow> (string \<times> builtin) list" where
  "builtins h =
     map (\<lambda>k. (num_fn k (helper_name h), FNum k)) num_types @
     map (\<lambda>k. (''compost_slice_'' @ lower (num_name k) @ ''_'' @ helper_name h, FSlice k)) num_types @
     [(''compost_bituint_'' @ helper_name h, FBits)]"

type_synonym callee = "string \<Rightarrow> cmem \<Rightarrow> caddr \<Rightarrow> cval \<Rightarrow> cstate option"

text \<open>A call must pass the pointer, and for bit fields the offset and the size, as the function expects them.\<close>

definition call_fn :: "helper \<Rightarrow> bool \<Rightarrow> callee \<Rightarrow> string \<Rightarrow> bool \<Rightarrow> nat list \<Rightarrow> cmem \<Rightarrow> caddr \<Rightarrow> cval \<Rightarrow> cstate option" where
  "call_fn h self callee fn dr args m p c =
     (case map_of (builtins h) fn of
        Some (FNum k) \<Rightarrow> if \<not> dr \<and> args = [] then num_access h k m p c else None
      | Some (FSlice k) \<Rightarrow> if \<not> dr \<and> args = [] then slice_access h self k m p c else None
      | Some FBits \<Rightarrow> (case args of [off, w] \<Rightarrow> if dr then bits_access h off w m p c else None | _ \<Rightarrow> None)
      | None \<Rightarrow> if \<not> dr \<and> args = [] then callee fn m p c else None)"

text \<open>
  The structure is \<open>vs\<close>: the argument of a \<^verbatim>\<open>store\<close> function, whose members are read, or the result
  of a \<^verbatim>\<open>load\<close> function, whose members are assigned one after the other.
\<close>

fun exec :: "helper \<Rightarrow> bool \<Rightarrow> callee \<Rightarrow> stmt list \<Rightarrow> cmem \<Rightarrow> caddr \<Rightarrow> (string \<times> cval) list \<Rightarrow>
    (cmem \<times> caddr \<times> (string \<times> cval) list) option" where
  "exec h self callee [] m p vs = Some (m, p, vs)"
| "exec h self callee (Advance n # ss) m p vs = exec h self callee ss m (p + n) vs"
| "exec h self callee (Call fn dr rf name args # ss) m p vs = do {
     c \<leftarrow> (case h of Store \<Rightarrow> map_of vs name | Load \<Rightarrow> Some (CStruct []));
     (m, p, c) \<leftarrow> call_fn h self callee fn dr args m p c;
     exec h self callee ss m p (case h of Store \<Rightarrow> vs | Load \<Rightarrow> vs @ [(name, c)]) }"

fun run :: "helper \<Rightarrow> bool \<Rightarrow> cfun list \<Rightarrow> callee" where
  "run h self [] fn m p c = None"
| "run h self ((f, ss) # prog) fn m p c =
     (if f = fn then
        (case c of
           CStruct vs \<Rightarrow> map_option (\<lambda>(m, p, vs). (m, p, CStruct vs)) (exec h self (run h self prog) ss m p vs)
         | _ \<Rightarrow> None)
      else run h self prog fn m p c)"

section \<open>The reference: access by type\<close>

text \<open>
  What the functions are meant to do, by recursion over the type: bit fields are packed behind
  each other, everything else starts at the next byte.
\<close>

fun access :: "helper \<Rightarrow> bool \<Rightarrow> ctype \<Rightarrow> cmem \<Rightarrow> caddr \<Rightarrow> cval \<Rightarrow> cstate option"
  and access_members :: "helper \<Rightarrow> bool \<Rightarrow> members \<Rightarrow> memunit \<Rightarrow> cmem \<Rightarrow> caddr \<Rightarrow> (string \<times> cval) list \<Rightarrow>
    (cmem \<times> caddr \<times> (string \<times> cval) list) option" where
  "access h self (TNum k) m p c = num_access h k m p c"
| "access h self (TEnum _ (BNum k) _) m p c = num_access h k m p c"
| "access h self TStr m p c = slice_access h self U8 m p c"
| "access h self TBytes m p c = slice_access h self U8 m p c"
| "access h self (TList [TNum k]) m p c = slice_access h self k m p c"
| "access h self (TStruct _ ms) m p c =
     (case c of
        CStruct vs \<Rightarrow> map_option (\<lambda>(m, p, vs). (m, p, CStruct vs)) (access_members h self ms 0 m p vs)
      | _ \<Rightarrow> None)"
| "access h self _ m p c = None"
| "access_members h self [] off m p vs = Some (m, p + mu_bytes off, vs)"
| "access_members h self ((name, t) # ms) off m p vs = do {
     c \<leftarrow> (case h of Store \<Rightarrow> map_of vs name | Load \<Rightarrow> Some (CStruct []));
     (m, p, c) \<leftarrow> (case bitu_width t of
                      Some w \<Rightarrow> bits_access h off w m p c
                    | None \<Rightarrow> access h self t m (p + mu_bytes off) c);
     access_members h self ms (case bitu_width t of Some w \<Rightarrow> off + w | None \<Rightarrow> 0) m p
       (case h of Store \<Rightarrow> vs | Load \<Rightarrow> vs @ [(name, c)]) }"

section \<open>The generated functions implement the reference\<close>

text \<open>The types for which there are functions to call.\<close>

fun c_supported :: "ctype \<Rightarrow> bool" where
  "c_supported (TNum _) = True"
| "c_supported (TEnum _ (BNum _) _) = True"
| "c_supported TStr = True"
| "c_supported TBytes = True"
| "c_supported (TList [TNum _]) = True"
| "c_supported (TStruct _ ms) = list_all (\<lambda>(n, t). bitu_width t \<noteq> None \<or> c_supported t) ms"
| "c_supported _ = False"

definition members_supported :: "members \<Rightarrow> bool" where
  "members_supported ms = list_all (\<lambda>(n, t). bitu_width t \<noteq> None \<or> c_supported t) ms"

text \<open>The classes of a program: a structure class is determined by its name.\<close>

fun named :: "(string \<Rightarrow> members option) \<Rightarrow> ctype \<Rightarrow> bool" where
  "named env (TStruct n ms) = (env n = Some ms \<and> list_all (\<lambda>(n, t). named env t) ms)"
| "named env _ = True"

definition members_named :: "(string \<Rightarrow> members option) \<Rightarrow> members \<Rightarrow> bool" where
  "members_named env ms = list_all (\<lambda>(n, t). named env t) ms"

definition fname :: "helper \<Rightarrow> string \<Rightarrow> string" where
  "fname h n = n @ ''_'' @ helper_name h"

definition names_free :: "helper \<Rightarrow> (string \<Rightarrow> members option) \<Rightarrow> bool" where
  "names_free h env = (\<forall>n. env n \<noteq> None \<longrightarrow> map_of (builtins h) (fname h n) = None)"

lemma fname_inj: "fname h n = fname h n' \<Longrightarrow> n = n'"
  by (simp add: fname_def)

lemma lower_num_name:
  "lower (num_name k) =
     (case k of U8 \<Rightarrow> ''u8'' | I8 \<Rightarrow> ''i8'' | U16 \<Rightarrow> ''u16'' | I16 \<Rightarrow> ''i16'' | U32 \<Rightarrow> ''u32''
      | I32 \<Rightarrow> ''i32'' | U64 \<Rightarrow> ''u64'' | I64 \<Rightarrow> ''i64'' | F32 \<Rightarrow> ''f32'' | F64 \<Rightarrow> ''f64'')"
  by (cases k) (simp_all add: lower_def to_lower_def isupper_def char_of_def bit_0)

lemmas builtin_names = builtins_def num_types_def num_fn_def lower_num_name

lemma builtin_num: "map_of (builtins h) (num_fn k (helper_name h)) = Some (FNum k)"
  by (cases h; cases k) (simp_all add: builtin_names del: num_name.simps)

lemma builtin_slice:
  "map_of (builtins h) (''compost_slice_'' @ lower (num_name k) @ ''_'' @ helper_name h) = Some (FSlice k)"
  by (cases h; cases k) (simp_all add: builtin_names del: num_name.simps)

lemma builtin_slice_u8: "map_of (builtins h) (''compost_slice_u8_'' @ helper_name h) = Some (FSlice U8)"
  by (cases h) (simp_all add: builtin_names del: num_name.simps)

lemma builtin_bits: "map_of (builtins h) (''compost_bituint_'' @ helper_name h) = Some FBits"
  by (cases h) (simp_all add: builtin_names del: num_name.simps)

definition dict_ok :: "helper \<Rightarrow> bool \<Rightarrow> (string \<Rightarrow> members option) \<Rightarrow> cfun list \<Rightarrow> bool" where
  "dict_ok h self env d \<longleftrightarrow> distinct (map fst d) \<and>
     (\<forall>n ms. fname h n \<in> fst ` set d \<and> env n = Some ms \<longrightarrow>
        run h self (rev d) (fname h n) = access h self (TStruct n ms))"

lemma run_skip: "fn \<notin> fst ` set nw \<Longrightarrow> run h self (nw @ prog) fn = run h self prog fn"
  by (induction nw) (auto simp: fun_eq_iff)

lemma run_extends:
  assumes "distinct (map fst (d @ nw))" and "fn \<in> fst ` set d"
  shows "run h self (rev (d @ nw)) fn = run h self (rev d) fn"
proof -
  have "fn \<notin> fst ` set (rev nw)" using assms by auto
  then show ?thesis by (simp add: run_skip)
qed

text \<open>The functions added for a type belong to smaller structures.\<close>

definition msize :: "members \<Rightarrow> nat" where
  "msize ms = size_list (size_prod (\<lambda>_. 0) size) ms"

definition adds :: "helper \<Rightarrow> (string \<Rightarrow> members option) \<Rightarrow> nat \<Rightarrow> cfun list \<Rightarrow> cfun list \<Rightarrow> bool" where
  "adds h env n d d' \<longleftrightarrow> (\<exists>nw. d' = d @ nw \<and>
     (\<forall>k \<in> fst ` set nw. \<exists>n' ms. k = fname h n' \<and> env n' = Some ms \<and> msize ms < n))"

lemma adds_refl [simp]: "adds h env n d d"
  by (simp add: adds_def)

lemma adds_trans: "adds h env n d d' \<Longrightarrow> adds h env n' d' d'' \<Longrightarrow> adds h env (max n n') d d''"
  unfolding adds_def by (fastforce simp: less_max_iff_disj)

lemma adds_mono: "adds h env n d d' \<Longrightarrow> n \<le> n' \<Longrightarrow> adds h env n' d d'"
  unfolding adds_def by (fastforce intro: less_le_trans)

definition later :: "helper \<Rightarrow> bool \<Rightarrow> (string \<Rightarrow> members option) \<Rightarrow> cfun list \<Rightarrow> cfun list \<Rightarrow> bool" where
  "later h self env d d' \<longleftrightarrow> dict_ok h self env d' \<and> (\<exists>nw. d' = d @ nw)"

lemma later_adds: "later h self env d' d'' \<Longrightarrow> adds h env n d d' \<Longrightarrow> later h self env d d''"
  unfolding later_def adds_def by auto

lemma later_call:
  assumes "later h self env d d''" and "fname h n \<in> fst ` set d" and "env n = Some ms"
  shows "run h self (rev d'') (fname h n) = access h self (TStruct n ms)"
proof -
  have "fname h n \<in> fst ` set d''" using assms(1,2) by (auto simp: later_def)
  with assms(1,3) show ?thesis unfolding later_def dict_ok_def by blast
qed

lemma exec_append_align:
  "exec h self callee (byte_align_stmts off @ ss) m p vs = exec h self callee ss m (p + mu_bytes off) vs"
  by (simp add: byte_align_stmts_def Let_def mu_byte_align_eq)

text \<open>The dictionary after the function of a structure has been defined.\<close>

lemma dict_ok_define:
  assumes "dict_ok h self env d" and "env n = Some ms" and "fname h n \<notin> fst ` set d"
    and body: "\<And>m p vs. exec h self (run h self (rev d)) ss m p vs = access_members h self ms 0 m p vs"
  shows "dict_ok h self env (d @ [(fname h n, ss)])"
proof -
  have new: "run h self (rev (d @ [(fname h n, ss)])) (fname h n) = access h self (TStruct n ms)"
    by (auto simp: fun_eq_iff body split: cval.splits)
  have dist: "distinct (map fst (d @ [(fname h n, ss)]))"
    using assms(1,3) by (auto simp: dict_ok_def)
  show ?thesis unfolding dict_ok_def
  proof (intro conjI dist allI impI, elim conjE)
    fix n' ms' assume fn: "fname h n' \<in> fst ` set (d @ [(fname h n, ss)])" and env: "env n' = Some ms'"
    show "run h self (rev (d @ [(fname h n, ss)])) (fname h n') = access h self (TStruct n' ms')"
    proof (cases "n' = n")
      case True
      with new assms(2) env show ?thesis by simp
    next
      case False
      then have "fname h n' \<in> fst ` set d" using fn by (auto dest: fname_inj)
      with run_extends [OF dist this] assms(1) env show ?thesis by (auto simp: dict_ok_def)
    qed
  qed
qed

lemma emit_call_simple:
  assumes "\<not> is_compost_struct t" and "emit_call h t d = Inr (fn, d')"
  shows "d' = d" and "serdes_fn t (helper_name h) = Inr fn"
  using assms by (cases t; auto simp: rbind_Inr_iff)+

lemma call_simple:
  assumes "\<not> is_compost_struct t" and "serdes_fn t (helper_name h) = Inr fn"
  shows "c_supported t \<Longrightarrow> call_fn h self callee fn False [] m p c = access h self t m p c"
    and "bitu_width t = Some w \<Longrightarrow> call_fn h self callee fn True [off, w] m p c = bits_access h off w m p c"
proof -
  show "call_fn h self callee fn False [] m p c = access h self t m p c" if "c_supported t"
    using that assms
    by (cases t rule: c_supported.cases)
       (auto simp: serdes_fn_def call_fn_def builtin_num builtin_slice [simplified] builtin_slice_u8 [simplified])
  show "call_fn h self callee fn True [off, w] m p c = bits_access h off w m p c" if "bitu_width t = Some w"
    using that assms
    by (cases t rule: bitu_width.cases) (auto simp: serdes_fn_def call_fn_def builtin_bits [simplified])
qed

declare member_stmts.simps [simp del] emit_call.simps [simp del]


lemma members_size: "(n, t) \<in> set ms \<Longrightarrow> size t < msize ms"
  unfolding msize_def by (induction ms) auto

lemma emit_struct:
  assumes t: "t = TStruct n ms" and e: "emit_call h t d = Inr (fn, d')"
    and IH: "fname h n \<notin> fst ` set d \<Longrightarrow> \<exists>ss d1. member_stmts h ms 0 d = Inr (ss, d1) \<Longrightarrow>
      (\<And>ss d1. member_stmts h ms 0 d = Inr (ss, d1) \<Longrightarrow> dict_ok h self env d1 \<and> adds h env (msize ms) d d1 \<and>
        (\<forall>d''. later h self env d1 d'' \<longrightarrow>
           (\<forall>m p vs. exec h self (run h self (rev d'')) ss m p vs = access_members h self ms 0 m p vs)))"
    and d: "dict_ok h self env d" and env: "env n = Some ms"
  shows "fn = fname h n \<and> dict_ok h self env d' \<and> adds h env (size t) d d' \<and> fn \<in> fst ` set d'"
proof (cases "fname h n \<in> fst ` set d")
  case True
  then show ?thesis using e d t by (auto simp: emit_call.simps fname_def)
next
  case False
  then obtain ss d1 where s: "member_stmts h ms 0 d = Inr (ss, d1)"
    and fn: "fn = fname h n" "d' = dict_set d1 fn ss"
    using e t by (auto simp: emit_call.simps fname_def rbind_Inr_iff Let_def)
  have r: "dict_ok h self env d1" "adds h env (msize ms) d d1"
    "later h self env d1 d'' \<Longrightarrow> exec h self (run h self (rev d'')) ss m p vs = access_members h self ms 0 m p vs"
    for d'' m p vs using IH [OF False] s by blast+
  have new: "fname h n \<notin> fst ` set d1"
  proof
    assume "fname h n \<in> fst ` set d1"
    with False r(2) obtain n' ms' where "fname h n = fname h n'" "env n' = Some ms'" "msize ms' < msize ms"
      unfolding adds_def by fastforce
    with env show False by (auto dest: fname_inj)
  qed
  then have d': "d' = d1 @ [(fname h n, ss)]" by (auto simp: fn dict_set_def)
  have "later h self env d1 d1" using r(1) by (simp add: later_def)
  from dict_ok_define [OF r(1) env new r(3) [OF this]] have ok: "dict_ok h self env d'" by (simp add: d')
  have sz: "msize ms < size t" unfolding t msize_def by simp
  have "adds h env (size t) d1 d'" unfolding adds_def d' using env sz by auto
  with adds_trans [OF r(2) this] sz have "adds h env (size t) d d'" by (simp add: max_def)
  moreover have "fn \<in> fst ` set d'" by (simp add: d' fn(1))
  ultimately show ?thesis using ok fn(1) by blast
qed

text \<open>
  Generating the body of a function keeps the dictionary in order, and the body does what the
  reference says in every program that starts with the dictionary.
\<close>

lemma member_stmts_correct:
  assumes free: "names_free h env"
  shows "member_stmts h ms off d = Inr (ss, d') \<Longrightarrow> members_supported ms \<Longrightarrow> members_named env ms \<Longrightarrow>
    dict_ok h self env d \<Longrightarrow> dict_ok h self env d' \<and> adds h env (msize ms) d d' \<and>
    (\<forall>d''. later h self env d' d'' \<longrightarrow>
       (\<forall>m p vs. exec h self (run h self (rev d'')) ss m p vs = access_members h self ms off m p vs))"
  using free
proof (induction "msize ms" arbitrary: ms off d ss d' rule: less_induct)
  case less
  show ?case
  proof (cases ms)
    case Nil
    then show ?thesis
      using less.prems exec_append_align [of h self _ off "[]"] by (auto simp: member_stmts.simps)
  next
    case (Cons nt ms1)
    obtain n t where nt: "nt = (n, t)" by fastforce
    have ms: "ms = (n, t) # ms1" using Cons nt by simp
    have sz: "msize ms1 < msize ms" "size t < msize ms" by (simp_all add: ms msize_def)
    have pre: "members_supported ms1" "members_named env ms1" "bitu_width t \<noteq> None \<or> c_supported t" "named env t"
      using less.prems(2,3) by (auto simp: ms members_supported_def members_named_def)
    obtain fn d1 where e: "emit_call h t d = Inr (fn, d1)"
      using less.prems(1) by (auto simp: ms member_stmts.simps rbind_Inr_iff split: option.splits)
    define off1 where "off1 = (case bitu_width t of Some w \<Rightarrow> off + w | None \<Rightarrow> 0)"
    obtain ss1 where s1: "member_stmts h ms1 off1 d1 = Inr (ss1, d')"
      and ss: "ss = (case bitu_width t of Some w \<Rightarrow> Call fn True False n [off, w] # ss1
        | None \<Rightarrow> byte_align_stmts off @ Call fn False (h = Store \<and> is_compost_struct t) n [] # ss1)"
      using less.prems(1) e
      by (auto simp: ms member_stmts.simps rbind_Inr_iff off1_def mu_add_def split: option.splits)
    have call: "dict_ok h self env d1 \<and> adds h env (size t) d d1 \<and>
      (\<forall>d''. later h self env d1 d'' \<longrightarrow> (\<forall>m p c. case bitu_width t of
          Some w \<Rightarrow> call_fn h self (run h self (rev d'')) fn True [off, w] m p c = bits_access h off w m p c
        | None \<Rightarrow> call_fn h self (run h self (rev d'')) fn False [] m p c = access h self t m p c))"
    proof (cases "is_compost_struct t")
      case False
      note es = emit_call_simple [OF False e]
      show ?thesis using es(1) less.prems(4) call_simple [OF False es(2)] pre(3) by (auto split: option.splits)
    next
      case True
      then obtain n' ms' where t: "t = TStruct n' ms'" by (cases t) auto
      then have bw: "bitu_width t = None" and env: "env n' = Some ms'" using pre(4) by auto
      have "msize ms' < msize ms" using sz(2) t by (simp add: msize_def)
      moreover have "members_supported ms'" "members_named env ms'"
        using pre(3,4) t by (simp_all add: members_supported_def members_named_def)
      ultimately have st: "fn = fname h n' \<and> dict_ok h self env d1 \<and> adds h env (size t) d d1 \<and> fn \<in> fst ` set d1"
        using less.hyps less.prems(4,5) by (intro emit_struct [OF t e _ less.prems(4) env]) blast
      then have "map_of (builtins h) fn = None" using less.prems(5) env by (auto simp: names_free_def)
      then have "call_fn h self (run h self (rev d'')) fn False [] m p c = access h self t m p c"
        if "later h self env d1 d''" for d'' m p c
      proof -
        have "run h self (rev d'') fn = access h self t" using later_call [OF that _ env] st t by blast
        then show ?thesis using \<open>map_of (builtins h) fn = None\<close> by (simp add: call_fn_def)
      qed
      then show ?thesis using st bw by simp
    qed
    have rest: "dict_ok h self env d'" "adds h env (msize ms1) d1 d'"
      "later h self env d' d'' \<Longrightarrow>
        exec h self (run h self (rev d'')) ss1 m p vs = access_members h self ms1 off1 m p vs" for d'' m p vs
      using less.hyps [OF sz(1) s1 pre(1,2)] call less.prems(5) by blast+
    have "adds h env (msize ms) d d'"
      using adds_trans [OF conjunct1 [OF conjunct2 [OF call]] rest(2)] sz by (auto elim!: adds_mono)
    moreover have "exec h self (run h self (rev d'')) ss m p vs = access_members h self ms off m p vs"
      if l: "later h self env d' d''" for d'' m p vs
    proof -
      note l1 = later_adds [OF l rest(2)]
      show ?thesis
        using call l1 rest(3) [OF l]
        by (cases "bitu_width t"; cases h) (simp_all add: ss ms exec_append_align off1_def)
    qed
    ultimately show ?thesis using rest(1) by blast
  qed
qed

lemma serdes_fn_total: "bitu_width t \<noteq> None \<or> c_supported t \<Longrightarrow> \<exists>fn. serdes_fn t suffix = Inr fn"
  by (cases t rule: bitu_width.cases; cases t rule: c_supported.cases) (auto simp: serdes_fn_def)

lemma member_stmts_total: "members_supported ms \<Longrightarrow> \<exists>ss d'. member_stmts h ms off d = Inr (ss, d')"
proof (induction "msize ms" arbitrary: ms off d rule: less_induct)
  case less
  show ?case
  proof (cases ms)
    case (Cons nt ms1)
    obtain n t where ms: "ms = (n, t) # ms1" using Cons by (cases nt) auto
    have sz: "msize ms1 < msize ms" "size t < msize ms" by (simp_all add: ms msize_def)
    have pre: "members_supported ms1" "bitu_width t \<noteq> None \<or> c_supported t"
      using less.prems by (auto simp: ms members_supported_def)
    have "\<exists>fn d1. emit_call h t d = Inr (fn, d1)"
    proof (cases "is_compost_struct t")
      case False
      obtain fn where "serdes_fn t (helper_name h) = Inr fn" using serdes_fn_total [OF pre(2)] by blast
      then show ?thesis using False by (cases t) (auto simp: emit_call.simps)
    next
      case True
      then obtain n' ms' where t: "t = TStruct n' ms'" by (cases t) auto
      then have "msize ms' < msize ms" "members_supported ms'"
        using sz(2) pre(2) by (simp_all add: msize_def members_supported_def)
      from less.hyps [OF this, of 0 d] show ?thesis by (auto simp: t emit_call.simps Let_def)
    qed
    then obtain fn d1 where "emit_call h t d = Inr (fn, d1)" by blast
    moreover obtain ss d' where "member_stmts h ms1 (case bitu_width t of Some w \<Rightarrow> mu_add off w | None \<Rightarrow> 0) d1 = Inr (ss, d')"
      using less.hyps [OF sz(1) pre(1)] by blast
    ultimately show ?thesis by (auto simp: ms member_stmts.simps split: option.splits)
  qed (simp add: member_stmts.simps)
qed

lemma emit_call_correct:
  assumes "c_supported (TStruct n ms)" and "named env (TStruct n ms)" and "names_free h env"
  shows "\<exists>d. emit_call h (TStruct n ms) [] = Inr (fname h n, d) \<and> distinct (map fst d) \<and>
    run h self (rev d) (fname h n) = access h self (TStruct n ms)"
proof -
  have pre: "members_supported ms" "members_named env ms" "env n = Some ms"
    using assms(1,2) by (simp_all add: members_supported_def members_named_def)
  obtain ss d1 where "member_stmts h ms 0 [] = Inr (ss, d1)" using member_stmts_total [OF pre(1)] by blast
  then obtain fn d where e: "emit_call h (TStruct n ms) [] = Inr (fn, d)" by (auto simp: emit_call.simps Let_def)
  have d0: "dict_ok h self env []" by (simp add: dict_ok_def)
  have "fn = fname h n \<and> dict_ok h self env d \<and> adds h env (size (TStruct n ms)) [] d \<and> fn \<in> fst ` set d"
    using member_stmts_correct [OF assms(3) _ pre(1,2) d0] by (intro emit_struct [OF refl e _ d0 pre(3)]) blast
  moreover from this have "later h self env d d" by (simp add: later_def)
  ultimately show ?thesis using later_call [of h self env d d n ms] e pre(3) by (auto simp: dict_ok_def)
qed


section \<open>Properties\<close>

text \<open>
  C9. The functions generated for a structure, and for the structures in it, are defined once
  each and before they are used, and running the one of the structure does what the reference
  says: members in order, bit fields packed, everything else at byte boundaries.
\<close>

theorem generated_functions_refine:
  assumes "c_supported (TStruct n ms)" and "named env (TStruct n ms)" and "names_free h env"
  shows "\<exists>d. emit_call h (TStruct n ms) [] = Inr (fname h n, d) \<and> distinct (map fst d) \<and>
    run h self (rev d) (fname h n) = access h self (TStruct n ms)"
  using assms by (rule emit_call_correct)

definition ex_in :: members where "ex_in = [(''y'', TNum U8)]"
definition ex_out :: members where
  "ex_out = [(''f'', TBitU 3), (''a'', TStruct ''In'' ex_in), (''b'', TStruct ''In'' ex_in), (''s'', TStr)]"

lemma ex_names: "names_free h (map_of [(''In'', ex_in), (''Out'', ex_out)])"
  by (cases h) (auto simp: names_free_def fname_def builtin_names split: if_splits)

theorem generated_functions_refine_witness:
  "\<exists>d. emit_call Store (TStruct ''Out'' ex_out) [] = Inr (''Out_store'', d) \<and> distinct (map fst d) \<and>
    run Store True (rev d) ''Out_store'' = access Store True (TStruct ''Out'' ex_out)"
  using generated_functions_refine [OF _ _ ex_names, of "''Out''" ex_out Store True]
  by (simp add: ex_out_def ex_in_def fname_def)

end
