(* ===== verification/PayloadShift.thy ===== *)
theory PayloadShift
  imports PayloadSize
begin

text \<open>
  Packing at another place: what is packed depends on the part of the buffer that it covers and on nothing else, so the
  same bytes appear wherever that part lies, for instance in the middle of the memory of the device.
\<close>

section \<open>Bits behind an offset\<close>

lemma buf_bit_append_right: "8 * length a \<le> i \<Longrightarrow> buf_bit (a @ b) i = buf_bit b (i - 8 * length a)"
proof -
  assume i: "8 * length a \<le> i"
  define j where "j = i - 8 * length a"
  have "i = 8 * length a + j" using i by (simp add: j_def)
  then show ?thesis by (simp add: buf_bit_def nth_append)
qed

lemma mu_bytes_shift: "mu_bytes (8 * n + u) = n + mu_bytes u"
  using mu_bytes_add_mult [of u n] by (simp add: add.commute)

section \<open>Local steps\<close>

text \<open>
  A function that replaces the bits \<open>D\<close> of a part of \<open>n\<close> bytes, by values that do not depend on it, and keeps the others.
\<close>

definition overwrites :: "nat \<Rightarrow> nat set \<Rightarrow> (byte list \<Rightarrow> byte list) \<Rightarrow> bool" where
  "overwrites n D F \<longleftrightarrow> (\<forall>b. length b = n \<longrightarrow> length (F b) = n) \<and>
     (\<forall>a b i. length a = n \<and> length b = n \<and> i < 8 * n \<longrightarrow>
        (if i \<in> D then buf_bit (F a) i = buf_bit (F b) i else buf_bit (F a) i = buf_bit a i))"

lemma overwrites_id: "overwrites n {} (\<lambda>b. b)"
  by (simp add: overwrites_def)

lemma overwrites_comp: "overwrites n D F \<Longrightarrow> overwrites n E G \<Longrightarrow> overwrites n (D \<union> E) (\<lambda>b. G (F b))"
  unfolding overwrites_def by (smt (verit) Un_iff)

lemma ivl_join: "(a :: nat) \<le> b \<Longrightarrow> b \<le> c \<Longrightarrow> {a..<b} \<union> {b..<c} = {a..<c}"
  by auto

text \<open>
  A step that changes the bits \<open>D\<close> of a part of \<open>n\<close> bytes by \<open>F\<close> and the offset in it from \<open>off\<close> to \<open>off'\<close>, whatever stands around this
  part.
\<close>

definition local_step :: "(byte list \<Rightarrow> memunit \<Rightarrow> packed res) \<Rightarrow> nat \<Rightarrow> memunit \<Rightarrow> nat set \<Rightarrow> (byte list \<Rightarrow> byte list) \<Rightarrow> memunit \<Rightarrow> bool" where
  "local_step f n off D F off' \<longleftrightarrow> overwrites n D F \<and>
     (\<forall>pre b post. length b = n \<longrightarrow> f (pre @ b @ post) (8 * length pre + off) = Inr (pre @ F b @ post, 8 * length pre + off'))"

lemma local_stepD: "local_step f n off D F off' \<Longrightarrow> length b = n \<Longrightarrow> f (b @ post) off = Inr (F b @ post, off')"
  unfolding local_step_def by (metis add_0 append_Nil list.size(3) mult_0_right)

lemma local_step_length: "local_step f n off D F off' \<Longrightarrow> length b = n \<Longrightarrow> length (F b) = n"
  by (simp add: local_step_def overwrites_def)

lemma local_step_trans:
  assumes "local_step f n p D F q" and "local_step g n q E G r"
  shows "local_step (\<lambda>buf off. rbind (f buf off) (\<lambda>x. g (fst x) (snd x))) n p (D \<union> E) (\<lambda>b. G (F b)) r"
  using assms local_step_length [OF assms(1)] overwrites_comp by (simp add: local_step_def)

lemma local_step_cong:
  assumes "local_step f n p D F q"
    and "\<And>pre b post. length b = n \<Longrightarrow> g (pre @ b @ post) (8 * length pre + p) = f (pre @ b @ post) (8 * length pre + p)"
  shows "local_step g n p D F q"
  using assms by (simp add: local_step_def)

definition put_at :: "nat \<Rightarrow> byte list \<Rightarrow> byte list \<Rightarrow> byte list" where
  "put_at k bs b = take k b @ bs @ drop (k + length bs) b"

lemma length_put_at [simp]: "k + length bs \<le> length b \<Longrightarrow> length (put_at k bs b) = length b"
  by (simp add: put_at_def)

lemma nth_put_at:
  assumes "k + length bs \<le> length b"
  shows "put_at k bs b ! j = (if k \<le> j \<and> j < k + length bs then bs ! (j - k) else b ! j)"
proof -
  consider "j < k" | "k \<le> j" "j < k + length bs" | "k + length bs \<le> j" by linarith
  then show ?thesis
  proof cases
    case 2
    then have "j - k < length bs" by linarith
    then show ?thesis using 2 assms by (simp add: put_at_def nth_append)
  next
    case 3
    then have "\<not> j - k < length bs" by linarith
    then have "put_at k bs b ! j = drop (k + length bs) b ! (j - k - length bs)"
      using 3 assms by (simp add: put_at_def nth_append)
    then show ?thesis using 3 assms by simp
  qed (use assms in \<open>simp_all add: put_at_def nth_append\<close>)
qed

lemma overwrites_put_at: "k + length bs \<le> n \<Longrightarrow> overwrites n {8 * k..<8 * (k + length bs)} (put_at k bs)"
  by (auto simp: overwrites_def buf_bit_def nth_put_at)

lemma put_bytes_at:
  assumes "length bs = n" and "mu_bytes off + n \<le> length b"
  shows "put_bytes (pre @ b @ post) (8 * length pre + off) n bs = Inr (pre @ put_at (mu_bytes off) bs b @ post)"
  using assms by (simp add: put_at_def put_bytes_def slice_assign_Inr mu_bytes_shift)

lemma BitU_store_local:
  assumes "off + w \<le> 8 * n"
  shows "\<exists>F. local_step (\<lambda>buf off. rbind (BitU_store w buf off i) (\<lambda>buf. Inr (buf, off + w))) n off {off..<off + w} F (off + w)"
proof -
  define F where "F b = (case BitU_store w b off i of Inr b' \<Rightarrow> b' | Inl _ \<Rightarrow> b)" for b
  have F: "BitU_store w b off i = Inr (F b)" "length (F b) = n"
    "\<And>j. j < 8 * n \<Longrightarrow> buf_bit (F b) j = (if off \<le> j \<and> j < off + w then bit i (off + w - 1 - j) else buf_bit b j)"
    if b: "length b = n" for b
    using bitu.store_bits [OF TrueI assms [folded b], of i] b by (auto simp: F_def)
  have "BitU_store w (pre @ b @ post) (8 * length pre + off) i = Inr (pre @ F b @ post)" if b: "length b = n" for pre b post
  proof -
    have fit: "8 * length pre + off + w \<le> 8 * length (pre @ b @ post)" using assms b by simp
    obtain c where c: "BitU_store w (pre @ b @ post) (8 * length pre + off) i = Inr c"
      using bitu.store_bits [OF TrueI fit] by blast
    note t = bitu.store_result [OF TrueI fit c]
    have "c = pre @ F b @ post"
    proof (rule buf_eqI)
      show "length c = length (pre @ F b @ post)" using F(2) [OF b] b t(1) by simp
      fix j assume "j < 8 * length c"
      then have j: "j < 8 * length (pre @ b @ post)" using t(1) by simp
      consider "j < 8 * length pre" | "8 * length pre \<le> j" "j - 8 * length pre < 8 * n"
        | "8 * length pre \<le> j" "8 * n \<le> j - 8 * length pre" by linarith
      then show "buf_bit c j = buf_bit (pre @ F b @ post) j"
      proof cases
        case 1
        then show ?thesis using t(2) [OF j] by (simp add: buf_bit_append)
      next
        case 2
        have "8 * length pre + off + w - 1 - j = off + w - 1 - (j - 8 * length pre)" using 2 by linarith
        moreover have "8 * length pre + off \<le> j \<and> j < 8 * length pre + off + w \<longleftrightarrow>
            off \<le> j - 8 * length pre \<and> j - 8 * length pre < off + w" using 2 by linarith
        ultimately show ?thesis
          using t(2) [OF j] F(2,3) [OF b] b 2 by (simp add: buf_bit_append buf_bit_append_right)
      next
        case 3
        then have "\<not> j < 8 * length pre + off + w" using assms by linarith
        then show ?thesis using t(2) [OF j] F(2) [OF b] b 3 by (simp add: buf_bit_append_right)
      qed
    qed
    with c show ?thesis by simp
  qed
  moreover have "overwrites n {off..<off + w} F" using F(2,3) by (auto simp: overwrites_def)
  ultimately show ?thesis by (intro exI [of _ F]) (simp add: local_step_def)
qed

section \<open>Every value is packed locally\<close>

lemma pack_num_local:
  assumes "pack_num k v buf off = Inr (c, off')" and "off' \<le> 8 * n" and "off \<le> 8 * length buf"
  shows "\<exists>F. local_step (pack_num k v) n off {8 * mu_bytes off..<off'} F off'"
proof -
  let ?w = "fmt_width (num_fmt k)"
  obtain bs where bs: "struct_pack (num_fmt k) v = Inr bs" "off' = 8 * (mu_bytes off + ?w)"
    using pack_num_spec [OF assms(1,3)] by blast
  note l = struct_pack_width [OF bs(1)]
  have w: "mu_bytes off + ?w \<le> n" using assms(2) bs(2) by simp
  have "local_step (pack_num k v) n off {8 * mu_bytes off..<off'} (put_at (mu_bytes off) bs) off'"
    unfolding local_step_def
  proof (intro conjI allI impI)
    show "overwrites n {8 * mu_bytes off..<off'} (put_at (mu_bytes off) bs)"
      using overwrites_put_at [of "mu_bytes off" bs n] w l bs(2) by simp
    fix pre b post :: "byte list" assume b: "length b = n"
    have "put_bytes (pre @ b @ post) (8 * length pre + off) ?w bs = Inr (pre @ put_at (mu_bytes off) bs b @ post)"
      using w l b by (intro put_bytes_at) simp_all
    then show "pack_num k v (pre @ b @ post) (8 * length pre + off) = Inr (pre @ put_at (mu_bytes off) bs b @ post, 8 * length pre + off')"
      by (simp add: pack_num_def Let_def bs mu_byte_align_eq mu_add_def num_size_width put_bytes_def mu_bytes_shift)
  qed
  then show ?thesis by blast
qed

lemma pack_bitu_local:
  assumes "pack_bitu w v buf off = Inr (c, off')" and "off' \<le> 8 * n" and "off \<le> 8 * length buf"
  shows "\<exists>F. local_step (pack_bitu w v) n off {off..<off'} F off'"
proof (cases "as_index v")
  case None
  then have "local_step (pack_bitu w v) n off {off..<off'} (\<lambda>b. b) off'"
    using assms(1) by (auto simp: pack_bitu_def local_step_def overwrites_id split: if_splits)
  then show ?thesis by blast
next
  case (Some i)
  have o: "off' = off + w" using pack_bitu_spec [OF assms(1,3)] by simp
  then have "off + w \<le> 8 * n" using assms(2) by simp
  from BitU_store_local [OF this, of i] obtain F where
    F: "local_step (\<lambda>buf off. rbind (BitU_store w buf off i) (\<lambda>buf. Inr (buf, off + w))) n off {off..<off + w} F (off + w)" by blast
  then have "local_step (pack_bitu w v) n off {off..<off'} F off'"
    unfolding o by (rule local_step_cong) (simp add: Some pack_bitu_def BitU_pack_eq)
  then show ?thesis by blast
qed

text \<open>The same for a position in whole bytes.\<close>

lemma put_bytes_at_byte:
  assumes "length bs = n" and "k + n \<le> length b"
  shows "put_bytes (pre @ b @ post) (8 * length pre + 8 * k) n bs = Inr (pre @ put_at k bs b @ post)"
  using put_bytes_at [OF assms(1), of "8 * k" b pre post] assms(2) by simp

lemma pack_blob_local:
  assumes "pack_blob bs buf off = Inr (c, off')" and "off' \<le> 8 * n" and "off \<le> 8 * length buf"
  shows "\<exists>F. local_step (pack_blob bs) n off {8 * mu_bytes off..<off'} F off'"
proof -
  let ?k = "mu_bytes off" and ?n = "length bs"
  obtain hdr where h: "struct_pack Fmt_H (VInt (int ?n)) = Inr hdr"
    using assms(1) by (auto simp: pack_blob_def rbind_Inr_iff)
  note lh = u16_header [OF h]
  have o: "off' = 8 * (?k + 2 + ?n)" using pack_blob_spec [OF assms(1,3)] by simp
  then have fit: "?k + 2 \<le> n" "?k + 2 + ?n \<le> n" using assms(2) by simp_all
  let ?F = "\<lambda>b. put_at (?k + 2) bs (put_at ?k hdr b)"
  have "local_step (pack_blob bs) n off {8 * ?k..<off'} ?F off'"
    unfolding local_step_def
  proof (intro conjI allI impI)
    have "overwrites n ({8 * ?k..<8 * (?k + length hdr)} \<union> {8 * (?k + 2)..<8 * (?k + 2 + ?n)}) ?F"
      by (rule overwrites_comp [where F = "put_at ?k hdr" and G = "put_at (?k + 2) bs"])
        (rule overwrites_put_at, use lh fit in simp)+
    moreover have "{8 * ?k..<8 * (?k + length hdr)} \<union> {8 * (?k + 2)..<8 * (?k + 2 + ?n)} = {8 * ?k..<off'}"
      using ivl_join [of "8 * ?k" "8 * (?k + 2)" off'] lh o by simp
    ultimately show "overwrites n {8 * ?k..<off'} ?F" by simp
    fix pre b post :: "byte list" assume b: "length b = n"
    have 1: "put_bytes (pre @ b @ post) (8 * length pre + off) 2 hdr = Inr (pre @ put_at ?k hdr b @ post)"
      using lh fit(1) b by (intro put_bytes_at) simp_all
    have 2: "put_bytes (pre @ put_at ?k hdr b @ post) (8 * length pre + 8 * (?k + 2)) ?n bs =
        Inr (pre @ put_at (?k + 2) bs (put_at ?k hdr b) @ post)"
      using lh fit b by (intro put_bytes_at_byte) simp_all
    have e: "8 * (length pre + ?k + 2) = 8 * length pre + 8 * (?k + 2)" by simp
    show "pack_blob bs (pre @ b @ post) (8 * length pre + off) = Inr (pre @ ?F b @ post, 8 * length pre + off')"
      unfolding pack_blob_def Let_def h mu_set_bytes_eq mu_bytes_shift mu_bytes_mult rbind_simps 1 e 2 using o by simp
  qed
  then show ?thesis by blast
qed

lemma pack_items_local:
  assumes "pack_items inner vs buf (8 * k) = Inr (c, off')" and "off' \<le> 8 * n" and "k \<le> length buf"
  shows "\<exists>F. local_step (pack_items inner vs) n (8 * k) {8 * k..<off'} F off'"
  using assms
proof (induction vs arbitrary: buf k)
  case Nil
  then have "local_step (pack_items inner []) n (8 * k) {8 * k..<off'} (\<lambda>b. b) off'" by (simp add: local_step_def overwrites_id)
  then show ?case by blast
next
  case (Cons v vs)
  have fit: "8 * k \<le> 8 * length buf" using Cons.prems(3) by simp
  obtain f where f: "type_fmt inner = Inr f" and o: "off' = 8 * (k + length (v # vs) * fmt_width f)"
    using pack_items_spec [OF Cons.prems(1) refl fit] by auto
  let ?w = "fmt_width f"
  have w: "k + ?w \<le> n" using o Cons.prems(2) by simp
  obtain bs where bs: "struct_pack f v = Inr bs" using Cons.prems(1) f by (auto simp: rbind_Inr_iff)
  have l: "length bs = ?w" by (rule struct_pack_width [OF bs])
  have s: "type_size inner = Inr (8 * ?w)" by (rule type_fmt_size [OF f])
  obtain buf' where b: "put_bytes buf (8 * k) ?w bs = Inr buf'" "pack_items inner vs buf' (8 * (k + ?w)) = Inr (c, off')"
    using Cons.prems(1) by (auto simp: f bs s rbind_Inr_iff mu_add_def)
  have "k + ?w \<le> length buf'" using put_bytes_spec(1) [OF b(1) l fit] by (simp add: appends_def)
  from Cons.IH [OF b(2) Cons.prems(2) this] obtain F where F: "local_step (pack_items inner vs) n (8 * (k + ?w)) {8 * (k + ?w)..<off'} F off'" by blast
  have "local_step (pack_items inner (v # vs)) n (8 * k) {8 * k..<off'} (\<lambda>b. F (put_at k bs b)) off'"
    unfolding local_step_def
  proof (intro conjI allI impI)
    have "overwrites n ({8 * k..<8 * (k + length bs)} \<union> {8 * (k + ?w)..<off'}) (\<lambda>b. F (put_at k bs b))"
    proof (rule overwrites_comp [where F = "put_at k bs" and G = F])
      show "overwrites n {8 * k..<8 * (k + length bs)} (put_at k bs)" by (rule overwrites_put_at) (use w l in simp)
      show "overwrites n {8 * (k + ?w)..<off'} F" using F by (simp add: local_step_def)
    qed
    moreover have "{8 * k..<8 * (k + length bs)} \<union> {8 * (k + ?w)..<off'} = {8 * k..<off'}"
      using ivl_join [of "8 * k" "8 * (k + ?w)" off'] l o by simp
    ultimately show "overwrites n {8 * k..<off'} (\<lambda>b. F (put_at k bs b))" by simp
    fix pre b post :: "byte list" assume b: "length b = n"
    have "put_bytes (pre @ b @ post) (8 * length pre + 8 * k) ?w bs = Inr (pre @ put_at k bs b @ post)"
      using w l b by (intro put_bytes_at_byte) simp_all
    then show "pack_items inner (v # vs) (pre @ b @ post) (8 * length pre + 8 * k) = Inr (pre @ F (put_at k bs b) @ post, 8 * length pre + off')"
      using F w l b by (simp add: local_step_def f bs s mu_add_def add.assoc)
  qed
  then show ?case by blast
qed

lemma pack_list_local:
  assumes "pack_list args v buf off = Inr (c, off')" and "off' \<le> 8 * n" and "off \<le> 8 * length buf"
  shows "\<exists>F. local_step (pack_list args v) n off {8 * mu_bytes off..<off'} F off'"
proof -
  let ?k = "mu_bytes off"
  have le: "8 * (?k + 2) \<le> off'" using pack_list_spec [OF assms(1,3)] by blast
  then have k: "?k + 2 \<le> n" using assms(2) by simp
  obtain vs inner s hdr c1 where v: "v = VList vs" "args = [inner]" "type_size inner = Inr s"
    and h: "struct_pack Fmt_H (VInt (int (length vs * mu_bytes s))) = Inr hdr"
    and p: "put_bytes buf off 2 hdr = Inr c1" "pack_items inner vs c1 (8 * (?k + 2)) = Inr (c, off')"
    using assms(1) by (auto simp: pack_list_def rbind_Inr_iff mu_set_bytes_eq split: pyval.splits list.splits)
  note lh = u16_header [OF h]
  have "?k + 2 \<le> length c1" using put_bytes_spec(1) [OF p(1) _ assms(3)] lh by (simp add: appends_def)
  from pack_items_local [OF p(2) assms(2) this] obtain F where F: "local_step (pack_items inner vs) n (8 * (?k + 2)) {8 * (?k + 2)..<off'} F off'"
    by blast
  have "local_step (pack_list args v) n off {8 * ?k..<off'} (\<lambda>b. F (put_at ?k hdr b)) off'"
    unfolding local_step_def
  proof (intro conjI allI impI)
    have "overwrites n ({8 * ?k..<8 * (?k + length hdr)} \<union> {8 * (?k + 2)..<off'}) (\<lambda>b. F (put_at ?k hdr b))"
    proof (rule overwrites_comp [where F = "put_at ?k hdr" and G = F])
      show "overwrites n {8 * ?k..<8 * (?k + length hdr)} (put_at ?k hdr)" by (rule overwrites_put_at) (use k lh in simp)
      show "overwrites n {8 * (?k + 2)..<off'} F" using F by (simp add: local_step_def)
    qed
    moreover have "{8 * ?k..<8 * (?k + length hdr)} \<union> {8 * (?k + 2)..<off'} = {8 * ?k..<off'}"
      using ivl_join [of "8 * ?k" "8 * (?k + 2)" off'] le lh by simp
    ultimately show "overwrites n {8 * ?k..<off'} (\<lambda>b. F (put_at ?k hdr b))" by simp
    fix pre b post :: "byte list" assume b: "length b = n"
    have 1: "put_bytes (pre @ b @ post) (8 * length pre + off) 2 hdr = Inr (pre @ put_at ?k hdr b @ post)"
      using lh k b by (intro put_bytes_at) simp_all
    have "length (put_at ?k hdr b) = n" using k lh b by simp
    then have 2: "pack_items inner vs (pre @ put_at ?k hdr b @ post) (8 * length pre + 8 * (?k + 2)) =
        Inr (pre @ F (put_at ?k hdr b) @ post, 8 * length pre + off')"
      using F unfolding local_step_def by blast
    have e: "8 * (length pre + ?k + 2) = 8 * length pre + 8 * (?k + 2)" by simp
    show "pack_list args v (pre @ b @ post) (8 * length pre + off) = Inr (pre @ F (put_at ?k hdr b) @ post, 8 * length pre + off')"
      by (simp only: pack_list_def v pyval.case list.case rbind_simps h 1 2 mu_set_bytes_eq mu_bytes_shift e)
  qed
  then show ?thesis by blast
qed

lemma mu_byte_align_shift: "mu_byte_align (8 * n + off) = 8 * n + mu_byte_align off"
  by (simp add: mu_byte_align_eq mu_bytes_shift)

text \<open>A step behind the alignment to a byte.\<close>

lemma local_step_align:
  assumes "local_step f n (8 * mu_bytes off) D F off'"
  shows "local_step (\<lambda>buf off. f buf (mu_byte_align off)) n off D F off'"
  using assms by (simp add: local_step_def mu_byte_align_shift) (simp add: mu_byte_align_eq)

text \<open>Where the bits of a value begin: bit fields follow each other, everything else begins at a byte.\<close>

fun start_of :: "ctype \<Rightarrow> memunit \<Rightarrow> memunit" where
  "start_of (TBitU _) off = off"
| "start_of (TEnum _ (BBitU _) _) off = off"
| "start_of _ off = 8 * mu_bytes off"

lemma pack_value_local:
  assumes "pack_value t v buf off = Inr (c, off')" and "off' \<le> 8 * n" and "off \<le> 8 * length buf" and "\<not> is_compost_struct t"
  shows "\<exists>F. local_step (pack_value t v) n off {start_of t off..<off'} F off'"
proof (cases t)
  case TStr
  then obtain bs where bs: "py_str_encode v = Inr bs" "pack_blob bs buf (8 * mu_bytes off) = Inr (c, off')"
    using assms(1) by (auto simp: Let_def rbind_Inr_iff mu_byte_align_eq py_bytes_def)
  have "8 * mu_bytes off \<le> 8 * length buf" using assms(3) by (simp add: mu_bytes_le_iff)
  then obtain F where F: "local_step (pack_blob bs) n (8 * mu_bytes off) {8 * mu_bytes off..<off'} F off'"
    using pack_blob_local [OF bs(2) assms(2)] by auto
  from local_step_align [OF F] have "local_step (pack_value TStr v) n off {8 * mu_bytes off..<off'} F off'"
    by (rule local_step_cong) (simp add: bs(1) Let_def py_bytes_def)
  then show ?thesis using TStr by auto
next
  case TBytes
  then obtain bs where bs: "py_bytes v = Inr bs" "pack_blob bs buf (8 * mu_bytes off) = Inr (c, off')"
    using assms(1) by (auto simp: Let_def rbind_Inr_iff mu_byte_align_eq)
  have "8 * mu_bytes off \<le> 8 * length buf" using assms(3) by (simp add: mu_bytes_le_iff)
  then obtain F where F: "local_step (pack_blob bs) n (8 * mu_bytes off) {8 * mu_bytes off..<off'} F off'"
    using pack_blob_local [OF bs(2) assms(2)] by auto
  from local_step_align [OF F] have "local_step (pack_value TBytes v) n off {8 * mu_bytes off..<off'} F off'"
    by (rule local_step_cong) (simp add: bs(1) Let_def)
  then show ?thesis using TBytes by auto
next
  case (TList args)
  then have l: "pack_list args v buf (8 * mu_bytes off) = Inr (c, off')" using assms(1) by (simp add: mu_byte_align_eq)
  have "8 * mu_bytes off \<le> 8 * length buf" using assms(3) by (simp add: mu_bytes_le_iff)
  then obtain F where F: "local_step (pack_list args v) n (8 * mu_bytes off) {8 * mu_bytes off..<off'} F off'"
    using pack_list_local [OF l assms(2)] by auto
  from local_step_align [OF F] have "local_step (pack_value (TList args) v) n off {8 * mu_bytes off..<off'} F off'"
    by (rule local_step_cong) simp
  then show ?thesis using TList by auto
next
  case (TBitU w)
  then obtain F where "local_step (pack_bitu w v) n off {off..<off'} F off'" using pack_bitu_local [of w v buf off c off'] assms by auto
  then have "local_step (pack_value (TBitU w) v) n off {off..<off'} F off'" by (rule local_step_cong) simp
  then show ?thesis using TBitU by auto
next
  case (TNum k)
  then obtain F where "local_step (pack_num k v) n off {8 * mu_bytes off..<off'} F off'"
    using pack_num_local [of k v buf off c off'] assms by auto
  then have "local_step (pack_value (TNum k) v) n off {8 * mu_bytes off..<off'} F off'" by (rule local_step_cong) simp
  then show ?thesis using TNum by auto
next
  case (TEnum m b ms)
  show ?thesis
  proof (cases b)
    case (BNum k)
    obtain F where "local_step (pack_num k v) n off {8 * mu_bytes off..<off'} F off'"
      using pack_num_local [of k v buf off c off'] assms TEnum BNum by auto
    then have "local_step (pack_value (TEnum m (BNum k) ms) v) n off {8 * mu_bytes off..<off'} F off'" by (rule local_step_cong) simp
    then show ?thesis using TEnum BNum by auto
  next
    case (BBitU w)
    obtain F where "local_step (pack_bitu w v) n off {off..<off'} F off'"
      using pack_bitu_local [of w v buf off c off'] assms TEnum BBitU by auto
    then have "local_step (pack_value (TEnum m (BBitU w) ms) v) n off {off..<off'} F off'" by (rule local_step_cong) simp
    then show ?thesis using TEnum BBitU by auto
  next
    case BNone
    then have "{start_of t off..<off'} = {}" using assms(1) mu_bytes_bounds(1) [of off] TEnum by simp
    then show ?thesis using BNone TEnum assms(1) by (auto simp: local_step_def overwrites_id intro: exI [of _ "\<lambda>b. b"])
  qed
qed (use assms in auto)

text \<open>Where a value ends, known from packing it.\<close>

lemma pack_value_end_packed:
  assumes "pack_value t v buf off = Inr (c, off')" and "off \<le> 8 * length buf" and "\<not> is_compost_struct t"
    and "t = TBytes \<Longrightarrow> \<exists>bs. v = VBytes bs"
  shows "off' = end_of t v off"
proof (cases t)
  case (TNum k)
  then show ?thesis using assms(1) pack_num_spec [of k v buf off, OF _ assms(2)] by (auto simp: num_size_width)
next
  case (TBitU w)
  then show ?thesis using assms(1) pack_bitu_spec [of w v buf off, OF _ assms(2)] by auto
next
  case (TEnum n b ms)
  then show ?thesis
    using assms(1) pack_bitu_spec [of _ v buf off, OF _ assms(2)] pack_num_spec [of _ v buf off, OF _ assms(2)]
    by (cases b) (auto simp: num_size_width)
next
  case TStr
  then obtain s bs where "v = VStr s" "str_encode s = Inr bs" "pack_blob bs buf (8 * mu_bytes off) = Inr (c, off')"
    using assms(1) by (auto simp: Let_def rbind_Inr_iff mu_byte_align_eq py_str_encode_def py_bytes_def split: pyval.splits)
  then show ?thesis
    using TStr assms(2) pack_blob_spec [of bs buf "8 * mu_bytes off"] by (auto simp: blob_len_def mu_bytes_le_iff)
next
  case TBytes
  then obtain bs where "v = VBytes bs" "pack_blob bs buf (8 * mu_bytes off) = Inr (c, off')"
    using assms(1,4) by (auto simp: Let_def rbind_Inr_iff mu_byte_align_eq py_bytes_def)
  then show ?thesis
    using TBytes assms(2) pack_blob_spec [of bs buf "8 * mu_bytes off"] by (auto simp: blob_len_def mu_bytes_le_iff)
next
  case (TList args)
  then have "pack_list args v buf (8 * mu_bytes off) = Inr (c, off')" using assms(1) by (simp add: mu_byte_align_eq)
  moreover have "8 * mu_bytes off \<le> 8 * length buf" using assms(2) by (simp add: mu_bytes_le_iff)
  ultimately show ?thesis
    using pack_list_spec [of args v buf "8 * mu_bytes off" c off'] type_fmt_size by (fastforce simp: TList blob_len_def)
qed (use assms in auto)

text \<open>The bits of the members of a structure; the others are padding.\<close>

fun data_bits :: "members \<Rightarrow> pyval list \<Rightarrow> memunit \<Rightarrow> nat set" where
  "data_bits ((_, t) # ms) (v # vs) off = {start_of t off..<end_of t v off} \<union> data_bits ms vs (end_of t v off)"
| "data_bits _ _ _ = {}"

definition packable :: "members \<Rightarrow> pyval list \<Rightarrow> bool" where
  "packable ms vs \<longleftrightarrow> length ms = length vs \<and>
     list_all (\<lambda>((n, t), v). \<not> is_compost_struct t \<and> (t = TBytes \<longrightarrow> (\<exists>bs. v = VBytes bs))) (zip ms vs)"

lemma packable_Cons: "packable ((n, t) # ms) (v # vs) \<longleftrightarrow>
    \<not> is_compost_struct t \<and> (t = TBytes \<longrightarrow> (\<exists>bs. v = VBytes bs)) \<and> packable ms vs"
  by (auto simp: packable_def)

lemma pack_members_local:
  "pack_members ms vs buf off = Inr (c, off') \<Longrightarrow> off' \<le> 8 * n \<Longrightarrow> off \<le> 8 * length buf \<Longrightarrow> packable ms vs \<Longrightarrow>
   \<exists>F. local_step (pack_members ms vs) n off (data_bits ms vs off) F off'"
proof (induction ms arbitrary: vs buf off)
  case Nil
  then have "vs = []" "off' = off" by (auto simp: packable_def)
  then show ?case by (auto simp: local_step_def overwrites_id intro: exI [of _ "\<lambda>b. b"])
next
  case (Cons m ms)
  obtain x t where m: "m = (x, t)" by fastforce
  obtain v vs' where vs: "vs = v # vs'" using Cons.prems(4) by (cases vs) (auto simp: packable_def)
  have ok: "\<not> is_compost_struct t" "t = TBytes \<Longrightarrow> \<exists>bs. v = VBytes bs" "packable ms vs'"
    using Cons.prems(4) by (simp_all add: m vs packable_Cons)
  obtain b1 o1 where 2: "pack_value t v buf off = Inr (b1, o1)" "pack_members ms vs' b1 o1 = Inr (c, off')"
    using Cons.prems(1) by (auto simp: m vs rbind_Inr_iff)
  note ap = pack_value_appends(1) [OF 2(1) Cons.prems(3)]
  have o1: "o1 \<le> off'" "o1 \<le> 8 * length b1"
    using pack_value_appends(2) [OF 2(2) appends_fit [OF ap]] appends_fit [OF ap] by (simp_all add: appends_def)
  have e: "o1 = end_of t v off" by (rule pack_value_end_packed [OF 2(1) Cons.prems(3) ok(1,2)])
  obtain F where F: "local_step (pack_value t v) n off {start_of t off..<o1} F o1"
    using pack_value_local [OF 2(1) _ Cons.prems(3) ok(1)] o1(1) Cons.prems(2) by (meson le_trans)
  obtain G where "local_step (pack_members ms vs') n o1 (data_bits ms vs' o1) G off'"
    using Cons.IH [OF 2(2) Cons.prems(2) o1(2) ok(3)] by blast
  from local_step_trans [OF F this] have "local_step (pack_members (m # ms) vs) n off (data_bits (m # ms) vs off) (\<lambda>b. G (F b)) off'"
    unfolding m vs data_bits.simps e by (rule local_step_cong) simp
  then show ?case by blast
qed

text \<open>
  A structure that Python packs into a payload, packed anywhere: around the bytes of the payload nothing changes, the bits
  of the members are those of the payload, and the padding, which is zero in the payload, stays as it was.
\<close>

definition holds_payload :: "nat set \<Rightarrow> byte list \<Rightarrow> byte list \<Rightarrow> byte list \<Rightarrow> bool" where
  "holds_payload D bs old new \<longleftrightarrow> length new = length bs \<and>
     (\<forall>i < 8 * length bs. buf_bit new i = (if i \<in> D then buf_bit bs i else buf_bit old i))"

lemma pack_payload_elsewhere:
  assumes "pack_payload [TStruct m ms] [v] = Inr bs" and "astuple v = Inr vs" and "packable ms vs"
  shows "length bs \<le> 1024 \<and> (\<exists>F off'. mu_bytes off' = length bs \<and>
    (\<forall>old. length old = length bs \<longrightarrow> holds_payload (data_bits ms vs 0) bs old (F old)) \<and> F (replicate (length bs) 0) = bs \<and>
    (\<forall>pre old post. length old = length bs \<longrightarrow>
       pack_value (TStruct m ms) v (pre @ old @ post) (8 * length pre) = Inr (pre @ F old @ post, 8 * length pre + off')))"
proof -
  obtain c off' where p: "pack_value (TStruct m ms) v (replicate 1024 0) 0 = Inr (c, off')" and bs: "bs = slice 0 (mu_bytes off') c"
    using assms by (auto simp: pack_payload_def Let_def rbind_Inr_iff)
  have z: "mu_bytes 0 = 0" using mu_bytes_mult [of 0] by simp
  then have pm: "pack_members ms vs (replicate 1024 0) 0 = Inr (c, off')"
    using p assms(2) by (simp add: Let_def mu_byte_align_eq)
  have ap: "appends (replicate 1024 0) 0 c off'" by (rule pack_value_appends(1) [OF p]) simp
  then have l: "length c = 1024" "mu_bytes off' \<le> 1024" by (simp_all add: appends_def mu_bytes_le_iff)
  then have n: "length bs = mu_bytes off'" by (simp add: bs slice_def)
  have "off' \<le> 8 * length bs" using mu_bytes_bounds(1) [of off'] n by simp
  then obtain F where F: "local_step (pack_members ms vs) (length bs) 0 (data_bits ms vs 0) F off'"
    using pack_members_local [OF pm _ _ assms(3)] by auto
  let ?z = "replicate (length bs) 0 :: byte list"
  have r: "replicate 1024 0 = ?z @ replicate (1024 - length bs) 0" using l(2) n by (simp flip: replicate_add)
  from local_stepD [OF F, of ?z] pm r have "c = F ?z @ replicate (1024 - length bs) 0" by simp
  moreover have "length (F ?z) = length bs" using local_step_length [OF F] by simp
  ultimately have bz: "F ?z = bs" using bs n by (simp add: slice_def)
  have "holds_payload (data_bits ms vs 0) bs old (F old)" if old: "length old = length bs" for old
    unfolding holds_payload_def
  proof (intro conjI allI impI)
    show "length (F old) = length bs" by (rule local_step_length [OF F old])
    fix i assume "i < 8 * length bs"
    then have "buf_bit (F old) i = (if i \<in> data_bits ms vs 0 then buf_bit (F ?z) i else buf_bit old i)"
      using F old unfolding local_step_def overwrites_def by (metis length_replicate)
    then show "buf_bit (F old) i = (if i \<in> data_bits ms vs 0 then buf_bit bs i else buf_bit old i)" unfolding bz .
  qed
  moreover have "pack_value (TStruct m ms) v (pre @ old @ post) (8 * length pre) = Inr (pre @ F old @ post, 8 * length pre + off')"
    if "length old = length bs" for pre old post
    using F that assms(2) z by (simp add: local_step_def Let_def mu_byte_align_eq)
  ultimately show ?thesis using n l(2) bz by (intro conjI exI [of _ F] exI [of _ off']) simp_all
qed

end
