(* ===== verification/CStructs.thy ===== *)
theory CStructs
  imports CSerdes PayloadShift
begin

text \<open>
  Structures in C memory: storing a structure and loading it back gives the same structure, for
  all supported types, nested structures included; and a structure without inner structures is
  stored as the Python codec packs it.
\<close>

section \<open>Bits of memory\<close>

text \<open>Only the bits from \<open>a\<close> up to \<open>b\<close> may differ; all bits there are the same.\<close>

definition keeps :: "nat \<Rightarrow> nat \<Rightarrow> cmem \<Rightarrow> cmem \<Rightarrow> bool" where
  "keeps a b m m' \<longleftrightarrow> length m' = length m \<and> (\<forall>i < 8 * length m. i < a \<or> b \<le> i \<longrightarrow> buf_bit m' i = buf_bit m i)"

definition same_bits :: "nat \<Rightarrow> nat \<Rightarrow> cmem \<Rightarrow> cmem \<Rightarrow> bool" where
  "same_bits a b m m' \<longleftrightarrow> length m' = length m \<and> (\<forall>i. a \<le> i \<and> i < b \<longrightarrow> buf_bit m' i = buf_bit m i)"

lemma keeps_refl [simp]: "keeps a b m m"
  by (simp add: keeps_def)

lemma keeps_trans: "keeps a b m m' \<Longrightarrow> keeps c d m' m'' \<Longrightarrow> keeps (min a c) (max b d) m m''"
  by (auto simp: keeps_def)

lemma keeps_mono: "keeps a b m m' \<Longrightarrow> a' \<le> a \<Longrightarrow> b \<le> b' \<Longrightarrow> keeps a' b' m m'"
  by (auto simp: keeps_def)

lemma same_bits_sub: "same_bits a b m m' \<Longrightarrow> a \<le> a' \<Longrightarrow> b' \<le> b \<Longrightarrow> same_bits a' b' m m'"
  by (auto simp: same_bits_def)

lemma same_bits_keeps:
  "same_bits a b m' m'' \<Longrightarrow> keeps c d m m' \<Longrightarrow> b \<le> 8 * length m \<Longrightarrow> b \<le> c \<Longrightarrow> same_bits a b m m''"
  by (auto simp: same_bits_def keeps_def)

lemma same_bits_slice:
  "same_bits (8 * p) (8 * (p + n)) m m' \<Longrightarrow> p + n \<le> length m \<Longrightarrow> slice p n m' = slice p n m"
  by (rule slice_eqI) (auto simp: same_bits_def)

lemma keeps_slice:
  "keeps a b m m' \<Longrightarrow> 8 * (p + n) \<le> a \<or> b \<le> 8 * p \<Longrightarrow> p + n \<le> length m \<Longrightarrow> slice p n m' = slice p n m"
  by (rule slice_eqI) (auto simp: keeps_def)

lemma buf_bit_drop: "buf_bit (drop p m) i = buf_bit m (8 * p + i)" if "p \<le> length m"
  using that by (simp add: buf_bit_def)

lemma keeps_put:
  assumes "p + length bs \<le> length m"
  shows "keeps (8 * p) (8 * (p + length bs)) m (put m p bs)"
proof -
  have "buf_bit (put m p bs) i = buf_bit m i" if i: "i < 8 * length m" "i < 8 * p \<or> 8 * (p + length bs) \<le> i" for i
  proof (cases "i < 8 * p")
    case True
    then show ?thesis using assms by (simp add: put_def buf_bit_append buf_bit_take)
  next
    case False
    then have ge: "8 * (p + length bs) \<le> i" using i by simp
    then have "buf_bit (put m p bs) i = buf_bit (drop (p + length bs) m) (i - 8 * (p + length bs))"
      using assms buf_bit_append_right [of "take p m @ bs" i "drop (p + length bs) m"]
      by (simp add: put_def)
    then show ?thesis using assms ge by (simp add: buf_bit_drop)
  qed
  then show ?thesis using assms by (simp add: keeps_def)
qed

section \<open>Bit fields of a structure\<close>

lemma bits_store:
  assumes "c_field_ok w off" and fit: "8 * p + off + w \<le> 8 * length m"
  shows "\<exists>m'. bits_access Store off w m p (CBit x) = Some (m', p, CBit x) \<and> keeps (8 * p + off) (8 * p + off + w) m m' \<and>
    (\<forall>i. 8 * p + off \<le> i \<and> i < 8 * p + off + w \<longrightarrow> buf_bit m' i = bit (uint x) (8 * p + off + w - 1 - i))"
proof -
  have p: "p \<le> length m" using fit by simp
  have f: "off + w \<le> 8 * length (drop p m)" using fit by simp
  obtain d where d: "compost_bituint_store (drop p m) x (of_nat off) (of_nat w) = Some d"
    "length d = length m - p" "\<And>i. i < 8 * (length m - p) \<Longrightarrow>
      buf_bit d i = (if off \<le> i \<and> i < off + w then bit (uint x) (off + w - 1 - i) else buf_bit (drop p m) i)"
    using c_store_bits [OF assms(1) f, of "uint x"] by (auto simp: c_store_def split: option.splits)
  let ?m = "take p m @ d"
  have b: "buf_bit ?m i = (if i < 8 * p then buf_bit m i else buf_bit d (i - 8 * p))" for i
    using p by (simp add: buf_bit_append buf_bit_take buf_bit_append_right)
  have "keeps (8 * p + off) (8 * p + off + w) m ?m" using p d(2,3) by (auto simp: keeps_def b buf_bit_drop)
  moreover have "buf_bit ?m i = bit (uint x) (8 * p + off + w - 1 - i)" if "8 * p + off \<le> i" "i < 8 * p + off + w" for i
  proof -
    have "off \<le> i - 8 * p" "i - 8 * p < off + w" "i - 8 * p < 8 * (length m - p)" "\<not> i < 8 * p"
      "off + w - 1 - (i - 8 * p) = 8 * p + off + w - 1 - i" using that fit p by linarith+
    then show ?thesis using d(3) by (simp add: b)
  qed
  ultimately show ?thesis using p d(1) by (auto simp: bits_access_def)
qed

lemma bits_load:
  assumes "c_field_ok w off" and fit: "8 * p + off + w \<le> 8 * length m" and x: "uint x < 2 ^ w"
    and bits: "\<And>i. 8 * p + off \<le> i \<Longrightarrow> i < 8 * p + off + w \<Longrightarrow> buf_bit m i = bit (uint x) (8 * p + off + w - 1 - i)"
  shows "bits_access Load off w m p c = Some (m, p, CBit x)"
proof -
  have p: "p \<le> length m" using fit by simp
  have f: "off + w \<le> 8 * length (drop p m)" using fit by simp
  obtain y where y: "compost_bituint_load (drop p m) (of_nat off) (of_nat w) = Some y"
    "\<And>k. bit (uint y) k = (k < w \<and> buf_bit (drop p m) (off + w - 1 - k))"
    using c_load_bits [OF assms(1) f] by (auto simp: c_load_def split: option.splits)
  have "uint y = uint x"
  proof (rule bit_eqI)
    fix k
    have "take_bit w (uint x) = uint x" using x by (simp add: take_bit_int_eq_self)
    then have hi: "\<not> k < w \<Longrightarrow> \<not> bit (uint x) k" by (metis bit_take_bit_iff)
    define j where "j = off + w - 1 - k"
    have "buf_bit m (8 * p + j) = bit (uint x) k" if "k < w"
    proof -
      have "8 * p + off \<le> 8 * p + j" "8 * p + j < 8 * p + off + w" "8 * p + off + w - 1 - (8 * p + j) = k"
        using that unfolding j_def by linarith+
      then show ?thesis using bits [of "8 * p + j"] by metis
    qed
    then show "bit (uint y) k = bit (uint x) k"
      using y(2) [of k] hi buf_bit_drop [OF p, of j] unfolding j_def [symmetric] by blast
  qed
  then have "y = x" by (rule word_uint_eqI)
  then show ?thesis using y(1) p by (simp add: bits_access_def)
qed


section \<open>Structures stored and loaded\<close>

text \<open>The number of bytes a value takes; a structure starts at a byte boundary and ends at one.\<close>

fun slice_elem :: "ctype \<Rightarrow> numty option" where
  "slice_elem TStr = Some U8"
| "slice_elem TBytes = Some U8"
| "slice_elem (TList [TNum k]) = Some k"
| "slice_elem _ = None"

fun num_of_type :: "ctype \<Rightarrow> numty option" where
  "num_of_type (TNum k) = Some k"
| "num_of_type (TEnum _ (BNum k) _) = Some k"
| "num_of_type _ = None"

fun csize :: "ctype \<Rightarrow> cval \<Rightarrow> nat" and csize_members :: "members \<Rightarrow> memunit \<Rightarrow> (string \<times> cval) list \<Rightarrow> nat" where
  "csize (TStruct _ ms) c = (case c of CStruct vs \<Rightarrow> csize_members ms 0 vs | _ \<Rightarrow> 0)"
| "csize t c =
     (case num_of_type t of
        Some k \<Rightarrow> csizeof k
      | None \<Rightarrow> (case (slice_elem t, c) of (Some k, CSl s) \<Rightarrow> 2 + csizeof k * unat (slen s) | _ \<Rightarrow> 0))"
| "csize_members [] off vs = mu_bytes off"
| "csize_members ((n, t) # ms) off vs =
     (case bitu_width t of
        Some w \<Rightarrow> csize_members ms (off + w) vs
      | None \<Rightarrow> mu_bytes off + (case map_of vs n of Some c \<Rightarrow> csize t c | None \<Rightarrow> 0) + csize_members ms 0 vs)"

text \<open>A slice that lies in memory of length \<open>l\<close> outside the addresses from \<open>lo\<close> up to \<open>hi\<close>.\<close>

definition placed :: "nat \<Rightarrow> nat \<Rightarrow> nat \<Rightarrow> numty \<Rightarrow> c_slice \<Rightarrow> bool" where
  "placed l lo hi k s \<longleftrightarrow> ptr s \<noteq> None \<and> slice_end k s \<le> l \<and> csizeof k * unat (slen s) < 65536 \<and>
     (slice_end k s \<le> lo \<or> hi \<le> the (ptr s))"

text \<open>Values of a type whose slices satisfy \<open>P\<close>.\<close>

fun cwt :: "(numty \<Rightarrow> c_slice \<Rightarrow> bool) \<Rightarrow> ctype \<Rightarrow> cval \<Rightarrow> bool"
  and cwt_members :: "(numty \<Rightarrow> c_slice \<Rightarrow> bool) \<Rightarrow> members \<Rightarrow> (string \<times> cval) list \<Rightarrow> bool" where
  "cwt P (TStruct _ ms) c = (case c of CStruct vs \<Rightarrow> cwt_members P ms vs | _ \<Rightarrow> False)"
| "cwt P t c =
     (case c of
        CNum x \<Rightarrow> (case num_of_type t of Some k \<Rightarrow> cnum_width x = csizeof k | None \<Rightarrow> False)
      | CBit x \<Rightarrow> (case bitu_width t of Some w \<Rightarrow> w \<le> 32 \<and> uint x < 2 ^ w | None \<Rightarrow> False)
      | CSl s \<Rightarrow> (case slice_elem t of Some k \<Rightarrow> P k s | None \<Rightarrow> False)
      | _ \<Rightarrow> False)"
| "cwt_members P [] vs = True"
| "cwt_members P ((n, t) # ms) vs =
     ((case map_of vs n of Some c \<Rightarrow> cwt P t c | None \<Rightarrow> False) \<and> cwt_members P ms vs)"

text \<open>The same value in two memories: equal numbers and bit fields, slices with equal elements.\<close>

fun ceq :: "ctype \<Rightarrow> cmem \<Rightarrow> cval \<Rightarrow> cmem \<Rightarrow> cval \<Rightarrow> bool"
  and ceq_members :: "members \<Rightarrow> cmem \<Rightarrow> (string \<times> cval) list \<Rightarrow> cmem \<Rightarrow> (string \<times> cval) list \<Rightarrow> bool" where
  "ceq (TStruct _ ms) m c m' c' =
     (case (c, c') of (CStruct vs, CStruct vs') \<Rightarrow> ceq_members ms m vs m' vs' | _ \<Rightarrow> False)"
| "ceq t m c m' c' =
     (case (slice_elem t, c, c') of
        (Some k, CSl s, CSl s') \<Rightarrow> slice_in k m' s' \<and> slice_vals k m' s' = slice_vals k m s
      | _ \<Rightarrow> c' = c)"
| "ceq_members [] m vs m' vs' = (vs' = [])"
| "ceq_members ((n, t) # ms) m vs m' vs' =
     (case vs' of [] \<Rightarrow> False
      | (n', c') # r \<Rightarrow> n' = n \<and> (case map_of vs n of Some c \<Rightarrow> ceq t m c m' c' | None \<Rightarrow> False) \<and> ceq_members ms m vs m' r)"

text \<open>
  The statement for one value: storing succeeds, changes only its own bytes, and loading from
  any memory with these bytes gives the same value.
\<close>

definition stores_back :: "bool \<Rightarrow> ctype \<Rightarrow> cmem \<Rightarrow> cmem \<Rightarrow> caddr \<Rightarrow> cval \<Rightarrow> bool" where
  "stores_back self t m0 m p c \<longleftrightarrow>
     (\<exists>m'. access Store self t m p c = Some (m', p + csize t c, c) \<and> keeps (8 * p) (8 * (p + csize t c)) m m' \<and>
        (\<forall>m''. same_bits (8 * p) (8 * (p + csize t c)) m' m'' \<longrightarrow>
           (\<exists>c'. access Load self t m'' p (CStruct []) = Some (m'', p + csize t c, c') \<and> ceq t m0 c m'' c')))"

lemma stores_back_num:
  assumes "cnum_width x = csizeof k" and "p + csizeof k \<le> length m"
  shows "\<exists>m'. num_access Store k m p (CNum x) = Some (m', p + csizeof k, CNum x) \<and>
    keeps (8 * p) (8 * (p + csizeof k)) m m' \<and>
    (\<forall>m''. same_bits (8 * p) (8 * (p + csizeof k)) m' m'' \<longrightarrow>
       num_access Load k m'' p c = Some (m'', p + csizeof k, CNum x))"
proof -
  let ?m = "put m p (cnum_bytes x)"
  have "num_access Load k m'' p c = Some (m'', p + csizeof k, CNum x)"
    if s: "same_bits (8 * p) (8 * (p + csizeof k)) ?m m''" for m''
  proof -
    have "slice p (csizeof k) m'' = cnum_bytes x"
      using same_bits_slice [OF s] slice_put [of p "cnum_bytes x" m] assms by simp
    then show ?thesis
      using num_load_slice [of p k m''] s assms
      by (simp add: num_access_def same_bits_def cnum_bytes_decode cnum_of_val)
  qed
  then show ?thesis
    using assms keeps_put [of p "cnum_bytes x" m] by (auto simp: num_access_def num_store_put)
qed

lemma slice_store_placed:
  assumes pl: "placed (length m) lo hi k s" and n: "n = csizeof k * unat (slen s)"
    and p: "lo \<le> p" "p + (2 + n) \<le> hi" "hi \<le> length m"
  shows "compost_slice_store self k m p s =
    Some (put m p (be_encode 2 (int n) @ concat (map cnum_bytes (slice_vals k m s))), p + (2 + n))"
proof -
  obtain b where b: "ptr s = Some b" "b + n \<le> length m" "b + n \<le> lo \<or> hi \<le> b" "n < 65536"
    using pl n by (auto simp: placed_def slice_end_def)
  have i: "slice_in k m s" using b n by (simp add: slice_in_def slice_end_def)
  show ?thesis
  proof (cases "b = p")
    case False
    then show ?thesis
      using slice_store_put [OF i n b(4) _ b(1) False, of self] b p by auto
  next
    case True
    then have n0: "n = 0" using b(3) p by linarith
    then have "slen s = 0" using n csizeof_pos(1) [of k] by (simp add: unat_eq_zero)
    then show ?thesis
      using n0 b(1) True store_2 [of p m 0] p length_slice_vals [OF i]
      by (simp add: compost_slice_store_def Let_def)
  qed
qed

lemma stores_back_slice:
  assumes pl: "placed (length m) lo hi k s" and m0: "keeps (8 * lo) (8 * hi) m0 m"
    and p: "lo \<le> p" "p + (2 + n) \<le> hi" "hi \<le> length m" and n: "n = csizeof k * unat (slen s)"
  shows "\<exists>m'. slice_access Store self k m p (CSl s) = Some (m', p + (2 + n), CSl s) \<and>
    keeps (8 * p) (8 * (p + (2 + n))) m m' \<and>
    (\<forall>m''. same_bits (8 * p) (8 * (p + (2 + n))) m' m'' \<longrightarrow>
       (\<exists>s'. slice_access Load self k m'' p c = Some (m'', p + (2 + n), CSl s') \<and>
          slice_in k m'' s' \<and> slice_vals k m'' s' = slice_vals k m0 s))"
proof -
  obtain b where b: "ptr s = Some b" "b + n \<le> length m" "b + n \<le> lo \<or> hi \<le> b" "n < 65536"
    using pl n by (auto simp: placed_def slice_end_def)
  have i: "slice_in k m s" using b n by (simp add: slice_in_def slice_end_def)
  let ?data = "concat (map cnum_bytes (slice_vals k m s))"
  let ?bs = "be_encode 2 (int n) @ ?data" and ?s = "\<lparr>ptr = Some (p + 2), slen = slen s\<rparr>"
  have data: "?data = slice b n m" using slice_vals_bytes [OF i] b(1) n by simp
  have l: "length ?data = n" using b(2) unfolding data by simp
  have m0l: "length m0 = length m" using m0 by (simp add: keeps_def)
  have "slice b n m = slice b n m0"
    by (rule keeps_slice [OF m0]) (use b m0l in auto)
  then have d0: "?data = slice b n m0" using data by simp
  have "\<exists>s'. slice_access Load self k m'' p c = Some (m'', p + (2 + n), CSl s') \<and>
      slice_in k m'' s' \<and> slice_vals k m'' s' = slice_vals k m0 s"
    if s: "same_bits (8 * p) (8 * (p + (2 + n))) (put m p ?bs) m''" for m''
  proof -
    have m'': "length m'' = length m" using s p l by (simp add: same_bits_def)
    have at: "slice p (2 + n) m'' = ?bs"
      using same_bits_slice [OF s] slice_put [of p ?bs m] p l by simp
    have "compost_slice_load k m'' p = Some (?s, p + (2 + n))"
      using slice_load_put [OF l b(4) _ at, of k] m'' p n by (simp add: add.assoc)
    moreover have "slice (p + 2) n m'' = slice b n m0"
      using slice_slice [of 2 n "2 + n" p m''] l unfolding at d0 [symmetric] by (simp add: slice_def)
    then have "slice_vals k m'' ?s = slice_vals k m0 s"
      using b(1) n slice_vals_cong [of "p + 2" k "unat (slen s)" m'' b m0] by (simp add: slice_vals_def)
    moreover have "slice_in k m'' ?s" using m'' p n by (simp add: slice_in_def slice_end_def)
    ultimately show ?thesis by (auto simp: slice_access_def)
  qed
  moreover have "keeps (8 * p) (8 * (p + (2 + n))) m (put m p ?bs)"
    using keeps_put [of p ?bs m] p l by simp
  ultimately show ?thesis
    using slice_store_placed [OF pl n p] by (intro exI [of _ "put m p ?bs"]) (simp add: slice_access_def)
qed


definition members_back ::
  "bool \<Rightarrow> members \<Rightarrow> memunit \<Rightarrow> cmem \<Rightarrow> cmem \<Rightarrow> caddr \<Rightarrow> (string \<times> cval) list \<Rightarrow> bool" where
  "members_back self ms off m0 m p vs \<longleftrightarrow>
     (let e = p + csize_members ms off vs in 8 * p + off \<le> 8 * e \<and>
      (\<exists>m'. access_members Store self ms off m p vs = Some (m', e, vs) \<and> keeps (8 * p + off) (8 * e) m m' \<and>
        (\<forall>m'' acc. same_bits (8 * p + off) (8 * e) m' m'' \<longrightarrow>
           (\<exists>vs'. access_members Load self ms off m'' p acc = Some (m'', e, acc @ vs') \<and> ceq_members ms m0 vs m'' vs'))))"

lemma members_backE:
  assumes "members_back self ms off m0 m p vs"
  obtains m' where "8 * p + off \<le> 8 * (p + csize_members ms off vs)"
    and "access_members Store self ms off m p vs = Some (m', p + csize_members ms off vs, vs)"
    and "keeps (8 * p + off) (8 * (p + csize_members ms off vs)) m m'"
    and "\<And>m'' acc. same_bits (8 * p + off) (8 * (p + csize_members ms off vs)) m' m'' \<Longrightarrow>
      \<exists>vs'. access_members Load self ms off m'' p acc = Some (m'', p + csize_members ms off vs, acc @ vs') \<and>
        ceq_members ms m0 vs m'' vs'"
  using assms unfolding members_back_def Let_def by blast

text \<open>A value of a supported type, if the members of structures are stored and loaded.\<close>

lemma value_back:
  assumes sup: "c_supported t" and wt: "cwt (placed (length m) lo hi) t c"
    and m0: "keeps (8 * lo) (8 * hi) m0 m" and p: "lo \<le> p" "p + csize t c \<le> hi" "hi \<le> length m"
    and IH: "\<And>n ms vs. t = TStruct n ms \<Longrightarrow> c = CStruct vs \<Longrightarrow> members_back self ms 0 m0 m p vs"
  shows "stores_back self t m0 m p c"
proof (cases "is_compost_struct t")
  case True
  then obtain n ms where t: "t = TStruct n ms" by (cases t) auto
  then obtain vs where c: "c = CStruct vs" using wt by (auto split: cval.splits)
  show ?thesis
    using IH [OF t c] by (elim members_backE) (fastforce simp: stores_back_def t c)
next
  case False
  show ?thesis
  proof (cases "num_of_type t")
    case (Some k)
    then obtain x where c: "c = CNum x" "cnum_width x = csizeof k"
      and t: "access h self t = num_access h k" "csize t c = csizeof k" "\<And>m m' c'. ceq t m c m' c' = (c' = c)" for h
      using wt by (cases t rule: num_of_type.cases) (auto simp: fun_eq_iff split: cval.splits)
    show ?thesis
      using stores_back_num [OF c(2), of p m "CStruct []"] p t(2) unfolding stores_back_def t [unfolded c(1)] c(1)
      by auto
  next
    case None
    with sup False obtain k where k: "slice_elem t = Some k"
      by (cases t rule: c_supported.cases) auto
    with None False wt obtain s where c: "c = CSl s" "placed (length m) lo hi k s"
      and t: "access h self t = slice_access h self k" "csize t c = 2 + csizeof k * unat (slen s)"
        "\<And>m m' s'. ceq t m c m' (CSl s') = (slice_in k m' s' \<and> slice_vals k m' s' = slice_vals k m s)" for h
      by (cases t rule: slice_elem.cases) (auto simp: fun_eq_iff split: cval.splits)
    show ?thesis
      using stores_back_slice [OF c(2) m0 p(1) p(2) [unfolded t] p(3) refl, of self "CStruct []"] 
      unfolding stores_back_def t(1) t(2) [unfolded c(1)] c(1) by (metis t(3) c(1))
  qed
qed


lemma bits_back:
  assumes w: "w \<le> 32" "uint x < 2 ^ w" and fit: "8 * p + off + w \<le> 8 * hi" "hi \<le> length m"
    and small: "lo \<le> p" "8 * (hi - lo) < 2 ^ 32"
  shows "\<exists>m'. bits_access Store off w m p (CBit x) = Some (m', p, CBit x) \<and> keeps (8 * p + off) (8 * p + off + w) m m' \<and>
    (\<forall>m''. same_bits (8 * p + off) (8 * p + off + w) m' m'' \<longrightarrow> bits_access Load off w m'' p c = Some (m'', p, CBit x))"
proof -
  have ok: "c_field_ok w off" using w(1) fit(1) small by (simp add: c_field_ok_def)
  have f: "8 * p + off + w \<le> 8 * length m" using fit by linarith
  obtain m' where m': "bits_access Store off w m p (CBit x) = Some (m', p, CBit x)"
    "keeps (8 * p + off) (8 * p + off + w) m m'"
    "\<And>i. 8 * p + off \<le> i \<Longrightarrow> i < 8 * p + off + w \<Longrightarrow> buf_bit m' i = bit (uint x) (8 * p + off + w - 1 - i)"
    using bits_store [OF ok f, of x] by blast
  have "bits_access Load off w m'' p c = Some (m'', p, CBit x)"
    if "same_bits (8 * p + off) (8 * p + off + w) m' m''" for m''
    using that m'(2,3) f by (intro bits_load [OF ok _ w(2)]) (auto simp: same_bits_def keeps_def)
  with m' show ?thesis by blast
qed

lemma members_back_bits:
  assumes bw: "bitu_width t = Some w" and c: "map_of vs n = Some c" "cwt P t c"
    and p: "lo \<le> p" "p + csize_members ((n, t) # ms) off vs \<le> hi" "hi \<le> length m" "8 * (hi - lo) < 2 ^ 32"
    and m0: "keeps (8 * lo) (8 * hi) m0 m"
    and IH: "\<And>m. keeps (8 * lo) (8 * hi) m0 m \<Longrightarrow> members_back self ms (off + w) m0 m p vs"
  shows "members_back self ((n, t) # ms) off m0 m p vs"
proof -
  obtain x where x: "c = CBit x" "w \<le> 32" "uint x < 2 ^ w"
    using c(2) bw by (cases t rule: bitu_width.cases) (auto split: cval.splits)
  have cq: "ceq t m0 c m'' c' = (c' = c)" for m'' c'
    using bw by (cases t rule: bitu_width.cases) (auto simp: x(1))
  let ?e = "p + csize_members ms (off + w) vs"
  have e: "p + csize_members ((n, t) # ms) off vs = ?e" by (simp add: bw)
  have le: "8 * p + (off + w) \<le> 8 * ?e" using IH [OF m0] by (elim members_backE)
  moreover have "8 * ?e \<le> 8 * hi" using p(2) e by simp
  ultimately have fit: "8 * p + off + w \<le> 8 * hi" by simp
  obtain m1 where m1: "bits_access Store off w m p c = Some (m1, p, c)" "keeps (8 * p + off) (8 * p + off + w) m m1"
    "\<And>m'' d. same_bits (8 * p + off) (8 * p + off + w) m1 m'' \<Longrightarrow> bits_access Load off w m'' p d = Some (m'', p, c)"
  proof -
    obtain m1 where "bits_access Store off w m p c = Some (m1, p, c)" "keeps (8 * p + off) (8 * p + off + w) m m1"
      "\<And>m''. same_bits (8 * p + off) (8 * p + off + w) m1 m'' \<Longrightarrow> bits_access Load off w m'' p (CStruct []) = Some (m'', p, c)"
      using bits_back [OF x(2,3) fit p(3,1,4), of "CStruct []"] x(1) by blast
    moreover have "bits_access Load off w m'' p d = bits_access Load off w m'' p (CStruct [])" for m'' d
      by (simp add: bits_access_def)
    ultimately show thesis using that by metis
  qed
  have "keeps (8 * lo) (8 * hi) m m1" by (rule keeps_mono [OF m1(2)]) (use p(1) fit in simp_all)
  from keeps_trans [OF m0 this] have "keeps (8 * lo) (8 * hi) m0 m1" by simp
  from IH [OF this] obtain m' where m': "access_members Store self ms (off + w) m1 p vs = Some (m', ?e, vs)"
    "keeps (8 * p + (off + w)) (8 * ?e) m1 m'"
    "\<And>m'' acc. same_bits (8 * p + (off + w)) (8 * ?e) m' m'' \<Longrightarrow>
      \<exists>vs'. access_members Load self ms (off + w) m'' p acc = Some (m'', ?e, acc @ vs') \<and> ceq_members ms m0 vs m'' vs'"
    unfolding members_back_def Let_def by blast
  have "keeps (8 * p + off) (8 * ?e) m m'"
    by (rule keeps_mono [OF keeps_trans [OF m1(2) m'(2)]]) (use le in simp_all)
  moreover have "\<exists>vs'. access_members Load self ((n, t) # ms) off m'' p acc = Some (m'', ?e, acc @ vs') \<and>
      ceq_members ((n, t) # ms) m0 vs m'' vs'" if s: "same_bits (8 * p + off) (8 * ?e) m' m''" for m'' acc
  proof -
    have l1: "length m1 = length m" using m1(2) by (simp add: keeps_def)
    have "same_bits (8 * p + off) (8 * p + off + w) m1 m''"
      by (rule same_bits_keeps [OF same_bits_sub [OF s] m'(2)]) (use le fit p(3) l1 in simp_all)
    from m1(3) [OF this, of "CStruct []"] m'(3) [OF same_bits_sub [OF s], of "acc @ [(n, c)]"] le c(1)
    show ?thesis by (auto simp: bw cq)
  qed
  ultimately show ?thesis
    using m1(1) m'(1) c(1) le unfolding members_back_def e Let_def by (auto simp: bw)
qed


lemma members_back_value:
  assumes bw: "bitu_width t = None" and c: "map_of vs n = Some c"
    and p: "lo \<le> p" "p + csize_members ((n, t) # ms) off vs \<le> hi" "hi \<le> length m"
    and m0: "keeps (8 * lo) (8 * hi) m0 m"
    and val: "stores_back self t m0 m (p + mu_bytes off) c"
    and IH: "\<And>m. keeps (8 * lo) (8 * hi) m0 m \<Longrightarrow> members_back self ms 0 m0 m (p + mu_bytes off + csize t c) vs"
  shows "members_back self ((n, t) # ms) off m0 m p vs"
proof -
  let ?p1 = "p + mu_bytes off" and ?p2 = "p + mu_bytes off + csize t c"
  let ?e = "?p2 + csize_members ms 0 vs"
  have e: "p + csize_members ((n, t) # ms) off vs = ?e" by (simp add: bw c)
  have off: "8 * p + off \<le> 8 * ?p1" using mu_bytes_bounds(1) [of off] by simp
  obtain m1 where m1: "access Store self t m ?p1 c = Some (m1, ?p2, c)" "keeps (8 * ?p1) (8 * ?p2) m m1"
    "\<And>m''. same_bits (8 * ?p1) (8 * ?p2) m1 m'' \<Longrightarrow>
      \<exists>c'. access Load self t m'' ?p1 (CStruct []) = Some (m'', ?p2, c') \<and> ceq t m0 c m'' c'"
    using val unfolding stores_back_def by blast
  have "keeps (8 * lo) (8 * hi) m m1" by (rule keeps_mono [OF m1(2)]) (use p(1,2) e in simp_all)
  from keeps_trans [OF m0 this] have "keeps (8 * lo) (8 * hi) m0 m1" by simp
  from IH [OF this] obtain m' where m': "access_members Store self ms 0 m1 ?p2 vs = Some (m', ?e, vs)"
    "keeps (8 * ?p2 + 0) (8 * ?e) m1 m'"
    "\<And>m'' acc. same_bits (8 * ?p2 + 0) (8 * ?e) m' m'' \<Longrightarrow>
      \<exists>vs'. access_members Load self ms 0 m'' ?p2 acc = Some (m'', ?e, acc @ vs') \<and> ceq_members ms m0 vs m'' vs'"
    unfolding members_back_def Let_def by blast
  have "keeps (8 * p + off) (8 * ?e) m m'"
    by (rule keeps_mono [OF keeps_trans [OF m1(2) m'(2)]]) (use off in simp_all)
  moreover have "\<exists>vs'. access_members Load self ((n, t) # ms) off m'' p acc = Some (m'', ?e, acc @ vs') \<and>
      ceq_members ((n, t) # ms) m0 vs m'' vs'" if s: "same_bits (8 * p + off) (8 * ?e) m' m''" for m'' acc
  proof -
    have l1: "length m1 = length m" using m1(2) by (simp add: keeps_def)
    have "same_bits (8 * ?p1) (8 * ?p2) m1 m''"
      by (rule same_bits_keeps [OF same_bits_sub [OF s] m'(2)]) (use off e p l1 in simp_all)
    from m1(3) [OF this] obtain c' where c': "access Load self t m'' ?p1 (CStruct []) = Some (m'', ?p2, c')"
      "ceq t m0 c m'' c'" by blast
    have "same_bits (8 * ?p2 + 0) (8 * ?e) m' m''" by (rule same_bits_sub [OF s]) (use off in simp_all)
    from m'(3) [OF this, of "acc @ [(n, c')]"] c' c show ?thesis by (auto simp: bw)
  qed
  moreover have "8 * p + off \<le> 8 * ?e" using off by simp
  ultimately show ?thesis
    using m1(1) m'(1) c unfolding members_back_def e Let_def by (auto simp: bw)
qed

lemma members_back_all:
  assumes "members_supported ms" and "cwt_members (placed (length m) lo hi) ms vs"
    and "lo \<le> p" "p + csize_members ms off vs \<le> hi" "hi \<le> length m" "8 * (hi - lo) < 2 ^ 32"
    and "keeps (8 * lo) (8 * hi) m0 m"
  shows "members_back self ms off m0 m p vs"
  using assms
proof (induction "msize ms" arbitrary: ms off m p vs rule: less_induct)
  case less
  show ?case
  proof (cases ms)
    case Nil
    then show ?thesis using mu_bytes_bounds(1) [of off] by (auto simp: members_back_def)
  next
    case (Cons nt ms1)
    obtain n t where nt: "nt = (n, t)" by fastforce
    have ms: "ms = (n, t) # ms1" using Cons nt by simp
    have sz: "msize ms1 < msize ms" "size t < msize ms" by (simp_all add: ms msize_def)
    have pre: "members_supported ms1" "bitu_width t \<noteq> None \<or> c_supported t"
      using less.prems(1) by (auto simp: ms members_supported_def)
    obtain c where c: "map_of vs n = Some c" "cwt (placed (length m) lo hi) t c"
      and wt1: "cwt_members (placed (length m) lo hi) ms1 vs"
      using less.prems(2) by (auto simp: ms split: option.splits)
    have len: "length m1 = length m" if "keeps (8 * lo) (8 * hi) m0 m1" for m1
      using that less.prems(7) by (simp add: keeps_def)
    have rest: "members_back self ms1 off1 m0 m1 p1 vs"
      if "keeps (8 * lo) (8 * hi) m0 m1" "lo \<le> p1" "p1 + csize_members ms1 off1 vs \<le> hi" for m1 p1 off1
      using that less.prems(5,6) wt1 by (intro less.hyps [OF sz(1) pre(1)]) (simp_all add: len)
    show ?thesis
    proof (cases "bitu_width t")
      case (Some w)
      show ?thesis unfolding ms
        by (rule members_back_bits [OF Some c less.prems(3) less.prems(4) [unfolded ms] less.prems(5-7)])
           (use less.prems(3,4) Some rest in \<open>simp add: ms\<close>)
    next
      case None
      have e: "p + csize_members ms off vs = p + mu_bytes off + csize t c + csize_members ms1 0 vs"
        by (simp add: ms None c(1))
      have "stores_back self t m0 m (p + mu_bytes off) c"
      proof (rule value_back [OF _ c(2) less.prems(7)])
        fix n' ms' vs' assume t: "t = TStruct n' ms'" and c': "c = CStruct vs'"
        have "msize ms' < msize ms" using sz(2) t by (simp add: msize_def)
        then show "members_back self ms' 0 m0 m (p + mu_bytes off) vs'"
          using less.prems e pre(2) None c(2) t c'
          by (intro less.hyps) (simp_all add: members_supported_def)
      qed (use less.prems(3-5) e pre(2) None in simp_all)
      then show ?thesis unfolding ms
        by (rule members_back_value [OF None c(1) less.prems(3) less.prems(4) [unfolded ms] less.prems(5,7)])
           (use less.prems(3,4) e rest in simp)
    qed
  qed
qed

section \<open>Structures in C and in Python\<close>

text \<open>The Python value that a C value stands for, slices seen in memory \<open>m\<close>.\<close>

definition cnum_rel :: "numty \<Rightarrow> pyval \<Rightarrow> cnum \<Rightarrow> bool" where
  "cnum_rel k v x \<longleftrightarrow> cnum_width x = csizeof k \<and> \<not> c_nan k x \<and>
     (v = py_of_cnum k x \<or> \<not> fmt_float (num_fmt k) \<and> as_index v = as_index (py_of_cnum k x))"

fun crel :: "cmem \<Rightarrow> ctype \<Rightarrow> pyval \<Rightarrow> cval \<Rightarrow> bool" where
  "crel m t v (CNum x) = (case num_of_type t of Some k \<Rightarrow> cnum_rel k v x | None \<Rightarrow> False)"
| "crel m t v (CBit x) = (case bitu_width t of Some w \<Rightarrow> as_index v = Some (uint x) \<and> w \<le> 32 | None \<Rightarrow> False)"
| "crel m TBytes v (CSl s) = (\<exists>bs. v = VBytes bs \<and> slice_vals U8 m s = map C8 bs)"
| "crel m TStr v (CSl s) = (\<exists>u bs. v = VStr u \<and> str_encode u = Inr bs \<and> slice_vals U8 m s = map C8 bs)"
| "crel m (TList [TNum k]) v (CSl s) = (v = VList (slice_py k m s) \<and> no_nan k (slice_vals k m s))"
| "crel m t v c = False"

fun crel_members :: "cmem \<Rightarrow> members \<Rightarrow> pyval list \<Rightarrow> (string \<times> cval) list \<Rightarrow> bool" where
  "crel_members m [] [] vs = True"
| "crel_members m ((n, t) # ms) (v # pys) vs =
     ((case map_of vs n of Some c \<Rightarrow> crel m t v c | None \<Rightarrow> False) \<and> crel_members m ms pys vs)"
| "crel_members m _ _ vs = False"

lemma put_bytes_put:
  assumes "put_bytes m off n bs = Inr m'" and "length bs = n" and "off \<le> 8 * length m"
  shows "m' = put m (mu_bytes off) bs" and "mu_bytes off + n \<le> length m"
proof -
  have i: "mu_bytes off \<le> length m" using assms(3) by (simp add: mu_bytes_le_iff)
  note a = assms(1) [unfolded put_bytes_def]
  show "mu_bytes off + n \<le> length m" using slice_assign_fit [OF assms(2) a] i by auto
  show "m' = put m (mu_bytes off) bs" using a assms(2) by (auto simp: slice_assign_def put_def split: if_splits)
qed

lemma struct_pack_rel: "cnum_rel k v x \<Longrightarrow> struct_pack (num_fmt k) v = Inr (cnum_bytes x)"
  using struct_pack_cnum [of x k] by (auto simp: cnum_rel_def struct_pack_def)

lemma pack_num_put:
  assumes "pack_num k v m off = Inr (m', off')" and "cnum_rel k v x" and "off \<le> 8 * length m"
  shows "num_access Store k m (mu_bytes off) (CNum x) = Some (m', mu_bytes off', CNum x)"
    and "off' = 8 * (mu_bytes off + csizeof k)" and "keeps (8 * mu_bytes off) off' m m'"
proof -
  have w: "cnum_width x = csizeof k" using assms(2) by (simp add: cnum_rel_def)
  have f: "8 * mu_bytes off \<le> 8 * length m" using assms(3) by (simp add: mu_bytes_le_iff)
  obtain b where b: "put_bytes m (8 * mu_bytes off) (csizeof k) (cnum_bytes x) = Inr b" "m' = b"
    "off' = 8 * (mu_bytes off + csizeof k)"
    using assms(1) struct_pack_rel [OF assms(2)]
    by (auto simp: pack_num_def Let_def rbind_Inr_iff mu_byte_align_eq csizeof_def mu_add_def num_size_width)
  note pb = put_bytes_put [OF b(1) _ f]
  show "off' = 8 * (mu_bytes off + csizeof k)" by (rule b(3))
  show "num_access Store k m (mu_bytes off) (CNum x) = Some (m', mu_bytes off', CNum x)"
    using pb w b(2) unfolding b(3) mu_bytes_mult by (simp add: num_access_def num_store_put)
  show "keeps (8 * mu_bytes off) off' m m'"
    using pb w keeps_put [of "mu_bytes off" "cnum_bytes x" m] by (simp add: b(2,3))
qed

lemma pack_blob_put:
  assumes "pack_blob bs m (8 * p) = Inr (m', off')" and "p \<le> length m"
  shows "m' = put m p (be_encode 2 (int (length bs)) @ bs) \<and> off' = 8 * (p + (2 + length bs)) \<and>
    p + (2 + length bs) \<le> length m \<and> length bs < 65536"
proof -
  obtain hdr b where h: "struct_pack Fmt_H (VInt (int (length bs))) = Inr hdr" "put_bytes m (8 * p) 2 hdr = Inr b"
    "put_bytes b (8 * (p + 2)) (length bs) bs = Inr m'" "off' = 8 * (p + (2 + length bs))"
    using assms(1) by (auto simp: pack_blob_def Let_def rbind_Inr_iff mu_set_bytes_eq add.assoc)
  have hdr: "hdr = be_encode 2 (int (length bs))" "length bs < 65536"
    using h(1) by (auto simp: struct_pack_def fmt_range_def split: if_splits)
  have l: "8 * p \<le> 8 * length m" using assms(2) by simp
  note b1 = put_bytes_put [OF h(2) _ l, unfolded hdr(1)]
  have "b = put m p (be_encode 2 (int (length bs)))" "p + 2 \<le> length m" using b1 by simp_all
  moreover from this have l2: "8 * (p + 2) \<le> 8 * length b" by simp
  note b2 = put_bytes_put [OF h(3) refl l2]
  ultimately show ?thesis using b2 h(4) hdr(2) by (simp add: put_next)
qed

lemma pack_items_put:
  assumes "pack_items (TNum k) vs m (8 * p) = Inr (m', off')" and "rmap (struct_pack (num_fmt k)) vs = Inr bss" and "p \<le> length m"
  shows "m' = put m p (concat bss) \<and> off' = 8 * (p + length (concat bss)) \<and> p + length (concat bss) \<le> length m"
  using assms
proof (induction vs arbitrary: m p bss)
  case (Cons v vs)
  obtain b bs where b: "struct_pack (num_fmt k) v = Inr b" "rmap (struct_pack (num_fmt k)) vs = Inr bs" "bss = b # bs"
    using Cons.prems(2) by (auto simp: rbind_Inr_iff)
  have w: "length b = fmt_width (num_fmt k)" using struct_pack_width [OF b(1)] .
  obtain m1 where m1: "put_bytes m (8 * p) (length b) b = Inr m1"
    "pack_items (TNum k) vs m1 (8 * (p + length b)) = Inr (m', off')"
    using Cons.prems(1) b(1) w
    by (auto simp: rbind_Inr_iff type_fmt_def type_size_def mu_add_def num_size_width)
  have "8 * p \<le> 8 * length m" using Cons.prems(3) by simp
  note pb = put_bytes_put [OF m1(1) refl this]
  have "p + length b \<le> length m1" using pb by simp
  from Cons.IH [OF m1(2) b(2) this] show ?case using pb b(3) by (simp add: put_next add.assoc)
qed simp


lemma slice_bytes_u8: "slice_vals U8 m s = map C8 bs \<Longrightarrow> concat (map cnum_bytes (slice_vals U8 m s)) = bs"
  by (simp add: cnum_bytes_def o_def)

text \<open>A slice: the Python codec writes the length in bytes and the elements.\<close>

lemma pack_slice_bytes:
  assumes pk: "pack_value t v m (8 * p) = Inr (m', off')" and k: "slice_elem t = Some k"
    and rel: "crel m0 t v (CSl s)" and i: "slice_in k m0 s" and p: "p \<le> length m" and n: "n = csizeof k * unat (slen s)"
  shows "m' = put m p (be_encode 2 (int n) @ concat (map cnum_bytes (slice_vals k m0 s))) \<and> off' = 8 * (p + (2 + n)) \<and>
    p + (2 + n) \<le> length m"
proof -
  let ?data = "concat (map cnum_bytes (slice_vals k m0 s))"
  have "length (slice (the (ptr s)) n m0) = n" using i by (auto simp: slice_in_def slice_end_def n)
  then have l: "length ?data = n" using slice_vals_bytes [OF i] n by simp
  show ?thesis
  proof (cases "is_list_type t")
    case False
    then have u8: "k = U8" using k by (cases t rule: slice_elem.cases) auto
    obtain bs where bs: "pack_blob bs m (8 * p) = Inr (m', off')" "slice_vals U8 m0 s = map C8 bs"
      using pk k rel False
      by (cases t rule: slice_elem.cases)
         (auto simp: rbind_Inr_iff py_bytes_def py_str_encode_def mu_byte_align_eq)
    from slice_bytes_u8 [OF bs(2)] u8 have "?data = bs" by simp
    with pack_blob_put [OF bs(1) p] l show ?thesis by simp
  next
    case True
    then have t: "t = TList [TNum k]" using k by (cases t rule: slice_elem.cases) auto
    then have v: "v = VList (slice_py k m0 s)" and nn: "no_nan k (slice_vals k m0 s)" using rel by simp_all
    have lv: "length (slice_py k m0 s) = unat (slen s)" by (simp add: slice_py_def length_slice_vals [OF i])
    obtain hdr m1 where h: "struct_pack Fmt_H (VInt (int (unat (slen s) * csizeof k))) = Inr hdr" "put_bytes m (8 * p) 2 hdr = Inr m1"
      "pack_items (TNum k) (slice_py k m0 s) m1 (8 * (p + 2)) = Inr (m', off')"
      using pk
      by (auto simp: t v pack_list_def rbind_Inr_iff mu_byte_align_eq mu_set_bytes_eq type_size_def lv csizeof_def)
    have hdr: "hdr = be_encode 2 (int n)" using h(1) by (auto simp: n struct_pack_def mult.commute split: if_splits)
    have "8 * p \<le> 8 * length m" using p by simp
    note b1 = put_bytes_put [OF h(2) _ this, unfolded hdr]
    have m1: "m1 = put m p (be_encode 2 (int n))" "p + 2 \<le> length m" using b1 by simp_all
    have l2: "p + 2 \<le> length m1" using m1 by simp
    from pack_items_put [OF h(3) slice_py_bytes(2) [OF i nn] l2] l m1(2) show ?thesis
      by (simp add: m1(1) put_next add.assoc)
  qed
qed

text \<open>A slice member: both sides write the same.\<close>

lemma pack_slice_put:
  assumes pk: "pack_value t v m (8 * p) = Inr (m', off')" and k: "slice_elem t = Some k"
    and rel: "crel m0 t v (CSl s)" and pl: "placed (length m) lo hi k s" and m0: "keeps (8 * lo) (8 * hi) m0 m"
    and p: "lo \<le> p" "mu_bytes off' \<le> hi" "hi \<le> length m" "p \<le> length m"
  shows "slice_access Store self k m p (CSl s) = Some (m', mu_bytes off', CSl s) \<and> keeps (8 * p) off' m m' \<and>
    off' = 8 * mu_bytes off'"
proof -
  let ?n = "csizeof k * unat (slen s)" and ?data = "concat (map cnum_bytes (slice_vals k m0 s))"
  obtain b where b: "ptr s = Some b" "b + ?n \<le> length m" "b + ?n \<le> lo \<or> hi \<le> b" "?n < 65536"
    using pl by (auto simp: placed_def slice_end_def)
  have m0l: "length m0 = length m" using m0 by (simp add: keeps_def)
  have i: "slice_in k m s" "slice_in k m0 s" using b m0l by (simp_all add: slice_in_def slice_end_def)
  have "slice b ?n m = slice b ?n m0" by (rule keeps_slice [OF m0]) (use b m0l in auto)
  then have data: "concat (map cnum_bytes (slice_vals k m s)) = ?data"
    using slice_vals_bytes [OF i(1)] slice_vals_bytes [OF i(2)] b(1) by simp
  have l: "length ?data = ?n" using arg_cong [OF slice_vals_bytes [OF i(2)], of length] b(1,2) m0l by simp
  note r = pack_slice_bytes [OF pk k rel i(2) p(4) refl]
  then have mo: "mu_bytes off' = p + (2 + ?n)" by (metis mu_bytes_mult)
  then have "p + (2 + ?n) \<le> hi" using p(2) by simp
  with slice_store_placed [OF pl refl p(1) this p(3), of self] r mo data l p(3)
    keeps_put [of p "be_encode 2 (int ?n) @ ?data" m]
  show ?thesis by (simp add: slice_access_def)
qed

lemma pack_bits_same:
  assumes "BitU_pack w m (8 * p + off) (uint x) = Inr (m', off')" and "c_field_ok w off"
    and fit: "8 * p + off + w \<le> 8 * length m"
  shows "bits_access Store off w m p (CBit x) = Some (m', p, CBit x) \<and> keeps (8 * p + off) off' m m'"
proof -
  have st: "BitU_store w m (8 * p + off) (uint x) = Inr m'" and off: "off' = 8 * p + off + w"
    using assms(1) by (auto simp: BitU_pack_eq rbind_Inr_iff)
  note r = bitu.store_result [OF TrueI fit st]
  obtain m1 where m1: "bits_access Store off w m p (CBit x) = Some (m1, p, CBit x)"
    "keeps (8 * p + off) (8 * p + off + w) m m1"
    "\<And>i. 8 * p + off \<le> i \<Longrightarrow> i < 8 * p + off + w \<Longrightarrow> buf_bit m1 i = bit (uint x) (8 * p + off + w - 1 - i)"
    using bits_store [OF assms(2) fit, of x] by blast
  have "m1 = m'"
  proof (rule buf_eqI)
    show "length m1 = length m'" using r(1) m1(2) by (simp add: keeps_def)
    fix i assume "i < 8 * length m1"
    then have i: "i < 8 * length m" using m1(2) by (simp add: keeps_def)
    show "buf_bit m1 i = buf_bit m' i"
      using r(2) [OF i] m1(2,3) i by (auto simp: keeps_def)
  qed
  with m1(1,2) off show ?thesis by simp
qed

lemma value_agree:
  assumes pk: "pack_value t v m off = Inr (m', off')" and t: "c_supported t" "\<not> is_compost_struct t"
    and c: "crel m0 t v c" "cwt (placed (length m) lo hi) t c" and m0: "keeps (8 * lo) (8 * hi) m0 m"
    and p: "lo \<le> mu_bytes off" "mu_bytes off' \<le> hi" "hi \<le> length m" "off \<le> 8 * length m"
  shows "access Store self t m (mu_bytes off) c = Some (m', mu_bytes off', c) \<and>
    keeps (8 * mu_bytes off) off' m m' \<and> off' = 8 * mu_bytes off'"
proof (cases "num_of_type t")
  case (Some k)
  then obtain x where x: "c = CNum x" "cnum_rel k v x" and a: "access Store self t = num_access Store k"
    and pn: "pack_num k v m off = Inr (m', off')"
    using c pk by (cases t rule: num_of_type.cases) (auto simp: fun_eq_iff split: cval.splits)
  note r = pack_num_put [OF pn x(2) p(4)]
  show ?thesis using r x(1) by (simp add: a, metis mu_bytes_mult r(2))
next
  case None
  with t obtain k where k: "slice_elem t = Some k" by (cases t rule: c_supported.cases) auto
  with None t(2) c obtain s where s: "c = CSl s" "placed (length m) lo hi k s" "crel m0 t v (CSl s)"
    and a: "access Store self t = slice_access Store self k"
    by (cases t rule: slice_elem.cases) (auto simp: fun_eq_iff split: cval.splits)
  have "pack_value t v m (8 * mu_bytes off) = Inr (m', off')"
    using pk k by (cases t rule: slice_elem.cases) (simp_all add: mu_byte_align_eq)
  moreover have "mu_bytes off \<le> length m" using p(4) by (simp add: mu_bytes_le_iff)
  ultimately show ?thesis using pack_slice_put [OF _ k s(3,2) m0 p(1-3)] by (simp add: a s(1))
qed

lemma members_agree:
  assumes "pack_members ms pys m (8 * p + off) = Inr (m', off')" and "crel_members m0 ms pys vs"
    and "members_supported ms" and "list_all (\<lambda>(n, t). \<not> is_compost_struct t) ms"
    and "cwt_members (placed (length m) lo hi) ms vs" and "keeps (8 * lo) (8 * hi) m0 m"
    and "lo \<le> p" "8 * p + off \<le> 8 * length m" "mu_bytes off' \<le> hi" "hi \<le> length m" "8 * (hi - lo) < 2 ^ 32"
  shows "access_members Store self ms off m p vs = Some (m', mu_bytes off', vs) \<and> keeps (8 * lo) (8 * hi) m m'"
  using assms
proof (induction m0 ms pys vs arbitrary: m p off rule: crel_members.induct)
  case (1 m0 vs)
  then show ?case using mu_bytes_add_mult [of off p] by (auto simp: add.commute)
next
  case (2 m0 n t ms v pys vs)
  obtain m1 o1 where pk: "pack_value t v m (8 * p + off) = Inr (m1, o1)" "pack_members ms pys m1 o1 = Inr (m', off')"
    using "2.prems"(1) by (auto simp: rbind_Inr_iff)
  have ap: "appends m (8 * p + off) m1 o1" by (rule pack_value_appends(1) [OF pk(1) "2.prems"(8)])
  note ap1 = pack_value_appends(2) [OF pk(2) appends_fit [OF ap]]
  have le: "8 * p + off \<le> o1" "o1 \<le> off'" "length m1 = length m" "o1 \<le> 8 * length m"
    using ap ap1 by (auto simp: appends_def)
  have oh: "off' \<le> 8 * hi" using "2.prems"(9) by (simp add: mu_bytes_le_iff)
  obtain c where c: "map_of vs n = Some c" "crel m0 t v c" "cwt (placed (length m) lo hi) t c"
    using "2.prems"(2,5) by (auto split: option.splits)
  have pre: "members_supported ms" "list_all (\<lambda>(n, t). \<not> is_compost_struct t) ms" "\<not> is_compost_struct t"
    "bitu_width t \<noteq> None \<or> c_supported t" "crel_members m0 ms pys vs" "cwt_members (placed (length m1) lo hi) ms vs"
    using "2.prems"(2-5) le(3) by (auto simp: members_supported_def split: option.splits)
  show ?case
  proof (cases "bitu_width t")
    case (Some w)
    then obtain x where x: "c = CBit x" "w \<le> 32" "as_index v = Some (uint x)"
      using c(2,3) by (cases t rule: bitu_width.cases) (auto split: cval.splits)
    have bp: "BitU_pack w m (8 * p + off) (uint x) = Inr (m1, o1)"
      using pk(1) Some x(3) by (cases t rule: bitu_width.cases) (auto simp: pack_bitu_def)
    then have o1: "o1 = 8 * p + off + w" by (auto simp: BitU_pack_eq rbind_Inr_iff)
    have "c_field_ok w off" using x(2) o1 le(2) oh "2.prems"(7,11) by (simp add: c_field_ok_def)
    note b = pack_bits_same [OF bp this le(4) [unfolded o1]]
    have k: "keeps (8 * lo) (8 * hi) m m1"
      by (rule keeps_mono [OF conjunct2 [OF b]]) (use "2.prems"(7) le(2) oh in simp_all)
    from keeps_trans [OF "2.prems"(6) k] have "keeps (8 * lo) (8 * hi) m0 m1" by simp
    then have i: "access_members Store self ms (off + w) m1 p vs = Some (m', mu_bytes off', vs) \<and> keeps (8 * lo) (8 * hi) m1 m'"
      using pk(2) o1 pre le(3,4) "2.prems"(7-11) by (intro "2.IH") (simp_all add: add.assoc)
    with keeps_trans [OF k conjunct2 [OF i]] show ?thesis using b c(1) Some by (simp add: x(1))
  next
    case None
    have mb: "mu_bytes (8 * p + off) = p + mu_bytes off" using mu_bytes_add_mult [of off p] by (simp add: add.commute)
    have h1: "mu_bytes o1 \<le> hi" using le(2) oh by (simp add: mu_bytes_le_iff)
    have lo: "lo \<le> mu_bytes (8 * p + off)" using "2.prems"(7) mb by simp
    from value_agree [OF pk(1) _ pre(3) c(2,3) "2.prems"(6) lo h1 "2.prems"(10,8)] pre(4) None
    have a: "access Store self t m (p + mu_bytes off) c = Some (m1, mu_bytes o1, c)"
      "keeps (8 * (p + mu_bytes off)) o1 m m1" "o1 = 8 * mu_bytes o1" by (simp_all add: mb)
    have k: "keeps (8 * lo) (8 * hi) m m1"
      by (rule keeps_mono [OF a(2)]) (use "2.prems"(7) le(2) oh in simp_all)
    from keeps_trans [OF "2.prems"(6) k] have "keeps (8 * lo) (8 * hi) m0 m1" by simp
    moreover have "lo \<le> mu_bytes o1" using mu_bytes_mono [OF le(1)] lo by simp
    moreover have "pack_members ms pys m1 (8 * mu_bytes o1 + 0) = Inr (m', off')" using pk(2) a(3) by simp
    ultimately have i: "access_members Store self ms 0 m1 (mu_bytes o1) vs = Some (m', mu_bytes off', vs) \<and> keeps (8 * lo) (8 * hi) m1 m'"
      using pre le(3,4) "2.prems"(9-11) a(3) by (intro "2.IH") simp_all
    with keeps_trans [OF k conjunct2 [OF i]] show ?thesis using a(1) c(1) None by simp
  qed
qed auto

section \<open>Properties\<close>

text \<open>
  C8. Storing a structure with the generated function and loading it with the generated function
  gives the same structure, with nested structures, and changes nothing but the bytes of the
  structure, as long as its slices lie elsewhere.
\<close>

theorem generated_struct_roundtrip:
  assumes t: "t = TStruct n ms" and "c_supported t" and "named env t" and "names_free Store env" and "names_free Load env"
    and wt: "cwt (placed (length m) p e) t (CStruct vs)" and e: "e = p + csize t (CStruct vs)"
    and "e \<le> length m" and "8 * (e - p) < 2 ^ 32"
  shows "\<exists>ds dl m' c'. emit_call Store t [] = Inr (fname Store n, ds) \<and> emit_call Load t [] = Inr (fname Load n, dl) \<and>
    run Store self (rev ds) (fname Store n) m p (CStruct vs) = Some (m', e, CStruct vs) \<and>
    keeps (8 * p) (8 * e) m m' \<and>
    run Load self (rev dl) (fname Load n) m' p (CStruct []) = Some (m', e, c') \<and> ceq t m (CStruct vs) m' c'"
proof -
  have "members_back self ms 0 m m p vs"
    using assms by (intro members_back_all [where lo = p and hi = e]) (auto simp: members_supported_def)
  then have "stores_back self t m m p (CStruct vs)"
    using assms by (intro value_back [where lo = p and hi = e]) auto
  then obtain m' where m': "access Store self t m p (CStruct vs) = Some (m', e, CStruct vs)"
    "keeps (8 * p) (8 * e) m m'" "\<And>m''. same_bits (8 * p) (8 * e) m' m'' \<Longrightarrow>
      \<exists>c'. access Load self t m'' p (CStruct []) = Some (m'', e, c') \<and> ceq t m (CStruct vs) m'' c'"
    unfolding stores_back_def e by blast
  moreover have "same_bits (8 * p) (8 * e) m' m'" by (simp add: same_bits_def)
  ultimately show ?thesis
    using emit_call_correct [of n ms env Store self] emit_call_correct [of n ms env Load self] assms(1-5) by metis
qed

definition ex_value :: "(string \<times> cval) list" where
  "ex_value = [(''f'', CBit 5), (''a'', CStruct [(''y'', CNum (C8 7))]), (''b'', CStruct [(''y'', CNum (C8 9))]),
     (''s'', CSl \<lparr>ptr = Some 0, slen = 2\<rparr>)]"

theorem generated_struct_roundtrip_witness:
  "\<exists>ds dl m' c'. emit_call Store (TStruct ''Out'' ex_out) [] = Inr (''Out_store'', ds) \<and>
    emit_call Load (TStruct ''Out'' ex_out) [] = Inr (''Out_load'', dl) \<and>
    run Store True (rev ds) ''Out_store'' ([104, 105] @ replicate 10 0) 3 (CStruct ex_value) =
      Some (m', 10, CStruct ex_value) \<and>
    run Load True (rev dl) ''Out_load'' m' 3 (CStruct []) = Some (m', 10, c') \<and>
    ceq (TStruct ''Out'' ex_out) ([104, 105] @ replicate 10 0) (CStruct ex_value) m' c'"
proof -
  let ?m = "[104, 105] @ replicate 10 0 :: cmem" and ?t = "TStruct ''Out'' ex_out"
  have sz: "10 = 3 + csize ?t (CStruct ex_value)"
    by (simp add: ex_out_def ex_in_def ex_value_def csizeof_def mu_bytes_def BITS_PER_BYTE_def)
  have "cwt (placed (length ?m) 3 10) ?t (CStruct ex_value)"
    by (simp add: ex_out_def ex_in_def ex_value_def csizeof_def placed_def slice_end_def)
  from generated_struct_roundtrip [OF refl _ _ ex_names ex_names this sz, of True] show ?thesis
    by (auto simp: ex_out_def ex_in_def fname_def)
qed

lemma crel_astuple: "crel m t v c \<Longrightarrow> astuple_inner v = v"
proof (cases c)
  case (CNum x)
  assume "crel m t v c"
  with CNum obtain k where "cnum_rel k v x" by (auto split: option.splits)
  then show ?thesis by (cases v) (cases k; cases x; auto simp: cnum_rel_def split: if_splits)+
next
  case (CBit x)
  assume "crel m t v c"
  with CBit show ?thesis by (cases v) (auto split: option.splits)
next
  case (CSl s)
  have p: "astuple_inner (py_of_cnum k x) = py_of_cnum k x" for k x by (cases k; cases x) simp_all
  assume "crel m t v c"
  with CSl show ?thesis by (cases "(m, t, v, c)" rule: crel.cases) (auto simp: slice_py_def p)
qed auto

lemma crel_members_astuple: "crel_members m ms pys vs \<Longrightarrow> map astuple_inner pys = pys"
  by (induction m ms pys vs rule: crel_members.induct) (auto simp: crel_astuple split: option.splits)

text \<open>
  For a structure without inner structures, the generated function leaves the memory as the Python codec leaves its buffer
  when it packs the same values there, also for the structures that the Python codec does not unpack correctly.
\<close>

lemma store_packs_in_memory:
  assumes "c_supported (TStruct n ms)" and "named env (TStruct n ms)" and "names_free Store env"
    and "list_all (\<lambda>(n, t). \<not> is_compost_struct t) ms"
    and py: "pack_value (TStruct n ms) (VStruct n pys) m (8 * p) = Inr (m', off')"
    and rel: "crel_members m ms pys vs" and "cwt_members (placed (length m) p e) ms vs"
    and "mu_bytes off' \<le> e" and "e \<le> length m" and "p \<le> length m" and "8 * (e - p) < 2 ^ 32"
  shows "\<exists>d. emit_call Store (TStruct n ms) [] = Inr (fname Store n, d) \<and>
    run Store self (rev d) (fname Store n) m p (CStruct vs) = Some (m', mu_bytes off', CStruct vs)"
proof -
  have "pack_members ms pys m (8 * p + 0) = Inr (m', off')"
    using py crel_members_astuple [OF rel] by (simp add: astuple_def mu_byte_align_eq)
  then have "access_members Store self ms 0 m p vs = Some (m', mu_bytes off', vs)"
    using assms by (intro conjunct1 [OF members_agree [where lo = p and hi = e]]) (auto simp: members_supported_def)
  then show ?thesis using emit_call_correct [OF assms(1-3), of self] by auto
qed

lemma crel_members_packable:
  "crel_members m ms pys vs \<Longrightarrow> list_all (\<lambda>(n, t). \<not> is_compost_struct t) ms \<Longrightarrow> packable ms pys"
proof (induction m ms pys vs rule: crel_members.induct)
  case (2 m n t ms v pys vs)
  then obtain c where c: "crel m t v c" by (auto split: option.splits)
  have "\<exists>bs. v = VBytes bs" if "t = TBytes" using c unfolding that by (cases c) auto
  with 2 show ?case by (auto simp: packable_Cons)
qed (auto simp: packable_def)

text \<open>
  C7. For a structure without inner structures, the generated function stores the payload of the same values: it advances
  by the length of the payload, changes nothing around it, writes every bit of a member as it is in the payload, and keeps
  the padding bits of the memory, which are zero in the payload.  In cleared memory it writes exactly the payload.
\<close>

theorem generated_store_agrees:
  assumes "c_supported (TStruct n ms)" and "named env (TStruct n ms)" and "names_free Store env"
    and "list_all (\<lambda>(n, t). \<not> is_compost_struct t) ms"
    and bs: "pack_payload [TStruct n ms] [VStruct n pys] = Inr bs"
    and "crel_members m ms pys vs" and "cwt_members (placed (length m) p (p + length bs)) ms vs"
    and fit: "p + length bs \<le> length m" and old: "old = slice p (length bs) m"
  shows "\<exists>d new. emit_call Store (TStruct n ms) [] = Inr (fname Store n, d) \<and>
    run Store self (rev d) (fname Store n) m p (CStruct vs) = Some (put m p new, p + length bs, CStruct vs) \<and>
    holds_payload (data_bits ms pys 0) bs old new \<and> (old = replicate (length bs) 0 \<longrightarrow> new = bs)"
proof -
  have vs: "astuple (VStruct n pys) = Inr pys" using crel_members_astuple [OF assms(6)] by (simp add: astuple_def)
  obtain F off' where F: "length bs \<le> 1024" "mu_bytes off' = length bs" "F (replicate (length bs) 0) = bs"
    "\<And>old. length old = length bs \<Longrightarrow> holds_payload (data_bits ms pys 0) bs old (F old)"
    "\<And>pre old post. length old = length bs \<Longrightarrow>
       pack_value (TStruct n ms) (VStruct n pys) (pre @ old @ post) (8 * length pre) = Inr (pre @ F old @ post, 8 * length pre + off')"
    using pack_payload_elsewhere [OF bs vs crel_members_packable [OF assms(6,4)]] by blast
  have l: "length old = length bs" "length (take p m) = p" using fit old by simp_all
  have p: "holds_payload (data_bits ms pys 0) bs old (F old)" by (rule F(4) [OF l(1)])
  have "m = take p m @ old @ drop (p + length bs) m"
    unfolding old slice_def by (metis append_take_drop_id drop_drop add.commute)
  moreover have "put m p (F old) = take p m @ F old @ drop (p + length bs) m" using p by (simp add: put_def holds_payload_def)
  ultimately have pk: "pack_value (TStruct n ms) (VStruct n pys) m (8 * p) = Inr (put m p (F old), 8 * p + off')"
    using F(5) [OF l(1), of "take p m" "drop (p + length bs) m"] l(2) by simp
  have e: "mu_bytes (8 * p + off') = p + length bs" using F(2) by (simp add: mu_bytes_shift)
  have "\<exists>d. emit_call Store (TStruct n ms) [] = Inr (fname Store n, d) \<and>
      run Store self (rev d) (fname Store n) m p (CStruct vs) = Some (put m p (F old), mu_bytes (8 * p + off'), CStruct vs)"
    by (rule store_packs_in_memory [OF assms(1-4) pk assms(6,7)]) (use e fit F(1) in simp_all)
  then obtain d where "emit_call Store (TStruct n ms) [] = Inr (fname Store n, d)"
    "run Store self (rev d) (fname Store n) m p (CStruct vs) = Some (put m p (F old), p + length bs, CStruct vs)"
    unfolding e by blast
  with p show ?thesis by (intro exI [of _ d] exI [of _ "F old"]) (use F(3) in auto)
qed

theorem generated_store_agrees_witness:
  "\<exists>d. emit_call Store (TStruct ''S'' [(''a'', TBitU 3), (''b'', TNum I8), (''c'', TBitU 5)]) [] = Inr (''S_store'', d) \<and>
    run Store False (rev d) ''S_store'' [255, 0, 0, 0, 255] 1
      (CStruct [(''a'', CBit 5), (''b'', CNum (C8 254)), (''c'', CBit 9)]) =
    Some ([255, 160, 254, 72, 255], 4, CStruct [(''a'', CBit 5), (''b'', CNum (C8 254)), (''c'', CBit 9)])"
proof -
  let ?ms = "[(''a'', TBitU 3), (''b'', TNum I8), (''c'', TBitU 5)]" and ?m = "[255, 0, 0, 0, 255] :: cmem"
  have py: "pack_payload [TStruct ''S'' ?ms] [VStruct ''S'' [VInt 5, VInt (- 2), VInt 9]] = Inr [160, 254, 72]" by code_simp
  have "names_free Store (map_of [(''S'', ?ms)])"
    by (auto simp: names_free_def fname_def builtin_names split: if_splits)
  from generated_store_agrees [OF _ _ this _ py, where p = 1 and m = ?m and self = False
      and vs = "[(''a'', CBit 5), (''b'', CNum (C8 254)), (''c'', CBit 9)]", OF _ _ _ _ _ _ refl]
  show ?thesis by (auto simp: cnum_rel_def csizeof_def fname_def slice_def put_def)
qed

end
