(* ===== verification/CRuntime.thy ===== *)
theory CRuntime
  imports Session CMemory
begin

text \<open>
  The message processing of the generated C code, in a release build, where the assertions do
  nothing: header access, the dispatcher and \<^verbatim>\<open>compost_msg_process\<close>.  A null pointer is \<open>None\<close>;
  access outside a buffer is undefined in C and has the outcome \<open>None\<close>.
\<close>

section \<open>Header access\<close>

definition COMPOST_EINVAL :: int where "COMPOST_EINVAL = - 22"
definition COMPOST_EFLAGS :: int where "COMPOST_EFLAGS = - 91"
definition COMPOST_ETXN :: int where "COMPOST_ETXN = - 92"
definition UNKNOWN_MSG :: "16 word" where "UNKNOWN_MSG = 0xFEE"

record c_header =
  wlen :: byte
  c_txn :: byte
  c_rpc_id :: "16 word"
  c_resp :: bool

definition COMPOST_MSG_LEN :: "byte list \<Rightarrow> int" where
  "COMPOST_MSG_LEN m = 4 + 4 * uint (hd m)"

definition compost_header_load :: "byte list option \<Rightarrow> bool \<Rightarrow> (int + c_header) option" where
  "compost_header_load buf header_null =
     (case buf of
        None \<Rightarrow> Some (Inl COMPOST_EINVAL)
      | Some b \<Rightarrow>
          if header_null then Some (Inl COMPOST_EINVAL)
          else if length b < 4 then None
          else
            let rpc_id_hi = b ! 2 AND 0x0F;
                flags = b ! 2 AND 0xF0
            in if flags AND NOT 0x10 \<noteq> 0 then Some (Inl COMPOST_EFLAGS)
               else Some (Inr \<lparr>wlen = b ! 0, c_txn = b ! 1,
                               c_rpc_id = push_bit 8 (ucast rpc_id_hi) OR ucast (b ! 3),
                               c_resp = (flags AND 0x10 \<noteq> 0)\<rparr>))"

definition compost_header_store :: "byte list option \<Rightarrow> c_header \<Rightarrow> (int \<times> byte list option) option" where
  "compost_header_store buf h =
     (case buf of
        None \<Rightarrow> Some (COMPOST_EINVAL, buf)
      | Some b \<Rightarrow>
          if length b < 4 then None
          else
            let b = b[0 := wlen h];
                b = b[1 := c_txn h];
                b = b[2 := ucast (drop_bit 8 (c_rpc_id h))];
                b = (if c_resp h then b[2 := b ! 2 OR 0x10] else b);
                b = b[3 := ucast (c_rpc_id h)]
            in Some (0, Some b))"

section \<open>Dispatch\<close>

text \<open>
  The functions generated for a protocol: for each inbound procedure its identifier and what its
  function \<^verbatim>\<open>invoke_...\<close>, given the payload of the request, makes of the payload buffer of the response, with the number
  of bytes it stores there (no number if the procedure returns nothing).  An undefined run is \<open>None\<close>.
\<close>

type_synonym invoke_fn = "byte list \<Rightarrow> byte list \<Rightarrow> (byte list \<times> nat option) option"
type_synonym handlers = "(16 word \<times> invoke_fn) list"

text \<open>A message under construction: its header and the payload buffer it is stored to.\<close>

record c_msg =
  c_hdr :: c_header
  payload_buf :: "byte list"

definition compost_unknown_msg :: "c_msg \<Rightarrow> c_msg" where
  "compost_unknown_msg tx = tx\<lparr>c_hdr := (c_hdr tx)\<lparr>c_rpc_id := UNKNOWN_MSG, wlen := 0\<rparr>\<rparr>"

definition invoke :: "16 word \<Rightarrow> invoke_fn \<Rightarrow> c_msg \<Rightarrow> c_msg \<Rightarrow> c_msg option" where
  "invoke i h tx rx =
     (case h (payload_buf rx) (payload_buf tx) of
        None \<Rightarrow> None
      | Some (buf, stored) \<Rightarrow>
          Some (tx\<lparr>c_hdr := (c_hdr tx)\<lparr>wlen := (case stored of None \<Rightarrow> 0 | Some n \<Rightarrow> compost_bytes_to_words (of_nat n)),
                                     c_rpc_id := i\<rparr>,
                   payload_buf := buf\<rparr>))"

definition compost_invoke_switch :: "handlers \<Rightarrow> c_msg \<Rightarrow> c_msg \<Rightarrow> c_msg option" where
  "compost_invoke_switch hs tx rx =
     (case map_of hs (c_rpc_id (c_hdr rx)) of
        Some h \<Rightarrow> invoke (c_rpc_id (c_hdr rx)) h tx rx
      | None \<Rightarrow> Some (compost_unknown_msg tx))"

text \<open>The result is the return value and the transmit buffer afterwards.\<close>

definition compost_msg_process ::
  "handlers \<Rightarrow> byte list option \<Rightarrow> byte list option \<Rightarrow> (int \<times> byte list option) option" where
  "compost_msg_process hs tx_buf rx_buf =
     (case (tx_buf, rx_buf) of
        (Some txb, Some rxb) \<Rightarrow>
          if length rxb < 4 \<or> length txb < 4 then Some (COMPOST_EINVAL, tx_buf)
          else
            (case compost_header_load rx_buf False of
               None \<Rightarrow> None
             | Some (Inl ret) \<Rightarrow> Some (ret, tx_buf)
             | Some (Inr rx_header) \<Rightarrow>
                 let rx = \<lparr>c_hdr = rx_header, payload_buf = drop 4 rxb\<rparr>;
                     tx = \<lparr>c_hdr = \<lparr>wlen = 0, c_txn = c_txn rx_header, c_rpc_id = 0, c_resp = True\<rparr>,
                           payload_buf = drop 4 txb\<rparr>
                 in if c_txn rx_header \<noteq> 0 \<and> c_resp rx_header then Some (COMPOST_ETXN, tx_buf)
                    else
                      (case compost_invoke_switch hs tx rx of
                         None \<Rightarrow> None
                       | Some tx \<Rightarrow>
                           let txb = take 4 txb @ payload_buf tx in
                           if c_txn (c_hdr tx) \<noteq> 0 \<or> wlen (c_hdr tx) \<noteq> 0 then
                             (case compost_header_store (Some txb) (c_hdr tx) of
                                None \<Rightarrow> None
                              | Some (ret, b) \<Rightarrow>
                                  if ret \<noteq> 0 then Some (ret, b)
                                  else Some (4 + uint (wlen (c_hdr tx)) * 4, b))
                           else Some (0, Some txb)))
      | _ \<Rightarrow> Some (COMPOST_EINVAL, tx_buf))"

section \<open>Both sides agree on the header\<close>

definition c_header_of :: "header \<Rightarrow> c_header" where
  "c_header_of h = \<lparr>wlen = word_of_int (len h), c_txn = word_of_int (txn h),
                    c_rpc_id = word_of_int (rpc_id h), c_resp = resp h\<rparr>"

lemma uint_ucast_byte: "uint (ucast (w :: 'a :: len word) :: byte) = uint w mod 256"
  by (simp add: unsigned_ucast_eq take_bit_eq_mod)

lemma uint_drop_byte: "uint (drop_bit 8 (w :: 16 word)) = uint w div 256"
  by (simp add: drop_bit_eq_div uint_div)

lemma or_16: "0 \<le> x \<Longrightarrow> x < 16 \<Longrightarrow> (x :: int) OR 16 = x + 16"
proof -
  assume x: "0 \<le> x" "x < 16"
  then have "x AND 16 = 0" using and_exp_eq_0_iff_not_bit [of x 4] by (simp add: bit_iff_odd)
  then show ?thesis using plus_and_or [of x 16] by simp
qed

lemma word_or_16:
  assumes "0 \<le> x" "x < 16" shows "word_of_int (x + 16) = (word_of_int x OR 0x10 :: byte)"
proof (rule word_uint_eqI)
  have "uint (word_of_int x OR 0x10 :: byte) = uint (word_of_int x :: byte) OR 0x10" by (simp add: uint_or)
  also have "\<dots> = x + 16" using assms by (simp only: byte_of_int_eq or_16)
  also have "\<dots> = uint (word_of_int (x + 16) :: byte)" using assms by (subst byte_of_int_eq) simp_all
  finally show "uint (word_of_int (x + 16) :: byte) = uint (word_of_int x OR 0x10 :: byte)" by (rule sym)
qed

lemma header_store_agrees:
  assumes "header_ok h" and "4 \<le> length b"
  shows "\<exists>bs. Header_pack h = Inr bs \<and>
    compost_header_store (Some b) (c_header_of h) = Some (0, Some (bs @ drop 4 b))"
proof -
  obtain b0 b1 b2 b3 b' where b: "b = b0 # b1 # b2 # b3 # b'"
    using assms(2) by (auto simp: numeral_eq_Suc Suc_le_length_iff)
  have r: "0 \<le> rpc_id h" "rpc_id h < 4096" using assms(1) by (simp_all add: header_ok_def)
  have u: "uint (word_of_int (rpc_id h) :: 16 word) = rpc_id h"
    using r by (simp add: uint_word_of_int_eq take_bit_int_eq_self)
  have hi: "ucast (drop_bit 8 (word_of_int (rpc_id h) :: 16 word)) = (word_of_int (rpc_id h div 256) :: byte)"
    by (rule word_uint_eqI) (simp only: uint_ucast_byte uint_drop_byte uint_byte_of_int u)
  have f: "rpc_id_and_flags h div 256 = (if resp h then rpc_id h div 256 + 16 else rpc_id h div 256)"
    "rpc_id_and_flags h mod 256 = rpc_id h mod 256"
    using r mod_mult_self1 [of "rpc_id h" 16 256] by (auto simp: flags_value)
  have d: "0 \<le> rpc_id h div 256" "rpc_id h div 256 < 16" using r by simp_all
  have hi2: "word_of_int (rpc_id_and_flags h div 256) =
    (if resp h then word_of_int (rpc_id h div 256) OR 0x10 else word_of_int (rpc_id h div 256) :: byte)"
    using word_or_16 [OF d] unfolding f by simp
  have lo: "ucast (word_of_int (rpc_id h) :: 16 word) = (word_of_int (rpc_id_and_flags h) :: byte)"
    by (rule word_uint_eqI) (simp only: uint_ucast_byte uint_byte_of_int u f)
  show ?thesis
    using assms(1) hi hi2 lo
    by (simp add: Header_pack_bytes header_ok_def compost_header_store_def c_header_of_def b Let_def)
qed


lemma c_id_bytes:
  fixes c d :: byte
  shows "push_bit 8 (ucast (c AND 0x0F)) OR ucast d = (word_of_int (uint c mod 16 * 256 + uint d) :: 16 word)"
proof (rule word_uint_eqI)
  have dr: "0 \<le> uint d" "uint d < 256" using uint_byte_lt [of d] by simp_all
  have cm: "0 \<le> uint c mod 16" "uint c mod 16 < 16" by simp_all
  have e: "uint (c AND 0x0F) = uint c mod 16"
    using take_bit_eq_mask [of 4 "uint c"] by (simp add: uint_and mask_eq_exp_minus_1 take_bit_eq_mod)
  have "uint (ucast (c AND 0x0F) :: 16 word) = uint c mod 16"
    unfolding unsigned_ucast_eq e using cm by (intro take_bit_int_eq_self) simp_all
  then have "uint (push_bit 8 (ucast (c AND 0x0F)) :: 16 word) = take_bit 16 (push_bit 8 (uint c mod 16))"
    by (simp add: unsigned_push_bit_eq)
  also have "\<dots> = push_bit 8 (uint c mod 16)"
    using cm by (intro take_bit_int_eq_self) (simp_all add: push_bit_eq_mult)
  finally have p8: "uint (push_bit 8 (ucast (c AND 0x0F)) :: 16 word) = push_bit 8 (uint c mod 16)" .
  have ud: "uint (ucast d :: 16 word) = uint d"
    using dr by (simp add: unsigned_ucast_eq take_bit_int_eq_self)
  have "uint (push_bit 8 (ucast (c AND 0x0F)) OR ucast d :: 16 word) = uint c mod 16 * 256 + uint d"
    unfolding uint_or p8 ud by (rule or_byte [OF dr])
  also have "\<dots> = uint (word_of_int (uint c mod 16 * 256 + uint d) :: 16 word)"
    unfolding uint_word_of_int_eq using dr cm by (intro take_bit_int_eq_self [symmetric]) simp_all
  finally show "uint (push_bit 8 (ucast (c AND 0x0F)) OR ucast d :: 16 word) =
      uint (word_of_int (uint c mod 16 * 256 + uint d) :: 16 word)" .
qed

text \<open>
  The C loader accepts exactly the headers without reserved bits, and then reads what the
  Python class reads.
\<close>

lemma header_load_agrees:
  assumes "length bs = 4"
  shows "compost_header_load (Some (bs @ rest)) False =
    (if bs ! 2 AND 0xE0 \<noteq> 0 then Some (Inl COMPOST_EFLAGS)
     else case Header_unpack bs of Inr h \<Rightarrow> Some (Inr (c_header_of h)) | Inl _ \<Rightarrow> None)"
proof -
  obtain a b c d where bs: "bs = [a, b, c, d]" using assms by (rule length4E)
  have fl: "(c AND 0xF0) AND NOT 0x10 = c AND 0xE0" by (simp add: and.assoc)
  have rs: "((c AND 0xF0) AND 0x10 \<noteq> 0) = bit c 4"
    using and_exp_eq_0_iff_not_bit [of c 4] by (simp add: and.assoc)
  have dr: "0 \<le> uint d" "uint d < 256" using uint_byte_lt [of d] by simp_all
  have y: "(uint c * 256 + uint d) div 256 = uint c" "(uint c * 256 + uint d) mod 256 = uint d"
    using dr by simp_all
  have "(uint c * 256 + uint d) mod (256 * 16) = 256 * (uint c mod 16) + uint d"
    using zmod_zmult2_eq [of 16 "uint c * 256 + uint d" 256] y by simp
  then have m: "(uint c * 256 + uint d) mod 4096 = uint c mod 16 * 256 + uint d" by simp
  note id = c_id_bytes [of c d, folded m]
  have "(uint c * 256 + uint d) div (256 * 16) = uint c div 16"
    using zdiv_zmult2_eq [of 16 "uint c * 256 + uint d" 256] y by simp
  then have "odd ((uint c * 256 + uint d) div 4096) = bit c 4"
    using bit_uint_iff [of c 4] by (simp add: bit_iff_odd [of "uint c"])
  with fl rs id show ?thesis
    by (simp add: bs compost_header_load_def Let_def Header_unpack_bytes c_header_of_def)
qed


section \<open>A request from Python answered by the generated code\<close>

lemma bytes_to_words:
  "n \<le> 1020 \<Longrightarrow> compost_bytes_to_words (of_nat n) = word_of_int (int (words n))"
  by (simp add: compost_bytes_to_words_def words_def uint_nat unat_of_nat zdiv_int)

text \<open>A packed header has no reserved bits set.\<close>

lemma packed_header_reserved:
  assumes "header_ok h" and "Header_pack h = Inr bs"
  shows "bs ! 2 AND 0xE0 = 0" "length bs = 4" "Header_unpack bs = Inr h"
proof -
  show u: "Header_unpack bs = Inr h" and l: "length bs = 4"
    using Header_roundtrip [OF assms(1)] assms(2) by auto
  have "bs = bs[2 := bs ! 2 AND 0x1F]" using Header_unpack_pack [OF u] assms(2) by simp
  then have "bs ! 2 = bs ! 2 AND 0x1F" using l by (metis nth_list_update_eq numeral_less_iff semiring_norm(76) semiring_norm(78))
  then have "bs ! 2 AND 0xE0 = (bs ! 2 AND 0x1F) AND 0xE0" by simp
  then show "bs ! 2 AND 0xE0 = 0" by (simp add: and.assoc)
qed

text \<open>The request's header as the C code sees it.\<close>

lemma request_load:
  assumes "Msg_from_data t r i data = Inr rq" and "snd (Msg_pack rq) = Inr req"
    and "0 \<le> t" "t < 256" "0 \<le> i" "i < 4096"
  shows "compost_header_load (Some (req @ pad)) False = Some (Inr (c_header_of (msg_header rq)))"
    and "4 \<le> length req"
proof -
  note sz = packed_message_size [OF assms(1,2)]
  have ok: "header_ok (msg_header rq)"
    using assms sz(1) words_byte [of "length data"] by (auto simp: Msg_from_data_eq header_ok_def)
  have "rbind (Header_pack (msg_header rq))
      (\<lambda>h. Inr (h @ data @ replicate (4 * words (length data) - length data) 0)) = Inr req"
    using Msg_pack_from_data [OF assms(1)] assms(2) by simp
  then obtain hb where hb: "Header_pack (msg_header rq) = Inr hb"
    "req = hb @ data @ replicate (4 * words (length data) - length data) 0"
    by (auto simp: rbind_Inr_iff)
  note res = packed_header_reserved [OF ok hb(1)]
  show "compost_header_load (Some (req @ pad)) False = Some (Inr (c_header_of (msg_header rq)))"
    using header_load_agrees [OF res(2)] res hb(2) by simp
  show "4 \<le> length req" using sz(2) by simp
qed

lemma c_header_of_txn: "1 \<le> txn h \<Longrightarrow> txn h \<le> 255 \<Longrightarrow> c_txn (c_header_of h) \<noteq> 0"
proof
  assume h: "1 \<le> txn h" "txn h \<le> 255" and "c_txn (c_header_of h) = 0"
  then have "uint (word_of_int (txn h) :: byte) = 0" by (simp add: c_header_of_def)
  with h show False by (simp add: byte_of_int_eq)
qed

lemma msg_process_handled:
  assumes req: "Msg_from_data t False i data = Inr rq" "snd (Msg_pack rq) = Inr req"
    and t: "1 \<le> t" "t \<le> 255" and i: "0 \<le> i" "i < 4096"
    and h: "map_of hs (word_of_int i) = Some h" "h (drop 4 (req @ pad)) (drop 4 txb) = Some (buf, Some n)" "n \<le> 1020"
    and room: "length buf = length (drop 4 txb)" "4 + 4 * words n \<le> length txb"
  shows "\<exists>txb' m.
    compost_msg_process hs (Some txb) (Some (req @ pad)) = Some (4 + 4 * int (words n), Some txb') \<and>
    length txb' = length txb \<and> Msg_unpack (take (4 + 4 * words n) txb') = Inr m \<and>
    msg_header m = \<lparr>len = int (words n), txn = t, resp = True, rpc_id = i\<rparr> \<and>
    payload m = take n buf @ slice n (4 * words n - n) buf"
proof -
  have t': "0 \<le> t" "t < 256" using t by simp_all
  note ld = request_load [OF req t' i]
  let ?h = "\<lparr>len = int (words n), txn = t, resp = True, rpc_id = i\<rparr>"
  have hdr: "msg_header rq = \<lparr>len = int (words (length data)), txn = t, resp = False, rpc_id = i\<rparr>"
    using req(1) by (auto simp: Msg_from_data_eq)
  have ok: "header_ok ?h" using t i h(3) words_byte [of n] by (simp add: header_ok_def)
  have w: "n \<le> 4 * words n" by (rule words_bounds)
  let ?txb = "take 4 txb @ buf"
  have len: "length ?txb = length txb" using room w by simp
  obtain bs where bs: "Header_pack ?h = Inr bs"
    "compost_header_store (Some ?txb) (c_header_of ?h) = Some (0, Some (bs @ drop 4 ?txb))"
    using header_store_agrees [OF ok, of ?txb] room w by auto
  note res = packed_header_reserved [OF ok bs(1)]
  have u: "uint (word_of_int (int (words n)) :: byte) = int (words n)"
    using h(3) words_byte [of n] by (intro byte_of_int_eq) simp_all
  have nz: "(word_of_int t :: byte) \<noteq> 0"
    using c_header_of_txn [of ?h] t by (simp add: c_header_of_def)
  let ?txb' = "bs @ buf"
  have d4: "drop 4 ?txb = buf" using room by simp
  have "compost_msg_process hs (Some txb) (Some (req @ pad)) = Some (4 + 4 * int (words n), Some ?txb')"
    using ld(1) ld(2) room w h nz bs(2) hdr u d4
    by (simp add: compost_msg_process_def compost_invoke_switch_def invoke_def c_header_of_def
        bytes_to_words Let_def)
  moreover have "length ?txb' = length txb" using res(2) room w by simp
  moreover have "Msg_unpack (take (4 + 4 * words n) ?txb') =
      Inr \<lparr>msg_header = ?h, payload = take n buf @ slice n (4 * words n - n) buf\<rparr>"
    using res(2,3) w take_add [of n "4 * words n - n" buf] by (simp add: Msg_unpack_def slice_def)
  ultimately show ?thesis by fastforce
qed


text \<open>
  A generated function serves \<open>f\<close>: for every packed arguments, whatever follows them in the receive
  buffer, it stores as many bytes as the packed result has, and these unpack to the result.
\<close>

definition serves :: "rpc \<Rightarrow> (pyval list \<Rightarrow> pyval) \<Rightarrow> invoke_fn \<Rightarrow> bool" where
  "serves r f h \<longleftrightarrow>
     (\<forall>args data out pad txp. PayloadSerdes_pack (req_serdes r) args = Inr data \<and>
        list_all2 wt (types (req_serdes r)) args \<and> PayloadSerdes_pack (resp_serdes r) [f args] = Inr out \<and>
        length out \<le> length txp \<and> length out \<le> 1020 \<longrightarrow>
        (\<exists>buf. h (data @ pad) txp = Some (buf, Some (length out)) \<and> length buf = length txp \<and>
           (\<forall>rest. PayloadSerdes_unpack (resp_serdes r) (take (length out) buf @ rest) = Inr [f args])))"

lemma drop_packed:
  assumes "Msg_from_data t r i bs = Inr m" and "snd (Msg_pack m) = Inr out"
    and "0 \<le> t" "t < 256" "0 \<le> i" "i < 4096"
  shows "drop 4 (out @ pad) = bs @ replicate (4 * words (length bs) - length bs) 0 @ pad"
  using Msg_roundtrip [OF assms(1) packed_message_size(1) [OF assms(1,2)] assms(3-6), of pad] assms(2)
  by (auto simp: Msg_unpack_def rbind_Inr_iff)

lemma response_in_session:
  assumes "Msg_unpack raw = Inr m" and "4 \<le> length raw" and "txn (msg_header m) = t" and "1 \<le> t"
    and "map_of rpcs (rpc_id (msg_header m)) \<noteq> None"
  shows "answers rpcs t raw m"
  using assms by (auto simp: answers_def)

text \<open>What a transport appends to a message ends up behind the payload.\<close>

lemma Msg_unpack_append:
  assumes "Msg_unpack raw = Inr m"
  shows "Msg_unpack (raw @ pad) = Inr (m\<lparr>payload := payload m @ pad\<rparr>) \<and> uint (hd raw) = len (msg_header m)"
proof -
  obtain h where h: "Header_unpack (slice 0 4 raw) = Inr h" "m = \<lparr>msg_header = h, payload = drop 4 raw\<rparr>"
    using assms by (auto simp: Msg_unpack_def rbind_Inr_iff)
  then have l: "4 \<le> length raw" using Header_unpack_length [OF h(1)] by (simp add: slice_def)
  obtain a b c d rest where r: "raw = a # b # c # d # rest" using l by (auto simp: numeral_eq_Suc Suc_le_length_iff)
  then show ?thesis using h by (simp add: Msg_unpack_def slice_def Header_unpack_bytes) auto
qed

lemma remote_call:
  assumes s: "txn_valid s" "alive s" "q s = []" and send: "\<And>out. tsend out = Inr ()"
    and reg: "register_all [] rs = Inr rpcs" "r \<in> set rs" "\<not> is_notification r"
    and args: "PayloadSerdes_pack (req_serdes r) args = Inr data" "list_all2 wt (types (req_serdes r)) args"
    and rq: "Msg_from_data (fst (next_txn s)) False (id_of r) data = Inr rq" "snd (Msg_pack rq) = Inr req"
    and h: "map_of hs (word_of_int (id_of r)) = Some h" "serves r f h"
    and rsp: "PayloadSerdes_pack (resp_serdes r) [f args] = Inr out" "length out \<le> 1020"
    and room: "4 + 4 * words (length out) \<le> length txb"
  shows "\<exists>n txb'. compost_msg_process hs (Some txb) (Some (req @ pad)) = Some (int n, Some txb') \<and>
    n = 4 + 4 * words (length out) \<and> length txb' = length txb \<and> uint (hd (take n txb')) = int (words (length out)) \<and>
    (\<forall>pad'. \<exists>s'. Rpc_call rpcs run tsend r args [Inr (take n txb' @ pad')] s = (Inr (Some (f args)), s') \<and>
       sent s' = sent s @ [req] \<and> q s' = [] \<and> alive s' \<and> txn_valid s')"
proof -
  let ?t = "fst (next_txn s)" and ?n = "4 + 4 * words (length out)"
  note t = next_txn_range(1,2) [OF s(1)]
  have t': "0 \<le> ?t" "?t < 256" using t by simp_all
  have lk: "map_of rpcs (id_of r) = Some r" using register_lookup [OF reg(1,2)] .
  have i: "0 \<le> id_of r" "id_of r < 4096" using register_dom [OF reg(1) lk] by simp_all
  have w: "length out \<le> 4 * words (length out)" by (rule words_bounds)
  have tl: "length out \<le> length (drop 4 txb)" using room w by simp
  obtain buf where ho: "h (drop 4 (req @ pad)) (drop 4 txb) = Some (buf, Some (length out))"
    and bl: "length buf = length (drop 4 txb)"
    and dec: "\<And>rest. PayloadSerdes_unpack (resp_serdes r) (take (length out) buf @ rest) = Inr [f args]"
    using h(2) args rsp tl unfolding serves_def drop_packed [OF rq t' i] by blast
  obtain txb' m where mp: "compost_msg_process hs (Some txb) (Some (req @ pad)) = Some (int ?n, Some txb')"
    and len: "length txb' = length txb" and um: "Msg_unpack (take ?n txb') = Inr m"
    and hm: "msg_header m = \<lparr>len = int (words (length out)), txn = ?t, resp = True, rpc_id = id_of r\<rparr>"
    and pm: "payload m = take (length out) buf @ slice (length out) (4 * words (length out) - length out) buf"
    using msg_process_handled [OF rq t i h(1) ho rsp(2) bl room] by auto
  have dl: "length data \<le> 1020" by (rule packed_message_size(1) [OF rq])
  have "\<exists>s'. Rpc_call rpcs run tsend r args [Inr (take ?n txb' @ pad')] s = (Inr (Some (f args)), s') \<and>
      sent s' = sent s @ [req] \<and> q s' = [] \<and> alive s' \<and> txn_valid s'" for pad'
  proof -
    let ?m = "m\<lparr>payload := payload m @ pad'\<rparr>"
    have a: "answers rpcs ?t (take ?n txb' @ pad') ?m"
      using Msg_unpack_append [OF um, of pad'] hm t(1) lk len room by (intro response_in_session) auto
    obtain s' where s': "Session_rpc rpcs run tsend (id_of r) data ([] @ [Inr (take ?n txb' @ pad')]) s = (Inr (payload ?m), s')"
      "sent s' = sent s @ [req]" "q s' = []" "alive s'" "last_txn s' = ?t"
      using Session_rpc_answered [where tsend = tsend and run = run and i = "id_of r" and ns = "[]",
          OF s dl send _ a] rq by auto
    have "PayloadSerdes_unpack (resp_serdes r) (payload ?m) = Inr [f args]" by (simp add: pm dec)
    with s' args(1) reg(3) have "Rpc_call rpcs run tsend r args [Inr (take ?n txb' @ pad')] s = (Inr (Some (f args)), s')"
      by (simp add: Rpc_call_def)
    moreover have "txn_valid s'" using s'(5) t by (simp add: txn_valid_def)
    ultimately show ?thesis using s' by blast
  qed
  moreover have "uint (hd (take ?n txb')) = int (words (length out))" using Msg_unpack_append [OF um] hm by simp
  ultimately show ?thesis using mp len by blast
qed

text \<open>A procedure the C side does not know: it answers with an identifier that Python does not know.\<close>

lemma unknown_id_bytes: "word_of_int 0xFEE = UNKNOWN_MSG"
  by (simp add: UNKNOWN_MSG_def)

lemma msg_process_unknown:
  assumes req: "Msg_from_data t False i data = Inr rq" "snd (Msg_pack rq) = Inr req"
    and t: "1 \<le> t" "t \<le> 255" and i: "0 \<le> i" "i < 4096"
    and h: "map_of hs (word_of_int i) = None" and room: "4 \<le> length txb"
  shows "\<exists>txb' m. compost_msg_process hs (Some txb) (Some (req @ pad)) = Some (4, Some txb') \<and>
    Msg_unpack (take 4 txb') = Inr m \<and>
    msg_header m = \<lparr>len = 0, txn = t, resp = True, rpc_id = 0xFEE\<rparr> \<and> payload m = []"
proof -
  have t': "0 \<le> t" "t < 256" using t by simp_all
  note ld = request_load [OF req t' i]
  let ?h = "\<lparr>len = 0, txn = t, resp = True, rpc_id = 0xFEE\<rparr> :: header"
  have hdr: "msg_header rq = \<lparr>len = int (words (length data)), txn = t, resp = False, rpc_id = i\<rparr>"
    using req(1) by (auto simp: Msg_from_data_eq)
  have ok: "header_ok ?h" using t by (simp add: header_ok_def)
  obtain bs where bs: "Header_pack ?h = Inr bs"
    "compost_header_store (Some txb) (c_header_of ?h) = Some (0, Some (bs @ drop 4 txb))"
    using header_store_agrees [OF ok room] by blast
  note res = packed_header_reserved [OF ok bs(1)]
  have nz: "(word_of_int t :: byte) \<noteq> 0"
    using c_header_of_txn [of ?h] t by (simp add: c_header_of_def)
  have "compost_msg_process hs (Some txb) (Some (req @ pad)) = Some (4, Some (bs @ drop 4 txb))"
    using ld(1) ld(2) room h nz bs(2) hdr
    by (simp add: compost_msg_process_def compost_invoke_switch_def compost_unknown_msg_def
        c_header_of_def Let_def unknown_id_bytes [symmetric])
  moreover have "Msg_unpack (take 4 (bs @ drop 4 txb)) = Inr \<lparr>msg_header = ?h, payload = []\<rparr>"
    using res(2,3) by (simp add: Msg_unpack_def slice_def)
  ultimately show ?thesis by fastforce
qed

lemma Msg_unpack_length:
  assumes "Msg_unpack bs = Inr m" shows "4 \<le> length bs"
proof -
  obtain h where "Header_unpack (slice 0 4 bs) = Inr h"
    using assms by (auto simp: Msg_unpack_def rbind_Inr_iff)
  from Header_unpack_length [OF this] show ?thesis by simp
qed

text \<open>The answer to an unknown procedure, as the Python session takes it.\<close>

lemma unknown_response_raises:
  assumes "txn_valid s" "alive s" "q s = []" and "length data \<le> 1020" and "\<And>out. tsend out = Inr ()"
    and "4 \<le> length raw" "Msg_unpack raw = Inr m" "map_of rpcs (rpc_id (msg_header m)) = None"
  shows "fst (Session_rpc rpcs run tsend i data [Inr raw] s) = Inl UnknownRpcIdError"
proof -
  obtain t out s1 where sr: "send_request tsend i data s = (Inr t, s1\<lparr>sent := sent s @ [out]\<rparr>)"
    and s1: "s1 = s\<lparr>last_txn := t\<rparr>"
    using send_request_ok [OF assms(1,4), of tsend i] assms(5) by auto
  show ?thesis
    using sr s1 assms(2,3,6-8)
    by (simp add: Session_rpc_def receiver_round_def q_put_def recv_response_def Let_def)
qed

section \<open>Properties of the generated code against Python\<close>

text \<open>
  C19. For every header whose fields fit, \<^verbatim>\<open>compost_header_store\<close> writes the bytes that
  \<^verbatim>\<open>Header.pack\<close> produces and leaves the rest of the buffer.
\<close>

theorem c_header_store_agrees:
  assumes "header_ok h" and "4 \<le> length b"
  shows "\<exists>bs. Header_pack h = Inr bs \<and>
    compost_header_store (Some b) (c_header_of h) = Some (0, Some (bs @ drop 4 b))"
  using assms by (rule header_store_agrees)

theorem c_header_store_agrees_witness:
  "\<exists>bs. Header_pack \<lparr>len = 3, txn = 200, resp = True, rpc_id = 0xABC\<rparr> = Inr bs \<and>
    compost_header_store (Some (replicate 6 255)) (c_header_of \<lparr>len = 3, txn = 200, resp = True, rpc_id = 0xABC\<rparr>) =
      Some (0, Some (bs @ [255, 255]))"
  using c_header_store_agrees [of "\<lparr>len = 3, txn = 200, resp = True, rpc_id = 0xABC\<rparr>" "replicate 6 255"]
  by (simp add: header_ok_def numeral_2_eq_2)

text \<open>
  C20. \<^verbatim>\<open>compost_header_load\<close> refuses a header with a reserved bit set, which \<^verbatim>\<open>Header.unpack\<close>
  accepts; every other header it reads as \<^verbatim>\<open>Header.unpack\<close> does.
\<close>

theorem c_header_load_agrees:
  assumes "length bs = 4"
  shows "\<exists>h. Header_unpack bs = Inr h \<and>
    compost_header_load (Some (bs @ rest)) False =
      (if bs ! 2 AND 0xE0 \<noteq> 0 then Some (Inl COMPOST_EFLAGS) else Some (Inr (c_header_of h)))"
  using header_load_agrees [OF assms, of rest] Header_unpack_total [OF assms] by auto

theorem c_header_load_agrees_witness:
  "\<exists>h. Header_unpack [1, 2, 0x13, 4] = Inr h \<and>
    compost_header_load (Some ([1, 2, 0x13, 4] @ [9])) False = Some (Inr (c_header_of h))"
  using c_header_load_agrees [of "[1, 2, 0x13, 4]" "[9]"] by simp

text \<open>
  C32. A request for a procedure that the generated code does not handle is answered with the
  identifier 0xFEE, which no Python protocol can register, so that the call raises
  \<^verbatim>\<open>UnknownRpcIdError\<close>.
\<close>

theorem unknown_procedure:
  assumes "txn_valid s" "alive s" "q s = []" and "length data \<le> 1020" and "\<And>out. tsend out = Inr ()"
    and "register_all [] rs = Inr rpcs" and "0 \<le> i" "i < 4096"
    and "Msg_from_data (fst (next_txn s)) False i data = Inr rq" "snd (Msg_pack rq) = Inr req"
    and "map_of hs (word_of_int i) = None" and "4 \<le> length txb"
  shows "\<exists>txb'. compost_msg_process hs (Some txb) (Some (req @ pad)) = Some (4, Some txb') \<and>
    fst (Session_rpc rpcs run tsend i data [Inr (take 4 txb')] s) = Inl UnknownRpcIdError"
proof -
  note t = next_txn_range(1,2) [OF assms(1)]
  obtain txb' m where c: "compost_msg_process hs (Some txb) (Some (req @ pad)) = Some (4, Some txb')"
    and m: "Msg_unpack (take 4 txb') = Inr m" and id: "rpc_id (msg_header m) = 0xFEE"
    using msg_process_unknown [OF assms(9,10) t assms(7,8,11,12)] by fastforce
  have "4 \<le> length (take 4 txb')" by (rule Msg_unpack_length [OF m])
  moreover have "map_of rpcs 0xFEE = None"
    using register_dom [OF assms(6), of "0xFEE"] by (cases "map_of rpcs 0xFEE") auto
  ultimately show ?thesis
    using c unknown_response_raises [where tsend = tsend, OF assms(1-5) _ m] id by auto
qed

theorem unknown_procedure_witness:
  "\<exists>txb'. compost_msg_process [] (Some (replicate 8 0)) (Some ([0, 2, 0, 5] @ [])) = Some (4, Some txb') \<and>
    fst (Session_rpc [(1, read8)] (\<lambda>_ _. Inr ()) (\<lambda>_. Inr ()) 5 [] [Inr (take 4 txb')] Session_init) =
      Inl UnknownRpcIdError"
proof -
  have m: "Msg_from_data (fst (next_txn Session_init)) False 5 [] =
      Inr \<lparr>msg_header = \<lparr>len = 0, txn = 2, resp = False, rpc_id = 5\<rparr>, payload = []\<rparr>" by code_simp
  have o: "snd (Msg_pack \<lparr>msg_header = \<lparr>len = 0, txn = 2, resp = False, rpc_id = 5\<rparr>, payload = []\<rparr>) =
      Inr [0, 2, 0, 5]" by code_simp
  have s: "txn_valid Session_init" "alive Session_init" "q Session_init = []"
    by (simp_all add: Session_init_def txn_valid_def)
  show ?thesis
    using unknown_procedure [OF s _ _ read8_registered _ _ m o, of "\<lambda>_. Inr ()" "[]" "replicate 8 0" "[]" "\<lambda>_ _. Inr ()"]
    by simp
qed

end
