(* ===== verification/CInterop.thy ===== *)
theory CInterop
  imports CStructs CRuntime PayloadSize
begin

text \<open>
  What Python packs, the generated C code loads: a payload in C memory at any address is read by the
  load functions to values that stand for the packed arguments.
\<close>

section \<open>The C number of a Python value\<close>

lemma f32_narrow_le: "f32_narrow_mag m = Inr n \<Longrightarrow> m \<le> f64_inf \<Longrightarrow> n \<le> f32_inf"
  by (auto simp: f32_narrow_mag_def Let_def split: if_splits prod.splits)

lemma f32_packed_not_nan:
  assumes "f32_representable v" and "pack_f32 v = Inr bs"
  shows "be_decode bs mod 2 ^ 31 \<le> int f32_inf \<and> length bs = 4"
proof -
  obtain m where m: "f32_narrow_mag (f64_mag v) = Inr m" "\<not> is_nan v"
    using assms(1) by (auto simp: f32_representable_def split: sum.splits)
  then have le: "m \<le> f32_inf" using f32_narrow_le by (auto simp: is_nan_def)
  then have lt: "m < 2 ^ 31" by (simp add: f32_inf_def)
  let ?b = "(if f64_sign v then 2 ^ 31 else 0) + m"
  have bs: "bs = be_encode 4 (int ?b)" using assms(2) m(1) by (simp add: pack_f32_def)
  have "int ?b < 256 ^ 4" using lt by simp
  then have "be_decode bs = int ?b" unfolding bs by (intro be_decode_encode_id) simp_all
  moreover have "?b mod 2 ^ 31 = m" using lt by (simp add: mod_add_left_eq)
  then have "int ?b mod 2 ^ 31 = int m" by (metis of_nat_mod of_nat_numeral of_nat_power)
  ultimately show ?thesis using le bs by simp
qed

lemma dom_cnum:
  assumes "fmt_dom (num_fmt k) v"
  obtains x where "cnum_width x = csizeof k" and "\<not> c_nan k x" and "v = py_of_cnum k x"
    and "struct_pack (num_fmt k) v = Inr (cnum_bytes x)"
proof -
  obtain bs where bs: "struct_pack (num_fmt k) v = Inr bs" "length bs = fmt_width (num_fmt k)"
    "struct_unpack (num_fmt k) bs = v"
    using st.enc_domain [OF assms] by blast
  define x where "x = cnum_of k (be_decode bs)"
  have w: "cnum_width x = csizeof k" by (simp add: x_def)
  have b: "cnum_bytes x = bs" unfolding x_def by (rule cnum_bytes_of) (simp add: bs(2) csizeof_def)
  have "\<not> c_nan k x"
  proof (cases "k = F32")
    case True
    then obtain y where y: "v = VFloat y" "f32_representable y" using assms by (cases v) auto
    then have "pack_f32 y = Inr bs" using bs(1) True by (simp add: struct_pack_def)
    note r = f32_packed_not_nan [OF y(2) this]
    have "be_decode bs < 2 ^ 32" using be_decode_bounds [of bs] r by simp
    then have "uint (word_of_int (be_decode bs) :: 32 word) = be_decode bs"
      using be_decode_bounds [of bs] by (simp add: uint_word_of_int_eq take_bit_int_eq_self)
    then have "int (unat (word_of_int (be_decode bs) :: 32 word) mod 2 ^ 31) = be_decode bs mod 2 ^ 31"
      by (simp add: of_nat_mod)
    with r show ?thesis using True by (simp add: x_def)
  qed (cases k; cases x; simp)
  moreover have "v = py_of_cnum k x" using py_of_cnum_val [OF w] bs(3) b by simp
  ultimately show thesis using that w bs(1) b by blast
qed

lemma wt_cnum:
  assumes "wt t v" and "num_of_type t = Some k"
  obtains x where "cnum_rel k v x"
proof (cases t rule: num_of_type.cases)
  case (1 k')
  then have "fmt_dom (num_fmt k) v" using assms by simp
  then obtain x where "cnum_width x = csizeof k" "\<not> c_nan k x" "v = py_of_cnum k x" by (rule dom_cnum)
  then show thesis by (intro that [of x]) (simp add: cnum_rel_def)
next
  case (2 n k' ms)
  with assms obtain i where v: "v = VEnum n i" and k: "k \<in> {I8, U8, I16}" and "fmt_range (num_fmt k) i"
    by (auto split: pyval.splits)
  then have "fmt_dom (num_fmt k) (VInt i)" by auto
  then obtain x where "cnum_width x = csizeof k" "\<not> c_nan k x" "VInt i = py_of_cnum k x" by (rule dom_cnum)
  then show thesis using v k by (intro that [of x]) (auto simp: cnum_rel_def simp flip: \<open>VInt i = py_of_cnum k x\<close>)
qed (use assms in auto)

lemma dom_cnums:
  assumes "list_all (fmt_dom (num_fmt k)) vs"
  obtains xs where "widths k xs" and "no_nan k xs" and "vs = map (py_of_cnum k) xs"
    and "rmap (struct_pack (num_fmt k)) vs = Inr (map cnum_bytes xs)"
  using assms
proof (induction vs arbitrary: thesis)
  case Nil
  show ?case by (rule Nil.prems(1) [of "[]"]) (simp_all add: widths_def no_nan_def)
next
  case (Cons v vs)
  then have dv: "fmt_dom (num_fmt k) v" "list_all (fmt_dom (num_fmt k)) vs" by simp_all
  obtain xs where xs: "widths k xs" "no_nan k xs" "vs = map (py_of_cnum k) xs"
    "rmap (struct_pack (num_fmt k)) vs = Inr (map cnum_bytes xs)"
    by (rule Cons.IH [OF _ dv(2)])
  obtain x where "cnum_width x = csizeof k" "\<not> c_nan k x" "v = py_of_cnum k x"
    "struct_pack (num_fmt k) v = Inr (cnum_bytes x)"
    using dv(1) by (rule dom_cnum)
  with xs show ?case by (intro Cons.prems(1) [of "x # xs"]) (simp_all add: widths_def no_nan_def)
qed


section \<open>A payload shown in memory\<close>

text \<open>The bits of a buffer from \<open>lo\<close> up to \<open>hi\<close>, seen in memory where the buffer starts at \<open>b\<close>.\<close>

definition shown :: "caddr \<Rightarrow> cmem \<Rightarrow> nat \<Rightarrow> nat \<Rightarrow> byte list \<Rightarrow> bool" where
  "shown b m lo hi buf \<longleftrightarrow> 8 * b + hi \<le> 8 * length m \<and> hi \<le> 8 * length buf \<and>
     (\<forall>i. lo \<le> i \<and> i < hi \<longrightarrow> buf_bit m (8 * b + i) = buf_bit buf i)"

lemma shown_slice:
  assumes "shown b m lo hi buf" and "lo \<le> 8 * p" and "8 * (p + n) \<le> hi"
  shows "slice (b + p) n m = slice p n buf" and "b + p + n \<le> length m"
proof -
  show le: "b + p + n \<le> length m" using assms by (simp add: shown_def)
  have "slice p n (drop b m) = slice p n buf"
    using assms le by (intro slice_eqI) (auto simp: shown_def buf_bit_drop)
  then show "slice (b + p) n m = slice p n buf" by (simp add: slice_def add.commute)
qed

lemma shown_first: "shown b m lo hi buf' \<Longrightarrow> appends buf o1 buf' hi \<Longrightarrow> shown b m lo o1 buf"
  by (auto simp: shown_def appends_def)

lemma shown_rest: "shown b m lo hi buf \<Longrightarrow> lo \<le> lo' \<Longrightarrow> shown b m lo' hi buf"
  by (auto simp: shown_def)

lemma slice_sub: "slice p (a + n) xs = as @ bs \<Longrightarrow> length as = a \<Longrightarrow> slice (p + a) n xs = bs"
proof -
  assume s: "slice p (a + n) xs = as @ bs" and a: "length as = a"
  have "slice (p + a) n xs = drop a (slice p (a + n) xs)" by (simp add: slice_def drop_take add.commute)
  then show ?thesis using s a by simp
qed

text \<open>The elements of a slice whose bytes are those of given numbers.\<close>

lemma slice_vals_of:
  assumes "widths k xs" and "slice p (csizeof k * length xs) m = concat (map cnum_bytes xs)"
    and "unat n = length xs" and "p + csizeof k * length xs \<le> length m"
  shows "slice_vals k m \<lparr>ptr = Some p, slen = n\<rparr> = xs"
proof -
  have "elem k m p i = xs ! i" if "i < length xs" for i
    using assms(1,2,4) that
  proof (induction xs arbitrary: p i)
    case (Cons x xs)
    let ?w = "csizeof k"
    have w: "cnum_width x = ?w" "widths k xs" using Cons.prems(1) by (simp_all add: widths_def)
    have s: "slice p (?w + ?w * length xs) m = cnum_bytes x @ concat (map cnum_bytes xs)" using Cons.prems(2) by simp
    have "slice p ?w m = take ?w (slice p (?w + ?w * length xs) m)" by (simp add: slice_def)
    then have x: "slice p ?w m = cnum_bytes x" by (simp add: s w)
    have rest: "slice (p + ?w) (?w * length xs) m = concat (map cnum_bytes xs)"
      using slice_sub [OF s] w by simp
    show ?case
    proof (cases i)
      case 0
      then show ?thesis using x w(1) by (simp add: elem_def cnum_bytes_decode cnum_of_val)
    next
      case (Suc j)
      have "elem k m p (Suc j) = elem k m (p + ?w) j" by (simp add: elem_def add.assoc)
      then show ?thesis using Cons.IH [OF w(2) rest, of j] Cons.prems(3,4) Suc by simp
    qed
  qed simp
  then show ?thesis using assms(3) by (auto simp: slice_vals_def intro: nth_equalityI)
qed

lemma widths_bytes: "widths k xs \<Longrightarrow> length (concat (map cnum_bytes xs)) = csizeof k * length xs"
  by (induction xs) (simp_all add: widths_def)

text \<open>A slice that lies between two addresses.\<close>

definition within :: "nat \<Rightarrow> nat \<Rightarrow> numty \<Rightarrow> c_slice \<Rightarrow> bool" where
  "within lo hi k s \<longleftrightarrow> ptr s \<noteq> None \<and> lo \<le> the (ptr s) \<and> slice_end k s \<le> hi"

lemma within_mono: "within lo hi k s \<Longrightarrow> hi \<le> hi' \<Longrightarrow> within lo hi' k s"
  by (simp add: within_def)

lemma load_slice:
  assumes "shown b m (8 * p) (8 * (p + (2 + n))) buf" and "widths k xs" and n: "n = csizeof k * length xs" "n < 65536"
    and "slice p (2 + n) buf = be_encode 2 (int n) @ concat (map cnum_bytes xs)"
  shows "\<exists>s. slice_access Load self k m (b + p) c0 = Some (m, b + (p + (2 + n)), CSl s) \<and>
    within b (b + (p + (2 + n))) k s \<and> slice_vals k m s = xs"
proof -
  note sl = shown_slice [OF assms(1) order_refl order_refl]
  have at: "slice (b + p) (2 + n) m = be_encode 2 (int n) @ concat (map cnum_bytes xs)" using sl(1) assms(5) by simp
  have l: "length (concat (map cnum_bytes xs)) = n" using widths_bytes [OF assms(2)] n by simp
  let ?s = "\<lparr>ptr = Some (b + p + 2), slen = of_nat (n div csizeof k)\<rparr> :: c_slice"
  have dv: "n div csizeof k = length xs" using n csizeof_pos(1) [of k] by simp
  have "length xs \<le> n" using n csizeof_pos(1) [of k] by (cases "csizeof k") auto
  then have u: "unat (of_nat (n div csizeof k) :: 16 word) = length xs"
    using n(2) by (simp add: dv unat_of_nat)
  have "slice (b + p + 2) n m = concat (map cnum_bytes xs)" using slice_sub [OF at] by simp
  then have "slice_vals k m ?s = xs"
    using slice_vals_of [OF assms(2) _ u, of "b + p + 2" m] sl(2) n by simp
  moreover have "within b (b + (p + (2 + n))) k ?s" using u n by (simp add: within_def slice_end_def)
  moreover have "compost_slice_load k m (b + p) = Some (?s, b + p + 2 + n)"
    by (rule slice_load_put [OF l n(2) _ at]) (use sl(2) in simp)
  ultimately show ?thesis by (auto simp: slice_access_def)
qed

text \<open>A value that is no structure.\<close>

lemma load_value:
  assumes pk: "pack_value t v buf off = Inr (buf', off')" and t: "c_supported t" "\<not> is_compost_struct t"
    and wt: "wt t v" and fit: "off \<le> 8 * length buf" and sh: "shown b m off off' buf'"
  shows "\<exists>c. access Load self t m (b + mu_bytes off) c0 = Some (m, b + mu_bytes off', c) \<and> crel m t v c \<and>
    cwt (within b (b + mu_bytes off')) t c \<and> off' = 8 * mu_bytes off'"
proof (cases "num_of_type t")
  case (Some k)
  obtain x where x: "cnum_rel k v x" using wt Some by (rule wt_cnum)
  have a: "access Load self t = num_access Load k" and pn: "pack_num k v buf off = Inr (buf', off')"
    using pk Some by (cases t rule: num_of_type.cases; auto simp: fun_eq_iff)+
  note r = pack_num_put [OF pn x fit]
  let ?p = "mu_bytes off"
  have w: "cnum_width x = csizeof k" using x by (simp add: cnum_rel_def)
  have l: "length buf' = length buf" using r(3) by (simp add: keeps_def)
  have "off' \<le> 8 * length buf'" using sh by (simp add: shown_def)
  then have fit': "?p + csizeof k \<le> length buf" using r(2) l by simp
  have "buf' = put buf ?p (cnum_bytes x)" using r(1) fit' w by (simp add: num_access_def num_store_put)
  then have "slice ?p (csizeof k) buf' = cnum_bytes x" using slice_put [of ?p "cnum_bytes x" buf] fit' w by simp
  moreover have "shown b m (8 * ?p) off' buf'" by (rule shown_rest [OF sh]) (rule mu_bytes_bounds(1))
  note s = shown_slice [OF this order_refl, of "csizeof k"]
  ultimately have "slice (b + ?p) (csizeof k) m = cnum_bytes x" "b + ?p + csizeof k \<le> length m" using s r(2) by simp_all
  then have ld: "num_load k m (b + ?p) = Some (x, b + ?p + csizeof k)"
    using num_load_slice [of "b + ?p" k m] w by (simp add: cnum_bytes_decode cnum_of_val)
  have cw: "cwt P t (CNum x)" for P using Some w by (cases t rule: num_of_type.cases) auto
  moreover have "mu_bytes off' = ?p + csizeof k" unfolding r(2) by (rule mu_bytes_mult)
  ultimately show ?thesis
    using Some x r(2) by (intro exI [of _ "CNum x"]) (simp add: a num_access_def cw ld)
next
  case None
  with t obtain k where k: "slice_elem t = Some k" by (cases t rule: c_supported.cases) auto
  then have a: "access Load self t = slice_access Load self k"
    by (cases t rule: slice_elem.cases) (auto simp: fun_eq_iff)
  let ?p = "mu_bytes off"
  have p: "?p \<le> length buf" using fit by (simp add: mu_bytes_le_iff)
  have pk: "pack_value t v buf (8 * ?p) = Inr (buf', off')"
    using pk k by (cases t rule: slice_elem.cases) (simp_all add: mu_byte_align_eq)
  obtain xs where xs: "widths k xs" "csizeof k * length xs < 65536"
    "buf' = put buf ?p (be_encode 2 (int (csizeof k * length xs)) @ concat (map cnum_bytes xs))"
    "off' = 8 * (?p + (2 + csizeof k * length xs))" "?p + (2 + csizeof k * length xs) \<le> length buf"
    "\<And>s. slice_vals k m s = xs \<Longrightarrow> crel m t v (CSl s)"
  proof (cases "is_list_type t")
    case False
    then have u8: "k = U8" using k by (cases t rule: slice_elem.cases) auto
    obtain bs where bs: "pack_blob bs buf (8 * ?p) = Inr (buf', off')"
      "\<And>s. slice_vals U8 m s = map C8 bs \<Longrightarrow> crel m t v (CSl s)"
      using pk k wt False
      by (cases t rule: slice_elem.cases)
         (auto simp: rbind_Inr_iff py_bytes_def py_str_encode_def mu_byte_align_eq split: pyval.splits)
    have c: "concat (map cnum_bytes (map C8 bs)) = bs" by (simp add: cnum_bytes_def o_def)
    show thesis
      using pack_blob_put [OF bs(1) p] bs(2) c u8
      by (intro that [of "map C8 bs"]) (simp_all add: widths_def csizeof_def list_all_iff del: map_map)
  next
    case True
    then have t: "t = TList [TNum k]" using k by (cases t rule: slice_elem.cases) auto
    then obtain vs where v: "v = VList vs" "list_all (fmt_dom (num_fmt k)) vs" using wt by (auto split: pyval.splits)
    obtain xs where xs: "widths k xs" "no_nan k xs" "vs = map (py_of_cnum k) xs"
      "rmap (struct_pack (num_fmt k)) vs = Inr (map cnum_bytes xs)"
      using v(2) by (rule dom_cnums)
    let ?n = "csizeof k * length xs"
    have lv: "length vs = length xs" by (simp add: xs(3))
    obtain hdr m1 where h: "struct_pack Fmt_H (VInt (int ?n)) = Inr hdr" "put_bytes buf (8 * ?p) 2 hdr = Inr m1"
      "pack_items (TNum k) vs m1 (8 * (?p + 2)) = Inr (buf', off')"
      using pk by (auto simp: t v pack_list_def rbind_Inr_iff mu_byte_align_eq mu_set_bytes_eq type_size_def lv csizeof_def
        mult.commute [of "int (length xs)"])
    have hdr: "hdr = be_encode 2 (int ?n)" "?n < 65536"
      using h(1) by (auto simp: struct_pack_def fmt_range_def simp del: of_nat_mult split: if_splits)
    have "8 * ?p \<le> 8 * length buf" using p by simp
    note b1 = put_bytes_put [OF h(2) _ this, unfolded hdr]
    have m1: "m1 = put buf ?p (be_encode 2 (int ?n))" "?p + 2 \<le> length buf" using b1 by simp_all
    have l2: "?p + 2 \<le> length m1" using m1 by simp
    show thesis
      using pack_items_put [OF h(3) xs(4) l2] widths_bytes [OF xs(1)] m1 xs(2,3) hdr(2)
      by (intro that [OF xs(1)]) (simp_all add: put_next add.assoc t v slice_py_def)
  qed
  let ?n = "csizeof k * length xs"
  have "shown b m (8 * ?p) (8 * (?p + (2 + ?n))) buf'"
    using shown_rest [OF sh mu_bytes_bounds(1)] by (simp only: xs(4))
  moreover have "slice ?p (2 + ?n) buf' = be_encode 2 (int ?n) @ concat (map cnum_bytes xs)"
    unfolding xs(3) using slice_put [of ?p "be_encode 2 (int ?n) @ concat (map cnum_bytes xs)" buf] xs(5) widths_bytes [OF xs(1)]
    by simp
  ultimately obtain s where s: "slice_access Load self k m (b + ?p) c0 = Some (m, b + (?p + (2 + ?n)), CSl s)" "slice_vals k m s = xs"
    "within b (b + (?p + (2 + ?n))) k s"
    using load_slice [OF _ xs(1) refl xs(2)] by blast
  have mo: "mu_bytes off' = ?p + (2 + ?n)" unfolding xs(4) by (rule mu_bytes_mult)
  have "cwt (within b (b + (?p + (2 + ?n)))) t (CSl s)"
    using k s(3) by (cases t rule: slice_elem.cases) simp_all
  then show ?thesis using s(1) xs(6) [OF s(2)] xs(4) unfolding a mo by blast
qed


lemma load_bits:
  assumes pk: "BitU_pack w buf (8 * p + d) i = Inr (buf', off')" and i: "0 \<le> i" "i < 2 ^ w" and w: "w \<le> 32"
    and fit: "8 * p + d + w \<le> 8 * length buf" and sh: "shown b m (8 * p + d) off' buf'" and d: "d + w < 2 ^ 32"
  shows "bits_access Load d w m (b + p) c0 = Some (m, b + p, CBit (word_of_int i)) \<and>
    uint (word_of_int i :: 32 word) = i \<and> off' = 8 * p + d + w"
proof -
  let ?x = "word_of_int i :: 32 word"
  have "(2 :: int) ^ w \<le> 2 ^ 32" using w by (intro power_increasing) simp_all
  then have x: "uint ?x = i" using i by (simp add: uint_word_of_int_eq take_bit_int_eq_self)
  have st: "BitU_store w buf (8 * p + d) i = Inr buf'" and off: "off' = 8 * p + d + w"
    using pk by (auto simp: BitU_pack_eq rbind_Inr_iff)
  note r = bitu.store_result [OF TrueI fit st]
  have m: "8 * (b + p) + d + w \<le> 8 * length m" using sh off by (simp add: shown_def)
  have "buf_bit m j = bit (uint ?x) (8 * (b + p) + d + w - 1 - j)"
    if j: "8 * (b + p) + d \<le> j" "j < 8 * (b + p) + d + w" for j
  proof -
    define k where "k = j - 8 * b"
    have "8 * b \<le> j" using j(1) by simp
    then have jk: "j = 8 * b + k" unfolding k_def by simp
    have k: "8 * p + d \<le> k" "k < 8 * p + d + w" using j unfolding jk by simp_all
    have e: "8 * (b + p) + d + w - 1 - j = 8 * p + d + w - 1 - k" unfolding jk by simp
    have "buf_bit m j = buf_bit buf' k" unfolding jk using sh k off by (simp add: shown_def)
    also have "\<dots> = bit i (8 * p + d + w - 1 - k)" using r(2) [of k] k fit by simp
    finally show ?thesis unfolding e x .
  qed
  moreover have "c_field_ok w d" using w d by (simp add: c_field_ok_def)
  ultimately show ?thesis using bits_load [of w d "b + p" m ?x c0] m i(2) x off by simp
qed

text \<open>The fields a load function has assigned, in order.\<close>

fun crel_list :: "cmem \<Rightarrow> (numty \<Rightarrow> c_slice \<Rightarrow> bool) \<Rightarrow> members \<Rightarrow> pyval list \<Rightarrow> (string \<times> cval) list \<Rightarrow> bool" where
  "crel_list m P [] [] [] = True"
| "crel_list m P ((n, t) # ms) (v # pys) ((n', c) # vs) =
     (n' = n \<and> crel m t v c \<and> cwt P t c \<and> crel_list m P ms pys vs)"
| "crel_list m P _ _ _ = False"

lemma crel_list_names: "crel_list m P ms pys vs \<Longrightarrow> map fst vs = map fst ms"
  by (induction m P ms pys vs rule: crel_list.induct) auto

lemma crel_list_members:
  "crel_list m P ms pys vs \<Longrightarrow> distinct (map fst (pre @ ms)) \<Longrightarrow> map fst pre = map fst acc \<Longrightarrow>
   crel_members m ms pys (acc @ vs) \<and> cwt_members P ms (acc @ vs)"
proof (induction m P ms pys vs arbitrary: pre acc rule: crel_list.induct)
  case (2 m P n t ms v pys n' c vs)
  have "crel_members m ms pys ((acc @ [(n, c)]) @ vs) \<and> cwt_members P ms ((acc @ [(n, c)]) @ vs)"
    using "2.prems" by (intro "2.IH" [of "pre @ [(n, t)]"]) auto
  moreover have "n \<notin> set (map fst acc)" using "2.prems"(2) unfolding "2.prems"(3) [symmetric] by auto
  then have "map_of acc n = None" by (simp add: map_of_eq_None_iff)
  then have "map_of (acc @ (n, c) # vs) n = Some c" by (simp add: map_add_def)
  ultimately show ?case using "2.prems"(1) by simp
qed auto

lemma cwt_mono:
  assumes "\<And>k s. P k s \<Longrightarrow> Q k s"
  shows "cwt P t c \<Longrightarrow> cwt Q t c" and "cwt_members P ms vs \<Longrightarrow> cwt_members Q ms vs"
  using assms
  by (induction P t c and P ms vs rule: cwt_cwt_members.induct) (auto split: cval.splits option.splits)

lemma within_cwt: "cwt (within lo hi) t c \<Longrightarrow> hi \<le> hi' \<Longrightarrow> cwt (within lo hi') t c"
  by (rule cwt_mono(1) [of "within lo hi"]) (auto elim: within_mono)

definition bits_small :: "members \<Rightarrow> bool" where
  "bits_small ms = list_all (\<lambda>(n, t). case bitu_width t of Some w \<Rightarrow> w \<le> 32 | None \<Rightarrow> True) ms"

lemma load_members:
  assumes "pack_members ms (map astuple_inner pys) buf (8 * p + off) = Inr (buf', off')" and "wt_members ms pys"
    and "members_supported ms" and "bits_small ms" and "8 * p + off \<le> 8 * length buf" and "shown b m (8 * p + off) off' buf'"
    and "8 * length buf < 2 ^ 32"
  shows "\<exists>vs. access_members Load self ms off m (b + p) acc = Some (m, b + mu_bytes off', acc @ vs) \<and>
    crel_list m (within b (b + mu_bytes off')) ms pys vs"
  using assms
proof (induction ms arbitrary: pys buf off p acc)
  case Nil
  then show ?case using mu_bytes_add_mult [of off p] by (auto simp: add.commute add.left_commute)
next
  case (Cons nt ms)
  let ?P = "within b (b + mu_bytes off')"
  obtain n t where nt: "nt = (n, t)" by fastforce
  obtain v pys' where py: "pys = v # pys'" "wt t v" "wt_members ms pys'"
    using Cons.prems(2) by (auto simp: nt split: list.splits)
  obtain b1 o1 where p1: "pack_value t (astuple_inner v) buf (8 * p + off) = Inr (b1, o1)"
    and p2: "pack_members ms (map astuple_inner pys') b1 o1 = Inr (buf', off')"
    using Cons.prems(1) by (auto simp: nt py rbind_Inr_iff)
  have ns: "\<not> is_compost_struct t" using p1 pack_nested_struct by (cases t) auto
  have p1: "pack_value t v buf (8 * p + off) = Inr (b1, o1)" using p1 wt_astuple [OF py(2) ns] by simp
  have ap: "appends buf (8 * p + off) b1 o1" by (rule pack_value_appends(1) [OF p1 Cons.prems(5)])
  note ap1 = pack_value_appends(2) [OF p2 appends_fit [OF ap]]
  have le: "8 * p + off \<le> o1" "length b1 = length buf" "o1 \<le> 8 * length buf" using ap by (auto simp: appends_def)
  have sh1: "shown b m (8 * p + off) o1 b1"
    by (rule shown_first [OF _ ap1]) (use Cons.prems(6) ap1 in \<open>auto simp: shown_def appends_def\<close>)
  have sh2: "shown b m o1 off' buf'" by (rule shown_rest [OF Cons.prems(6) le(1)])
  have pre: "members_supported ms" "bits_small ms" "bitu_width t \<noteq> None \<or> c_supported t"
    using Cons.prems(3,4) by (auto simp: nt members_supported_def bits_small_def)
  show ?case
  proof (cases "bitu_width t")
    case (Some w)
    obtain i where i: "as_index v = Some i" "0 \<le> i" "i < 2 ^ w"
      using py(2) Some by (cases t rule: bitu_width.cases) (auto split: pyval.splits)
    have w: "w \<le> 32" using Cons.prems(4) Some by (simp add: nt bits_small_def)
    have bp: "BitU_pack w buf (8 * p + off) i = Inr (b1, o1)"
      using p1 Some i(1) by (cases t rule: bitu_width.cases) (auto simp: pack_bitu_def)
    then have o1: "o1 = 8 * p + off + w" by (auto simp: BitU_pack_eq rbind_Inr_iff)
    have "off + w < 2 ^ 32" using le(3) Cons.prems(7) o1 by linarith
    from load_bits [OF bp i(2,3) w le(3) [unfolded o1] sh1 this, of "CStruct []"]
    have a: "bits_access Load off w m (b + p) (CStruct []) = Some (m, b + p, CBit (word_of_int i))"
      "uint (word_of_int i :: 32 word) = i" by simp_all
    have p2': "pack_members ms (map astuple_inner pys') b1 (8 * p + (off + w)) = Inr (buf', off')"
      using p2 by (simp add: o1 add.assoc)
    have "\<exists>vs. access_members Load self ms (off + w) m (b + p) (acc @ [(n, CBit (word_of_int i))]) =
        Some (m, b + mu_bytes off', (acc @ [(n, CBit (word_of_int i))]) @ vs) \<and> crel_list m ?P ms pys' vs"
      using py(3) pre le sh2 Cons.prems(7) by (intro Cons.IH [OF p2']) (simp_all add: o1 add.assoc)
    then obtain vs where "access_members Load self ms (off + w) m (b + p) (acc @ [(n, CBit (word_of_int i))]) =
        Some (m, b + mu_bytes off', (acc @ [(n, CBit (word_of_int i))]) @ vs)" "crel_list m ?P ms pys' vs" by blast
    moreover have "cwt ?P t (CBit (word_of_int i))" using Some w a(2) i(3) by (cases t rule: bitu_width.cases) auto
    ultimately show ?thesis using a i(1) w
      by (intro exI [of _ "(n, CBit (word_of_int i)) # vs"]) (simp add: nt Some py)
  next
    case None
    have mb: "mu_bytes (8 * p + off) = p + mu_bytes off" using mu_bytes_add_mult [of off p] by (simp add: add.commute)
    have sup: "c_supported t" using pre(3) None by simp
    obtain c where c: "access Load self t m (b + (p + mu_bytes off)) (CStruct []) = Some (m, b + mu_bytes o1, c)"
      "crel m t v c" "o1 = 8 * mu_bytes o1" "cwt (within b (b + mu_bytes o1)) t c"
      using load_value [OF p1 sup ns py(2) Cons.prems(5) sh1, of self "CStruct []"] unfolding mb by blast
    have p2': "pack_members ms (map astuple_inner pys') b1 (8 * mu_bytes o1 + 0) = Inr (buf', off')"
      using p2 c(3) by simp
    have "\<exists>vs. access_members Load self ms 0 m (b + mu_bytes o1) (acc @ [(n, c)]) =
        Some (m, b + mu_bytes off', (acc @ [(n, c)]) @ vs) \<and> crel_list m ?P ms pys' vs"
      using py(3) pre le sh2 c(3) Cons.prems(7) by (intro Cons.IH [OF p2']) simp_all
    then obtain vs where "access_members Load self ms 0 m (b + mu_bytes o1) (acc @ [(n, c)]) =
        Some (m, b + mu_bytes off', (acc @ [(n, c)]) @ vs)" "crel_list m ?P ms pys' vs" by blast
    moreover have "o1 \<le> off'" using ap1 by (simp add: appends_def)
    then have "cwt ?P t c" by (intro within_cwt [OF c(4)]) (simp add: mu_bytes_mono)
    ultimately show ?thesis using c
      by (intro exI [of _ "(n, c) # vs"]) (simp add: nt None py add.assoc)
  qed
qed


section \<open>The arguments of a call\<close>

text \<open>A C value that stands for a Python value, structures included.\<close>

fun carg :: "cmem \<Rightarrow> ctype \<Rightarrow> pyval \<Rightarrow> cval \<Rightarrow> bool" where
  "carg m (TStruct n ms) v c =
     (case (v, c) of
        (VStruct n' pys, CStruct vs) \<Rightarrow> n' = n \<and> map fst vs = map fst ms \<and> crel_members m ms pys vs
      | _ \<Rightarrow> False)"
| "carg m t v c = crel m t v c"

lemma carg_crel: "\<not> is_compost_struct t \<Longrightarrow> carg m t v c = crel m t v c"
  by (cases t) simp_all

text \<open>
  What holds of a structure class in C: the members have different names, and no bit field is wider than
  the 32 bits of its C type.
\<close>

fun c_class_ok :: "ctype \<Rightarrow> bool" where
  "c_class_ok (TStruct n ms) = (distinct (map fst ms) \<and> bits_small ms)"
| "c_class_ok _ = True"

lemma load_arg:
  assumes pk: "pack_value t v buf off = Inr (buf', off')" and t: "c_supported t" "c_class_ok t" and wt: "wt t v"
    and fit: "off \<le> 8 * length buf" "8 * length buf < 2 ^ 32" and sh: "shown b m off off' buf'"
  shows "\<exists>c. access Load self t m (b + mu_bytes off) (CStruct []) = Some (m, b + mu_bytes off', c) \<and> carg m t v c \<and>
    cwt (within b (b + mu_bytes off')) t c"
proof (cases "is_compost_struct t")
  case False
  from load_value [OF pk t(1) False wt fit(1) sh, of self "CStruct []"] show ?thesis
    by (auto simp: carg_crel [OF False])
next
  case True
  then obtain n ms where ts: "t = TStruct n ms" by (cases t) auto
  then obtain pys where v: "v = VStruct n pys" "wt_members ms pys" using wt by (auto split: pyval.splits)
  have pm: "pack_members ms (map astuple_inner pys) buf (8 * mu_bytes off + 0) = Inr (buf', off')"
    using pk by (simp add: ts v astuple_def mu_byte_align_eq)
  have "mu_bytes off \<le> length buf" using fit(1) by (simp add: mu_bytes_le_iff)
  moreover have "shown b m (8 * mu_bytes off + 0) off' buf'" using shown_rest [OF sh mu_bytes_bounds(1)] by simp
  ultimately obtain vs where vs: "access_members Load self ms 0 m (b + mu_bytes off) [] = Some (m, b + mu_bytes off', [] @ vs)"
    "crel_list m (within b (b + mu_bytes off')) ms pys vs"
    using load_members [OF pm v(2), of b m self "[]"] t fit(2) by (auto simp: ts members_supported_def)
  then show ?thesis
    using crel_list_members [OF vs(2), of "[]" "[]"] crel_list_names [OF vs(2)] t(2)
    by (auto simp: ts v)
qed

fun access_args :: "bool \<Rightarrow> ctype list \<Rightarrow> cmem \<Rightarrow> caddr \<Rightarrow> cval list option" where
  "access_args self [] m p = Some []"
| "access_args self (t # ts) m p = do {
     (m, p, c) \<leftarrow> access Load self t m p (CStruct []);
     cs \<leftarrow> access_args self ts m p;
     Some (c # cs) }"

text \<open>The C values of a list of arguments, whose slices satisfy \<open>P\<close>.\<close>

fun cargs :: "cmem \<Rightarrow> (numty \<Rightarrow> c_slice \<Rightarrow> bool) \<Rightarrow> ctype list \<Rightarrow> pyval list \<Rightarrow> cval list \<Rightarrow> bool" where
  "cargs m P [] [] [] = True"
| "cargs m P (t # ts) (v # vs) (c # cs) = (carg m t v c \<and> cwt P t c \<and> cargs m P ts vs cs)"
| "cargs m P _ _ _ = False"

lemma load_args:
  assumes "pack_args ts vs buf off = Inr (buf', off')" and "list_all2 wt ts vs" and "list_all (\<lambda>t. c_supported t \<and> c_class_ok t) ts"
    and "off \<le> 8 * length buf" "8 * length buf < 2 ^ 32" and "shown b m off off' buf'"
  shows "\<exists>cs. access_args self ts m (b + mu_bytes off) = Some cs \<and> cargs m (within b (b + mu_bytes off')) ts vs cs"
  using assms
proof (induction ts arbitrary: vs buf off)
  case (Cons t ts)
  obtain v vs' where vs: "vs = v # vs'" "wt t v" "list_all2 wt ts vs'"
    using Cons.prems(2) by (auto simp: list_all2_Cons1)
  obtain b1 o1 where p: "pack_value t v buf off = Inr (b1, o1)" "pack_args ts vs' b1 o1 = Inr (buf', off')"
    using Cons.prems(1) by (auto simp: vs rbind_Inr_iff)
  note ap = pack_value_appends(1) [OF p(1) Cons.prems(4)]
  note ap1 = pack_args_appends [OF p(2) appends_fit [OF ap]]
  have le: "off \<le> o1" "length b1 = length buf" using ap by (auto simp: appends_def)
  have t: "c_supported t" "c_class_ok t" "list_all (\<lambda>t. c_supported t \<and> c_class_ok t) ts" using Cons.prems(3) by simp_all
  have sh1: "shown b m off o1 b1"
    by (rule shown_first [OF _ ap1]) (use Cons.prems(6) ap1 in \<open>auto simp: shown_def appends_def\<close>)
  obtain c where c: "access Load self t m (b + mu_bytes off) (CStruct []) = Some (m, b + mu_bytes o1, c)" "carg m t v c"
    "cwt (within b (b + mu_bytes o1)) t c"
    using load_arg [OF p(1) t(1,2) vs(2) Cons.prems(4,5) sh1] by blast
  have "\<exists>cs. access_args self ts m (b + mu_bytes o1) = Some cs \<and> cargs m (within b (b + mu_bytes off')) ts vs' cs"
    using le Cons.prems(5) appends_fit [OF ap] shown_rest [OF Cons.prems(6) le(1)]
    by (intro Cons.IH [OF p(2) vs(3) t(3)]) simp_all
  moreover have "o1 \<le> off'" using ap1 by (simp add: appends_def)
  then have "cwt (within b (b + mu_bytes off')) t c"
    by (intro within_cwt [OF c(3)]) (simp add: mu_bytes_mono)
  ultimately show ?case using c vs by auto
qed auto

lemma load_payload:
  assumes pk: "pack_payload ts vs = Inr data" and wt: "list_all2 wt ts vs" and ts: "list_all (\<lambda>t. c_supported t \<and> c_class_ok t) ts"
    and m: "slice b (length data) m = data" "b \<le> length m"
  shows "\<exists>cs. access_args self ts m b = Some cs \<and> cargs m (within b (b + length data)) ts vs cs"
proof -
  let ?buf = "replicate 1024 0 :: byte list"
  obtain buf' off' where p: "pack_args ts vs ?buf 0 = Inr (buf', off')" "data = slice 0 (mu_bytes off') buf'"
    using pk by (auto simp: pack_payload_def Let_def rbind_Inr_iff split: if_splits)
  have ap: "appends ?buf 0 buf' off'" by (rule pack_args_appends [OF p(1)]) simp
  then have fit: "off' \<le> 8 * length buf'" "length buf' = 1024" by (auto simp: appends_def)
  then have l: "length data = mu_bytes off'" using p(2) by (simp add: mu_bytes_le_iff)
  have "length (slice b (length data) m) = length data" unfolding m(1) ..
  then have bl: "b + length data \<le> length m" using m(2) by simp
  have "shown b m 0 off' buf'"
    unfolding shown_def
  proof (intro conjI allI impI)
    show "8 * b + off' \<le> 8 * length m" using bl mu_bytes_bounds(1) [of off'] unfolding l by linarith
    show "off' \<le> 8 * length buf'" by (rule fit(1))
    fix i assume i: "0 \<le> i \<and> i < off'"
    then have il: "i < 8 * length data" using mu_bytes_bounds(1) [of off'] unfolding l by linarith
    have "buf_bit m (8 * b + i) = buf_bit (drop b m) i" by (rule buf_bit_drop [symmetric]) (rule m(2))
    also have "\<dots> = buf_bit (slice b (length data) m) i" using il by (simp add: slice_def buf_bit_take)
    also have "\<dots> = buf_bit data i" by (simp only: m(1))
    also have "\<dots> = buf_bit (take (mu_bytes off') buf') i" unfolding p(2) by (simp add: slice_def)
    also have "\<dots> = buf_bit buf' i" using il unfolding l by (simp add: buf_bit_take)
    finally show "buf_bit m (8 * b + i) = buf_bit buf' i" .
  qed
  from load_args [OF p(1) wt ts _ _ this, of self] show ?thesis by (simp add: mu_bytes_0 l)
qed


section \<open>Unpacking at another place\<close>

lemma slice_shift: "slice (length pre + i) n (pre @ P) = slice i n P"
  by (simp add: slice_def)

lemma unpack_from_shift: "unpack_from f (pre @ P) (length pre + u) = unpack_from f P u"
  by (simp add: unpack_from_def slice_shift add.assoc)

lemma BitU_unpack_loop_step:
  "BitU_unpack_loop B i r b v =
     (if 0 < r then
        if i < length B then
          BitU_unpack_loop B (i + 1) (r - min r (8 - b mod 8)) (b + min r (8 - b mod 8))
            (v OR push_bit (r - min r (8 - b mod 8))
              (drop_bit (8 - b mod 8 - min r (8 - b mod 8)) (uint (B ! i)) AND (push_bit (min r (8 - b mod 8)) 1 - 1)))
        else Inl IndexError
      else Inr v)"
  by (subst BitU_unpack_loop.simps) (simp only: Let_def)

lemma BitU_unpack_loop_shift:
  "BitU_unpack_loop (pre @ P) (length pre + bi) br (8 * length pre + bp) v = BitU_unpack_loop P bi br bp v"
proof (induction P bi br bp v rule: BitU_unpack_loop.induct)
  case (1 P bi br bp v)
  have m: "(8 * length pre + bp) mod 8 = bp mod 8" by simp
  show ?case
  proof (cases "0 < br \<and> bi < length P")
    case True
    from "1.IH" [OF conjunct1 [OF True] refl refl refl refl conjunct2 [OF True] refl refl]
    show ?thesis using True
      by (subst (1 2) BitU_unpack_loop_step) (simp only: m nth_append_length_plus add.assoc if_True length_append nat_add_left_cancel_less)
  qed (subst (1 2) BitU_unpack_loop_step, auto)
qed

definition moved :: "nat \<Rightarrow> ('a \<times> memunit) res \<Rightarrow> ('a \<times> memunit) res" where
  "moved n r = rbind r (\<lambda>p. Inr (fst p, 8 * n + snd p))"

lemma moved_rbind: "rbind (moved n r) f = rbind r (\<lambda>p. f (fst p, 8 * n + snd p))"
  by (cases r) (simp_all add: moved_def)

lemma rbind_moved: "moved n (rbind r f) = rbind r (\<lambda>p. moved n (f p))"
  by (cases r) (simp_all add: moved_def)

lemma moved_simps [simp]: "moved n (Inr (x, u)) = Inr (x, 8 * n + u)" "moved n (Inl e) = Inl e"
  by (simp_all add: moved_def)

lemma BitU_unpack_shift: "BitU_unpack w (pre @ P) (8 * length pre + u) = moved (length pre) (BitU_unpack w P u)"
  using BitU_unpack_loop_shift [of pre P "u div 8" w u 0]
  by (simp add: BitU_unpack_def BITS_PER_BYTE_def rbind_moved mu_add_def add.assoc)

lemma unpack_u16_shift: "unpack_u16 (pre @ P) (8 * length pre + u) = unpack_u16 P u"
  by (simp add: unpack_u16_def mu_bytes_shift unpack_from_shift)

lemma unpack_blob_shift: "unpack_blob (pre @ P) (8 * length pre + u) = moved (length pre) (unpack_blob P u)"
  by (simp add: unpack_blob_def unpack_u16_shift rbind_moved mu_bytes_shift mu_set_bytes_eq add.assoc slice_shift
      del: add_2_eq_Suc add_2_eq_Suc')

lemma unpack_items_shift: "unpack_items t w n (pre @ P) (length pre + u) = unpack_items t w n P u"
  by (induction n arbitrary: u) (simp_all add: unpack_from_shift add.assoc)

lemma unpack_list_shift: "unpack_list args (pre @ P) (8 * length pre + u) = moved (length pre) (unpack_list args P u)"
proof (cases args)
  case (Cons inner rest)
  then show ?thesis
    using unpack_items_shift [of inner _ _ pre P "mu_bytes u + 2"] mu_bytes_mult [of 2]
    by (cases rest)
       (simp_all add: unpack_list_def unpack_u16_shift rbind_moved mu_set_bytes_eq mu_bytes_shift Let_def add.assoc
        if_distrib [of "moved (length pre)"] distrib_left del: add_2_eq_Suc add_2_eq_Suc' distrib_left_numeral cong: if_cong)
qed (simp add: unpack_list_def unpack_u16_shift rbind_moved)

lemma unpack_num_shift: "unpack_num k (pre @ P) (8 * length pre + u) = moved (length pre) (unpack_num k P u)"
  by (simp add: unpack_num_def mu_bytes_shift unpack_from_shift rbind_moved mu_add_def add.assoc)

lemmas unpack_shifts = BitU_unpack_shift unpack_blob_shift unpack_list_shift unpack_num_shift

lemma unpack_value_shift:
  "unpack_value t (pre @ P) (8 * length pre + u) = moved (length pre) (unpack_value t P u)"
  "unpack_members ms (pre @ P) (8 * length pre + u) = moved (length pre) (unpack_members ms P u)"
proof (induction t P u and ms P u rule: unpack_value_unpack_members.induct)
  case (1 n ms payload off)
  have "mu_byte_align (8 * length pre + off) = 8 * length pre + mu_byte_align off"
    by (simp add: mu_byte_align_eq mu_bytes_shift)
  with 1 show ?case by (simp add: moved_rbind rbind_moved)
next
  case (12 n t ms payload off)
  then show ?case
    by (auto simp: moved_rbind rbind_moved if_distrib [of "moved (length pre)"] intro!: rbind_cong)
qed (simp_all add: unpack_shifts moved_rbind rbind_moved)

end
