(* ===== verification/CProtocol.thy ===== *)
theory CProtocol
  imports CGen CSlice
begin

text \<open>
  What the code generator for C emits for the structures and procedures of a protocol: initialisers,
  handler signatures, type declarations, the functions \<^verbatim>\<open>invoke_...\<close> and the switch, as text.
\<close>

section \<open>Initialisers of structures\<close>

lemma struct_loop_dyn:
  "struct_loop ms layout dyn = Inr (l', d') \<Longrightarrow> set d' \<subseteq> set dyn \<union> set ms"
proof (induction ms arbitrary: layout dyn)
  case (Cons nt ms)
  obtain n t where nt: "nt = (n, t)" by fastforce
  then obtain l1 d1 where "struct_loop ms l1 d1 = Inr (l', d')" "set d1 \<subseteq> set dyn \<union> {(n, t)}"
    using Cons.prems by (auto simp: rbind_Inr_iff split: ctype.splits if_splits)
  with Cons.IH nt show ?case by fastforce
qed simp

text \<open>The attributes \<^verbatim>\<open>dynamic_members\<close> and \<^verbatim>\<open>layout\<close> of a decorated class.\<close>

definition dynamic_members :: "members \<Rightarrow> members" where
  "dynamic_members ms = (case struct_attrs ms of Inr p \<Rightarrow> snd p | Inl _ \<Rightarrow> [])"

definition layout_of :: "members \<Rightarrow> memunit list" where
  "layout_of ms = (case struct_attrs ms of Inr p \<Rightarrow> fst p | Inl _ \<Rightarrow> [])"

lemma dynamic_members_size: "(n, t) \<in> set (dynamic_members ms) \<Longrightarrow> size t < size_list (size_prod (\<lambda>_. 0) size) ms"
proof -
  assume "(n, t) \<in> set (dynamic_members ms)"
  then have "(n, t) \<in> set ms"
    using struct_loop_dyn [of ms "[0]" "[]"]
    by (cases "struct_loop ms [0] []") (auto simp: dynamic_members_def struct_attrs_def dest!: subsetD)
  then show ?thesis by (induction ms) auto
qed

function dynamic_member_names :: "ctype \<Rightarrow> string list" where
  "dynamic_member_names t =
     (case t of
        TStruct _ ms \<Rightarrow>
          concat (map (\<lambda>(name, mt).
            if is_compost_struct mt then map (\<lambda>x. name @ ''_'' @ x) (dynamic_member_names mt) else [name])
            (dynamic_members ms))
      | _ \<Rightarrow> [])"
  by pat_completeness auto
termination
  by (relation "measure size") (auto dest: dynamic_members_size less_SucI)

declare dynamic_member_names.simps [simp del]

definition endswith :: "string \<Rightarrow> string \<Rightarrow> bool" where
  "endswith s suf = (length suf \<le> length s \<and> drop (length s - length suf) s = suf)"

text \<open>The first name of the outer structure that ends in the inner name, for each inner name.\<close>

fun len_args :: "string list \<Rightarrow> string list \<Rightarrow> string list" where
  "len_args [] outer = []"
| "len_args (x # xs) outer =
     (case filter (\<lambda>y. endswith y x) outer of [] \<Rightarrow> [] | y # _ \<Rightarrow> [y @ ''_len'']) @ len_args xs outer"

definition slice_new_text :: "string \<Rightarrow> string \<Rightarrow> string" where
  "slice_new_text inner name = ''compost_slice_'' @ lower inner @ ''_new(alloc, '' @ name @ ''_len)''"

definition member_default_value :: "ctype \<Rightarrow> string \<times> ctype \<Rightarrow> string res" where
  "member_default_value struct m =
     (case m of (name, t) \<Rightarrow>
      (case bitu_width t of
         Some _ \<Rightarrow> Inr ''0''
       | None \<Rightarrow>
         (case t of
            TNum _ \<Rightarrow> Inr ''0''
          | TStr \<Rightarrow> Inr (slice_new_text ''U8'' name)
          | TBytes \<Rightarrow> Inr (slice_new_text ''U8'' name)
          | TList args \<Rightarrow> (case args of [] \<Rightarrow> Inl IndexError | a # _ \<Rightarrow> Inr (slice_new_text (type_name a) name))
          | TStruct n ms \<Rightarrow>
              let len_names = (if dynamic_members ms \<noteq> [] then [''alloc''] else []) @
                    len_args (dynamic_member_names t) (dynamic_member_names struct)
              in Inr (n @ ''_init('' @ comma len_names @ '')'')
          | TEnum n _ vs \<Rightarrow> (case vs of [] \<Rightarrow> Inl IndexError | v # _ \<Rightarrow> Inr (scase n True @ ''_'' @ fst v))
          | _ \<Rightarrow> Inl TypeError)))"

text \<open>
  The allocator of a structure with dynamic members, as the emitted function \<^verbatim>\<open>..._alloc_init\<close>
  computes it, and the call of it in \<^verbatim>\<open>invoke_...\<close>; the sizes are converted to 16 bits.
\<close>

definition struct_alloc_init :: "members \<Rightarrow> caddr \<Rightarrow> 16 word \<Rightarrow> c_alloc" where
  "struct_alloc_init ms tx_buf tx_buf_len =
     (let suffixes = map mu_bytes (tl (layout_of ms));
          alloc = compost_alloc_init (tx_buf + 4 + mu_bytes (hd (layout_of ms))) tx_buf_len
      in compost_alloc_set_suffixes alloc (map of_nat suffixes) (of_nat (length suffixes)))"

definition invoke_struct_alloc :: "members \<Rightarrow> caddr \<Rightarrow> nat \<Rightarrow> c_alloc" where
  "invoke_struct_alloc ms payload_buf payload_buf_size =
     struct_alloc_init ms (payload_buf + mu_bytes (hd (layout_of ms)))
       (word_of_int (int payload_buf_size - int (mu_bytes (hd (layout_of ms)))))"

definition invoke_slice_alloc :: "caddr \<Rightarrow> nat \<Rightarrow> c_alloc" where
  "invoke_slice_alloc payload_buf payload_buf_size =
     compost_alloc_init (payload_buf + 2) (word_of_int (int payload_buf_size - 2))"

section \<open>Type declarations\<close>

definition enum_text :: "string \<Rightarrow> (string \<times> int) list \<Rightarrow> string" where
  "enum_text n vs =
     ''\<newline>enum '' @ n @ '' {\<newline>'' @
     (let item = (\<lambda>(v, i). ''    '' @ scase n True @ ''_'' @ upper v @ '' = '' @ dec_int i) in
      case vs of [] \<Rightarrow> [] | v # vs \<Rightarrow> item v @ concat (map (\<lambda>v. '',\<newline>'' @ item v) vs)) @
     ''\<newline>};\<newline>''"

fun member_decls :: "members \<Rightarrow> string res" where
  "member_decls [] = Inr []"
| "member_decls ((name, t) # ms) =
     rbind (c_type t) (\<lambda>ct.
     rbind (member_decls ms) (\<lambda>rest.
     Inr ((case bitu_width t of
             Some w \<Rightarrow> ''    '' @ ct @ '' '' @ name @ '' : '' @ dec_digits w @ '';\<newline>''
           | None \<Rightarrow> ''    '' @ ct @ '' '' @ name @ '';\<newline>'') @ rest)))"

definition struct_text :: "string \<Rightarrow> members \<Rightarrow> string res" where
  "struct_text n ms = rbind (member_decls ms) (\<lambda>ds. Inr (''\<newline>\<newline>struct '' @ n @ '' {\<newline>'' @ ds @ ''};\<newline>''))"

section \<open>Handlers and the switch\<close>

definition get_param_items :: "rpc \<Rightarrow> (string \<times> ctype) list" where
  "get_param_items r = tl (parameters (call_sig r))"

definition c_params :: "(string \<times> ctype) list \<Rightarrow> string list res" where
  "c_params ps = rmap (\<lambda>(n, t). rbind (c_type t) (\<lambda>ct. Inr (ct @ '' '' @ n))) ps"

definition handler_signature :: "rpc \<Rightarrow> bool \<Rightarrow> string res" where
  "handler_signature r as_caller =
     rbind (c_params (get_param_items r)) (\<lambda>protos.
     let sites = map (\<lambda>(n, t). ''l_'' @ n) (get_param_items r) in
     rbind (case return_annotation (call_sig r) of
              None \<Rightarrow> Inr (''void'', protos, sites)
            | Some t \<Rightarrow>
                if is_notification r then Inl TypeError
                else rbind (c_type t) (\<lambda>ct.
                  if is_type_dynamic t
                  then Inr (ct, protos @ [''struct CompostAlloc *alloc''], sites @ [''&alloc''])
                  else Inr (ct, protos, sites))) (\<lambda>(ret, protos, sites).
     Inr (if as_caller
          then (if ret \<noteq> ''void'' then ret @ '' ret = '' else []) @ name_of r @ ''_handler('' @ comma sites @ '');''
          else ret @ '' '' @ name_of r @ ''_handler('' @ (if protos = [] then ''void'' else comma protos) @ '');'')))"

text \<open>
  The prototype of the handler and the body of \<^verbatim>\<open>invoke_...\<close>: the loads of the parameters (C type, name, function), the allocator, the call
  of the handler, and the function that stores the result, with whether the result is passed
  by reference.  The calls of load and store functions thread the dictionary of the functions of structures.
\<close>

datatype alloc_kind = SliceAlloc | StructAlloc string members

record invoke_body =
  prototype :: string
  loads :: "(string \<times> string \<times> string) list"
  body_alloc :: "alloc_kind option"
  handler_call :: string
  store_call :: "(string \<times> bool) option"

fun load_calls :: "(string \<times> ctype) list \<Rightarrow> cfun list \<Rightarrow> ((string \<times> string \<times> string) list \<times> cfun list) res" where
  "load_calls [] d = Inr ([], d)"
| "load_calls ((n, t) # ps) d =
     rbind (emit_call Load t d) (\<lambda>c.
     rbind (c_type t) (\<lambda>ct.
     rbind (load_calls ps (snd c)) (\<lambda>r.
     Inr ((ct, n, fst c) # fst r, snd r))))"

definition response_alloc :: "ctype option \<Rightarrow> alloc_kind option" where
  "response_alloc ret =
     (case ret of
        None \<Rightarrow> None
      | Some t \<Rightarrow>
          if is_list_type t \<or> is_bytes_or_str t then Some SliceAlloc
          else case t of
            TStruct n ms \<Rightarrow> if dynamic_members ms \<noteq> [] then Some (StructAlloc n ms) else None
          | _ \<Rightarrow> None)"

definition invoke_code :: "rpc \<Rightarrow> cfun list \<Rightarrow> (invoke_body \<times> cfun list) res" where
  "invoke_code r d =
     (let ret = return_annotation (call_sig r) in
      rbind (handler_signature r False) (\<lambda>proto.
      rbind (load_calls (get_param_items r) d) (\<lambda>ld.
      rbind (handler_signature r True) (\<lambda>call.
      rbind (case ret of
               None \<Rightarrow> Inr (None, snd ld)
             | Some t \<Rightarrow> rbind (emit_call Store t (snd ld)) (\<lambda>c. Inr (Some (fst c, is_compost_struct t), snd c))) (\<lambda>st.
      Inr (\<lparr>prototype = proto, loads = fst ld, body_alloc = response_alloc ret, handler_call = call, store_call = fst st\<rparr>,
           snd st))))))"

text \<open>The text of the body, line by line.\<close>

definition load_line :: "string \<times> string \<times> string \<Rightarrow> string" where
  "load_line l = (case l of (ct, n, fn) \<Rightarrow> ct @ '' l_'' @ n @ '' = '' @ fn @ ''(&src);'')"

definition alloc_lines :: "alloc_kind option \<Rightarrow> string list" where
  "alloc_lines a =
     (case a of
        None \<Rightarrow> []
      | Some SliceAlloc \<Rightarrow>
          [''struct CompostAlloc alloc = compost_alloc_init(tx->payload_buf + 2, tx->payload_buf_size - 2);'']
      | Some (StructAlloc n ms) \<Rightarrow>
          let b = dec_digits (mu_bytes (hd (layout_of ms))) in
          [''struct CompostAlloc alloc = '' @ n @ ''_alloc_init(tx->payload_buf + '' @ b @
             '', tx->payload_buf_size - '' @ b @ '');''])"

definition store_lines :: "(string \<times> bool) option \<Rightarrow> string list" where
  "store_lines st =
     (case st of
        None \<Rightarrow> [''tx->header.wlen = 0;'']
      | Some (fn, by_ref) \<Rightarrow>
          [''uint8_t *dest = tx->payload_buf;'',
           fn @ ''(&dest, '' @ (if by_ref then ''&'' else []) @ ''ret);'',
           ''tx->header.wlen = compost_bytes_to_words(dest - tx->payload_buf);''])"

definition invoke_lines :: "rpc \<Rightarrow> invoke_body \<Rightarrow> string list" where
  "invoke_lines r code =
     (if get_param_items r \<noteq> [] then [''const uint8_t *src = rx.payload_buf;''] else []) @
     map load_line (loads code) @ alloc_lines (body_alloc code) @ [handler_call code] @ store_lines (store_call code) @
     [''tx->header.rpc_id = '' @ upper (name_of r) @ '';'']"

text \<open>The functions that are emitted for the inbound procedures, and the cases of the switch.\<close>

definition invoke_fn_name :: "rpc \<Rightarrow> string" where
  "invoke_fn_name r = ''invoke_'' @ name_of r"

fun invoke_fns :: "endpoint \<Rightarrow> rpc list \<Rightarrow> cfun list \<Rightarrow> ((string \<times> invoke_body) list \<times> cfun list) res" where
  "invoke_fns e [] d = Inr ([], d)"
| "invoke_fns e (r # rs) d =
     (if \<not> is_call_inbound e r then invoke_fns e rs d
      else rbind (invoke_code r d) (\<lambda>b.
           rbind (invoke_fns e rs (snd b)) (\<lambda>p.
           Inr ((invoke_fn_name r, fst b) # fst p, snd p))))"

definition switch_rpcs :: "endpoint \<Rightarrow> rpc list \<Rightarrow> rpc list" where
  "switch_rpcs e rs = filter (\<lambda>r. \<not> (is_notification r \<and> \<not> is_call_inbound e r)) rs"

definition switch_lines :: "endpoint \<Rightarrow> rpc list \<Rightarrow> string list" where
  "switch_lines e rs =
     map (\<lambda>r. ''        case '' @ upper (name_of r) @ '': '' @ invoke_fn_name r @
        (if get_param_items r \<noteq> [] then ''(tx, rx)'' else ''(tx)'') @ ''; break;'') (switch_rpcs e rs) @
     [''        default: compost_unknown_msg(tx);'']"

text \<open>
  The store function of an outbound notification: its parameters, and the calls in its body (function, whether the
  parameter is passed by reference, parameter).
\<close>

fun store_calls :: "(string \<times> ctype) list \<Rightarrow> cfun list \<Rightarrow> ((string \<times> bool \<times> string) list \<times> cfun list) res" where
  "store_calls [] d = Inr ([], d)"
| "store_calls ((n, t) # ps) d =
     rbind (emit_call Store t d) (\<lambda>c.
     rbind (store_calls ps (snd c)) (\<lambda>r.
     Inr ((fst c, is_compost_struct t, n) # fst r, snd r)))"

record notif_body =
  notif_params :: "string list"
  param_stores :: "(string \<times> bool \<times> string) list"

definition notif_code :: "rpc \<Rightarrow> cfun list \<Rightarrow> (notif_body \<times> cfun list) res" where
  "notif_code r d =
     rbind (c_params (get_param_items r)) (\<lambda>params.
     rbind (store_calls (get_param_items r) d) (\<lambda>st.
     Inr (\<lparr>notif_params = params, param_stores = fst st\<rparr>, snd st)))"

fun notif_fns :: "endpoint \<Rightarrow> rpc list \<Rightarrow> cfun list \<Rightarrow> ((rpc \<times> notif_body) list \<times> cfun list) res" where
  "notif_fns e [] d = Inr ([], d)"
| "notif_fns e (r # rs) d =
     (if \<not> is_notification r \<or> \<not> is_call_outbound e r then notif_fns e rs d
      else rbind (notif_code r d) (\<lambda>b.
           rbind (notif_fns e rs (snd b)) (\<lambda>p.
           Inr ((r, fst b) # fst p, snd p))))"

text \<open>The text of the function.\<close>

definition store_line :: "string \<times> bool \<times> string \<Rightarrow> string" where
  "store_line s = (case s of (fn, by_ref, n) \<Rightarrow> fn @ ''(&dest, '' @ (if by_ref then ''&'' else []) @ n @ '');'')"

definition notif_prototype :: "rpc \<Rightarrow> notif_body \<Rightarrow> string" where
  "notif_prototype r b =
     ''size_t '' @ name_of r @ ''_store(uint8_t *tx_buf'' @
     (if notif_params b = [] then [] else '', '' @ comma (notif_params b)) @ '')''"

definition notif_store_text :: "rpc \<Rightarrow> notif_body \<Rightarrow> string" where
  "notif_store_text r b =
     ''/**\<newline>* Serialization function for '' @ name_of r @ '' notification\<newline>*/\<newline>'' @ notif_prototype r b @
     ''\<newline>{\<newline>    struct CompostMsg tx = {\<newline>        .header = { .txn = 0 },\<newline>'' @
     ''        .payload_buf = tx_buf + PAYLOAD_OFFSET\<newline>    };\<newline>    uint8_t *dest = tx.payload_buf;\<newline>'' @
     str (add_lines (String_new [] 1) (map store_line (param_stores b))) @
     ''    tx.header.rpc_id = '' @ upper (name_of r) @ '';\<newline>    size_t payload_len = dest - tx.payload_buf;\<newline>'' @
     ''    tx.header.wlen = compost_bytes_to_words(payload_len);\<newline>    compost_header_store(tx_buf, tx.header);\<newline>'' @
     ''    return COMPOST_MSG_LEN(tx_buf);\<newline>}\<newline>\<newline>''"


section \<open>Properties\<close>

text \<open>
  For both endpoints, the C generator accepts exactly the protocols whose procedures are called
  towards the endpoint, or both ways, while notifications go in any direction.  The C# generator accepts exactly
  the protocols whose procedures are called away from the endpoint and whose notifications are sent towards it,
  or both ways.  All other protocols raise \<^verbatim>\<open>ValueError\<close>.
\<close>

lemma endpoint_validation_iff:
  "(validate_endpoint CCodeGenerator_features e rs =
      (if list_all (\<lambda>r. is_notification r \<or>
            direction r \<in> {case e of REMOTE \<Rightarrow> TO_REMOTE | LOCAL \<Rightarrow> TO_LOCAL, TWO_WAY}) rs
       then Inr () else Inl ValueError)) \<and>
   (validate_endpoint CSharpCodeGenerator_features e rs =
      (if list_all (\<lambda>r. direction r \<in> {case (e, is_notification r) of
             (REMOTE, False) \<Rightarrow> TO_LOCAL | (REMOTE, True) \<Rightarrow> TO_REMOTE
           | (LOCAL, False) \<Rightarrow> TO_REMOTE | (LOCAL, True) \<Rightarrow> TO_LOCAL, TWO_WAY}) rs
       then Inr () else Inl ValueError))"
proof -
  have "endpoint_ok CCodeGenerator_features e r = (is_notification r \<or>
      direction r \<in> {case e of REMOTE \<Rightarrow> TO_REMOTE | LOCAL \<Rightarrow> TO_LOCAL, TWO_WAY})"
    "endpoint_ok CSharpCodeGenerator_features e r = (direction r \<in> {case (e, is_notification r) of
             (REMOTE, False) \<Rightarrow> TO_LOCAL | (REMOTE, True) \<Rightarrow> TO_REMOTE
           | (LOCAL, False) \<Rightarrow> TO_REMOTE | (LOCAL, True) \<Rightarrow> TO_LOCAL, TWO_WAY})" for r
    by (cases "direction r"; cases e; simp add: endpoint_ok_def CCodeGenerator_features_def
        CSharpCodeGenerator_features_def CodeGeneratorFeatures_new_def is_call_inbound_def is_call_outbound_def
        split: bool.split)+
  then show ?thesis by (induction rs) auto
qed

lemma validated_inbound:
  "validate_endpoint CCodeGenerator_features e rs = Inr () \<Longrightarrow> r \<in> set rs \<Longrightarrow> \<not> is_notification r \<Longrightarrow> is_call_inbound e r"
  by (induction rs) (auto simp: endpoint_ok_def CCodeGenerator_features_def CodeGeneratorFeatures_new_def split: if_splits)

lemma invoke_fns_names: "invoke_fns e rs d = Inr (fns, d') \<Longrightarrow> map fst fns = map invoke_fn_name (filter (is_call_inbound e) rs)"
  by (induction rs arbitrary: d fns) (auto simp: rbind_Inr_iff split: if_splits)

text \<open>
  C23. When the C generator accepts a protocol, the functions \<^verbatim>\<open>invoke_...\<close> that it emits are exactly
  those that the switch calls, in the same order.
\<close>

theorem switch_calls_defined:
  assumes "validate_endpoint CCodeGenerator_features e rs = Inr ()" and "invoke_fns e rs d = Inr (fns, d')"
  shows "map fst fns = map invoke_fn_name (switch_rpcs e rs)"
proof -
  have "switch_rpcs e rs = filter (is_call_inbound e) rs"
    unfolding switch_rpcs_def using validated_inbound [OF assms(1)] by (intro filter_cong) auto
  then show ?thesis using invoke_fns_names [OF assms(2)] by simp
qed

theorem switch_calls_defined_witness:
  "\<exists>fns d'. invoke_fns REMOTE [read8] [] = Inr (fns, d') \<and> map fst fns = [''invoke_read8'']"
proof -
  have v: "validate_endpoint CCodeGenerator_features REMOTE [read8] = Inr ()" by code_simp
  have "\<exists>fns d'. invoke_fns REMOTE [read8] [] = Inr (fns, d')"
    by (simp add: read8_def Rpc_new_def is_call_inbound_def invoke_code_def get_param_items_def emit_call.simps
        serdes_fn_def c_type_def handler_signature_def c_params_def is_type_dynamic_def Let_def)
  moreover have "map invoke_fn_name (switch_rpcs REMOTE [read8]) = [''invoke_read8'']" by code_simp
  ultimately show ?thesis using switch_calls_defined [OF v] by metis
qed

text \<open>
  C33. The allocator that a generated function passes to a handler that returns a list, string or byte
  string covers exactly the payload behind the length.  The one for a structure with dynamic
  members starts too late, behind the fixed part and the header counted twice, and ends behind
  the end of the transmit buffer by the same amount.
\<close>

theorem response_allocators:
  assumes "2 \<le> n" and "n < 65536" and "b = mu_bytes (hd (layout_of ms))" and "b \<le> n"
  shows "aptr (invoke_slice_alloc p n) = p + 2 \<and> alloc_limit (invoke_slice_alloc p n) = p + n \<and>
    aptr (invoke_struct_alloc ms p n) = p + b + (b + 4) \<and> alloc_limit (invoke_struct_alloc ms p n) = p + n + (b + 4)"
proof -
  have u: "unat (word_of_int (int n - int x) :: 16 word) = n - x" if "x \<le> n" for x
  proof -
    have "(word_of_int (int n - int x) :: 16 word) = of_nat (n - x)" using that by (simp add: of_nat_diff)
    moreover have "unat (of_nat (n - x) :: 16 word) = (n - x) mod 65536" by (simp only: unat_of_nat) simp
    ultimately show ?thesis using assms(2) by (simp only:) simp
  qed
  have u2: "unat (word_of_int (int n - 2) :: 16 word) = n - 2" using u [OF assms(1)] by (simp only: of_nat_numeral)
  note defs = compost_alloc_init_def compost_slice_init_def compost_alloc_set_suffixes_def Let_def
  have "alloc_limit (invoke_slice_alloc p n) = p + 2 + unat (word_of_int (int n - 2) :: 16 word)"
    "alloc_limit (invoke_struct_alloc ms p n) = p + b + 4 + b + unat (word_of_int (int n - int b) :: 16 word)"
    unfolding invoke_slice_alloc_def invoke_struct_alloc_def struct_alloc_init_def alloc_limit_def defs assms(3)
    by simp_all
  then have "alloc_limit (invoke_slice_alloc p n) = p + n" "alloc_limit (invoke_struct_alloc ms p n) = p + n + (b + 4)"
    using u [OF assms(4)] u2 assms(1,4) by simp_all
  then show ?thesis
    by (simp add: invoke_slice_alloc_def invoke_struct_alloc_def struct_alloc_init_def defs assms(3))
qed

theorem response_allocators_witness:
  "alloc_limit (invoke_struct_alloc [(''a'', TNum U16), (''s'', TStr)] 4 100) = 112"
proof -
  have "mu_bytes (hd (layout_of [(''a'', TNum U16), (''s'', TStr)])) = 4" by code_simp
  with response_allocators [of 100 4 "[(''a'', TNum U16), (''s'', TStr)]" 4] show ?thesis by simp
qed

text \<open>
  The initialiser of a structure names the first member of an enumeration as it is written,
  while the declaration of the enumeration writes the names in upper case, so that they differ for names
  in lower case; and for a nested structure the length of a member of the outer structure is passed
  when its name ends in the name of the inner member.
\<close>

lemma initialiser_faults:
  "member_default_value (TStruct ''S'' [(''c'', TEnum ''Color'' (BNum U8) [(''red'', 1)])])
     (''c'', TEnum ''Color'' (BNum U8) [(''red'', 1)]) = Inr ''COLOR_red'' \<and>
   enum_text ''Color'' [(''red'', 1)] = ''\<newline>enum Color {\<newline>    COLOR_RED = 1\<newline>};\<newline>'' \<and>
   member_default_value (TStruct ''O'' [(''ab'', TStr), (''i'', TStruct ''I'' [(''b'', TStr)])])
     (''i'', TStruct ''I'' [(''b'', TStr)]) = Inr ''I_init(alloc, ab_len)''"
proof (intro conjI)
  show "member_default_value (TStruct ''S'' [(''c'', TEnum ''Color'' (BNum U8) [(''red'', 1)])])
      (''c'', TEnum ''Color'' (BNum U8) [(''red'', 1)]) = Inr ''COLOR_red''"
    by (simp add: member_default_value_def scase_def upper_def to_upper_def islower_def char_of_def bit_0)
  show "enum_text ''Color'' [(''red'', 1)] = ''\<newline>enum Color {\<newline>    COLOR_RED = 1\<newline>};\<newline>''"
    by (simp add: enum_text_def scase_def upper_def to_upper_def islower_def char_of_def bit_0 dec_int_def dec_digits.simps)
  show "member_default_value (TStruct ''O'' [(''ab'', TStr), (''i'', TStruct ''I'' [(''b'', TStr)])])
      (''i'', TStruct ''I'' [(''b'', TStr)]) = Inr ''I_init(alloc, ab_len)''"
    by (simp add: member_default_value_def dynamic_members_def struct_attrs_def validate_type_def
        dynamic_member_names.simps endswith_def comma_def add_last_def mu_add_def)
qed

end
