(* ===== verification/CInvoke.thy ===== *)
theory CInvoke
  imports CInterop CProtocol
begin

text \<open>
  The generated \<^verbatim>\<open>invoke_...\<close> functions at work: the parameters are loaded, the handler is called
  with the C values, and its result is stored.  Together with the Python side this gives a remote call
  from end to end.
\<close>

section \<open>Storing a result\<close>

lemma end_of_shift:
  "end_of t v (8 * n + off) = 8 * n + end_of t v off" "end_of_members ms vs (8 * n + off) = 8 * n + end_of_members ms vs off"
proof (induction t v off and ms vs off rule: end_of_end_of_members.induct)
  case (7 nm ms v off)
  then show ?case by (cases v) (simp_all add: mu_bytes_shift distrib_left)
next
  case (3 nm b ms v off)
  then show ?case by (cases b) (simp_all add: mu_bytes_shift distrib_left)
next
  case (6 args v off)
  then show ?case by (simp add: mu_bytes_shift distrib_left split: sum.splits)
qed (simp_all add: mu_bytes_shift distrib_left)

text \<open>
  Where a result may be: its slices lie outside of the bytes it is stored to, or it is a slice behind the length,
  as the allocator of a list hands it out, and \<^verbatim>\<open>memcpy\<close> tolerates identical regions.
\<close>

definition returnable :: "bool \<Rightarrow> cmem \<Rightarrow> caddr \<Rightarrow> nat \<Rightarrow> ctype \<Rightarrow> cval \<Rightarrow> bool" where
  "returnable self m dest n t c \<longleftrightarrow> cwt (placed (length m) dest (dest + n)) t c \<or>
     self \<and> (\<exists>k s. slice_elem t = Some k \<and> c = CSl s \<and> ptr s = Some (dest + 2) \<and> slice_in k m s)"

lemma store_arg:
  assumes pk: "pack_value t v m off = Inr (m', off')" and t: "c_supported t" "flat t" and rel: "carg m0 t v c"
    and wt: "cwt (placed (length m) lo hi) t c" and m0: "keeps (8 * lo) (8 * hi) m0 m"
    and p: "lo \<le> mu_bytes off" "mu_bytes off' \<le> hi" "hi \<le> length m" "off \<le> 8 * length m" "8 * (hi - lo) < 2 ^ 32"
  shows "access Store self t m (mu_bytes off) c = Some (m', mu_bytes off', c) \<and> keeps (8 * lo) (8 * hi) m m'"
proof (cases "is_compost_struct t")
  case False
  have "crel m0 t v c" using rel by (simp add: carg_crel [OF False])
  note r = value_agree [OF pk t(1) False this wt m0 p(1-4), of self]
  then show ?thesis using p(1,2) by (auto intro: keeps_mono)
next
  case True
  then obtain nm ms where ts: "t = TStruct nm ms" by (cases t) auto
  then obtain pys vs where v: "v = VStruct nm pys" "c = CStruct vs" "crel_members m0 ms pys vs"
    using rel by (auto split: pyval.splits cval.splits)
  have "pack_members ms pys m (8 * mu_bytes off + 0) = Inr (m', off')"
    using pk crel_members_astuple [OF v(3)] by (simp add: ts v astuple_def mu_byte_align_eq)
  from members_agree [OF this v(3), where lo = lo and hi = hi and self = self] t wt m0 p v(2) show ?thesis
    by (simp add: ts flat_def members_supported_def split_def mu_bytes_le_iff)
qed

lemma store_returned:
  assumes pk: "pack_value t v m (8 * dest) = Inr (m', off')" and t: "c_supported t" "flat t" and rel: "carg m t v c"
    and rt: "returnable self m dest n t c" and n: "mu_bytes off' = dest + n" "n < 65536" "dest + n \<le> length m"
  shows "access Store self t m dest c = Some (m', dest + n, c)"
proof (cases "cwt (placed (length m) dest (dest + n)) t c")
  case True
  from store_arg [OF pk t rel True keeps_refl, of self] n show ?thesis by simp
next
  case False
  then obtain k s where s: "self" "slice_elem t = Some k" "c = CSl s" "ptr s = Some (dest + 2)" "slice_in k m s"
    using rt by (auto simp: returnable_def)
  have a: "access Store self t = slice_access Store self k" and "\<not> is_compost_struct t"
    using s(2) by (cases t rule: slice_elem.cases; auto simp: fun_eq_iff)+
  then have cr: "crel m t v (CSl s)" using rel s(3) by (simp add: carg_crel)
  let ?n = "csizeof k * unat (slen s)"
  have d: "dest \<le> length m" using n(3) by simp
  note r = pack_slice_bytes [OF pk s(2) cr s(5) d refl]
  then have off: "off' = 8 * (dest + (2 + ?n))" by simp
  have "mu_bytes off' = dest + (2 + ?n)" unfolding off by (rule mu_bytes_mult)
  then have nn: "n = 2 + ?n" using n(1) by simp
  have "compost_slice_store self k m dest s = Some (m', dest + n)"
    using slice_store_put [OF s(5) refl _ _ s(4), of dest self] r n nn s(1) by simp
  then show ?thesis by (simp add: a s(3) slice_access_def)
qed

text \<open>What has been stored unpacks to the value, whatever bytes follow.\<close>

lemma unpack_args_shift:
  "unpack_args ts (pre @ P) (8 * length pre + u) = moved (length pre) (unpack_args ts P u)"
  by (induction ts arbitrary: u) (simp_all add: unpack_value_shift(1) moved_rbind rbind_moved)

lemma stored_unpacks:
  assumes pk: "pack_args ts vs m (8 * dest) = Inr (m', off')" and d: "dest \<le> length m" and wt: "list_all2 wt ts vs"
    and st: "in_step ts" and n: "mu_bytes off' = dest + n"
  shows "unpack_payload ts (slice dest n m' @ rest) = Inr vs"
proof -
  have fit: "8 * dest \<le> 8 * length m" using d by simp
  note ap = pack_args_appends [OF pk fit]
  have le: "off' \<le> 8 * length m'" by (rule appends_fit [OF ap])
  let ?pre = "take dest m'" and ?P = "slice dest n m' @ rest"
  have l: "length ?pre = dest" using d ap by (simp add: appends_def)
  have e: "slice 0 (mu_bytes off') m' @ rest = ?pre @ ?P" unfolding n slice_0_add by (simp add: slice_def)
  have "agrees (?pre @ ?P) m' off'" using agrees_payload [OF le, of rest] unfolding e .
  from reads_back_args [OF pk _ fit wt tracks_refl _ this] st list_all2_lengthD [OF wt]
  obtain u' where "unpack_args ts (?pre @ ?P) (8 * dest) = Inr (vs, u')"
    by (auto simp: in_step_def)
  then have "moved dest (unpack_args ts ?P 0) = Inr (vs, u')"
    using unpack_args_shift [of ts ?pre ?P 0] unfolding l by simp
  then obtain u where "unpack_args ts ?P 0 = Inr (vs, u)"
    by (cases "unpack_args ts ?P 0") (auto simp: moved_def)
  then show ?thesis by (simp add: unpack_payload_def)
qed

lemma result_stored:
  assumes t: "c_supported t" "flat t" "in_step [t]" and wt: "wt t v" and rel: "carg m t v c"
    and rt: "returnable self m dest n t c" and n: "n = payload_size [t] [v]" "n < 65536" "dest + n \<le> length m"
  shows "\<exists>m'. access Store self t m dest c = Some (m', dest + n, c) \<and> length m' = length m \<and>
    (\<forall>rest. unpack_payload [t] (slice dest n m' @ rest) = Inr [v])"
proof -
  let ?off = "end_of t v (8 * dest)"
  have off: "?off = 8 * dest + end_of t v 0" using end_of_shift(1) [of t v dest 0] by simp
  have n0: "n = mu_bytes (end_of t v 0)" by (simp add: n(1) payload_size_def)
  have mb: "mu_bytes ?off = dest + n" unfolding off mu_bytes_shift n0 ..
  have "?off \<le> 8 * (dest + n)" using mu_bytes_bounds(1) [of ?off] unfolding mb .
  with n have "?off \<le> 8 * length m" "?off < 8 * dest + 8 * 65536" by simp_all
  from pack_value_total [OF wt t(2) this] obtain m' where pk: "pack_value t v m (8 * dest) = Inr (m', ?off)" by blast
  have "dest \<le> length m" using n(3) by simp
  then have "length m' = length m" using pack_value_appends(1) [OF pk] by (simp add: appends_def)
  moreover have "pack_args [t] [v] m (8 * dest) = Inr (m', ?off)" using pk by simp
  from stored_unpacks [OF this _ _ t(3) mb] wt \<open>dest \<le> length m\<close>
  have "unpack_payload [t] (slice dest n m' @ rest) = Inr [v]" for rest by simp
  ultimately show ?thesis using store_returned [OF pk t(1,2) rel rt mb n(2,3)] by blast
qed


section \<open>One dictionary for all functions\<close>

text \<open>
  The functions of a protocol share one dictionary of store and load functions.  It grows at the
  end, and stays correct for both kinds of functions.
\<close>

definition all_ok :: "bool \<Rightarrow> (string \<Rightarrow> members option) \<Rightarrow> cfun list \<Rightarrow> bool" where
  "all_ok self env d \<longleftrightarrow> (\<forall>h. dict_ok h self env d)"

definition extends :: "cfun list \<Rightarrow> cfun list \<Rightarrow> bool" where
  "extends d d' \<longleftrightarrow> (\<exists>nw. d' = d @ nw)"

lemma extends_refl [simp]: "extends d d"
  by (simp add: extends_def)

lemma extends_trans [trans]: "extends d d' \<Longrightarrow> extends d' d'' \<Longrightarrow> extends d d''"
  by (auto simp: extends_def)

lemma fname_kind: "fname h n = fname h' n' \<Longrightarrow> h = h'"
  using arg_cong [of "fname h n" "fname h' n'" last] by (cases h; cases h') (simp_all add: fname_def)

lemma all_ok_adds:
  assumes "all_ok self env d" and "dict_ok h self env d'" and "adds h env n d d'"
  shows "all_ok self env d'"
proof -
  have "dict_ok h' self env d'" if "h' \<noteq> h" for h'
    unfolding dict_ok_def
  proof (intro conjI allI impI)
    show dist: "distinct (map fst d')" using assms(2) by (simp add: dict_ok_def)
    fix n' ms assume fn': "fname h' n' \<in> fst ` set d' \<and> env n' = Some ms"
    note fn = conjunct1 [OF fn'] conjunct2 [OF fn']
    obtain nw where nw: "d' = d @ nw" "\<forall>k \<in> fst ` set nw. \<exists>n'. k = fname h n'"
      using assms(3) unfolding adds_def by blast
    have "fname h' n' \<notin> fst ` set nw"
    proof
      assume "fname h' n' \<in> fst ` set nw"
      then obtain n'' where "fname h' n' = fname h n''" using nw(2) by blast
      then show False using fname_kind that by blast
    qed
    then have "fname h' n' \<in> fst ` set d" using fn(1) nw(1) by auto
    then show "run h' self (rev d') (fname h' n') = access h' self (TStruct n' ms)"
      using run_extends [of d nw "fname h' n'" h' self] dist nw(1) assms(1) fn(2) by (simp add: all_ok_def dict_ok_def)
  qed
  then have "dict_ok h' self env d'" for h' using assms(2) by (cases "h' = h") simp_all
  then show ?thesis by (simp add: all_ok_def)
qed

text \<open>A type the generator supports, with classes named by \<open>env\<close>.\<close>

definition usable :: "(string \<Rightarrow> members option) \<Rightarrow> ctype \<Rightarrow> bool" where
  "usable env t \<longleftrightarrow> c_supported t \<and> named env t"

definition names_ok :: "(string \<Rightarrow> members option) \<Rightarrow> bool" where
  "names_ok env \<longleftrightarrow> names_free Store env \<and> names_free Load env"

lemma names_ok_free: "names_ok env \<Longrightarrow> names_free h env"
  by (cases h) (simp_all add: names_ok_def)

text \<open>A call that has been emitted does in every later program what the type says.\<close>

definition calls :: "helper \<Rightarrow> bool \<Rightarrow> (string \<Rightarrow> members option) \<Rightarrow> ctype \<Rightarrow> string \<Rightarrow> cfun list \<Rightarrow> bool" where
  "calls h self env t fn d \<longleftrightarrow>
     (\<forall>d'. extends d d' \<and> all_ok self env d' \<longrightarrow>
        call_fn h self (run h self (rev d')) fn False [] = access h self t)"

lemma calls_mono: "calls h self env t fn d \<Longrightarrow> extends d d' \<Longrightarrow> calls h self env t fn d'"
  unfolding calls_def by (blast intro: extends_trans)

lemma emit_call_total: "c_supported t \<Longrightarrow> \<exists>fn d'. emit_call h t d = Inr (fn, d')"
proof (cases "is_compost_struct t")
  case True
  assume c: "c_supported t"
  obtain n ms where t: "t = TStruct n ms" using True by (cases t) auto
  then have "members_supported ms" using c by (simp add: members_supported_def)
  from member_stmts_total [OF this, of h 0 d] show ?thesis by (auto simp: t emit_call.simps Let_def)
next
  case False
  assume "c_supported t"
  then obtain fn where "serdes_fn t (helper_name h) = Inr fn" using serdes_fn_total by blast
  then show ?thesis using False by (cases t) (auto simp: emit_call.simps)
qed

lemma emit_call_calls:
  assumes e: "emit_call h t d = Inr (fn, d')" and u: "usable env t" and free: "names_ok env" and d: "all_ok self env d"
  shows "all_ok self env d'" and "extends d d'" and "calls h self env t fn d'"
proof -
  have "all_ok self env d' \<and> extends d d' \<and> calls h self env t fn d'"
  proof (cases "is_compost_struct t")
    case False
    note es = emit_call_simple [OF False e]
    have "call_fn h self callee fn False [] = access h self t" for callee
      using call_simple(1) [OF False es(2)] u by (simp add: usable_def fun_eq_iff)
    then show ?thesis using d es(1) by (simp add: calls_def)
  next
    case True
    then obtain n ms where t: "t = TStruct n ms" by (cases t) auto
    have pre: "members_supported ms" "members_named env ms" "env n = Some ms"
      using u by (simp_all add: t usable_def members_supported_def members_named_def)
    have dh: "dict_ok h self env d" using d by (simp add: all_ok_def)
    have r: "fn = fname h n \<and> dict_ok h self env d' \<and> adds h env (size t) d d' \<and> fn \<in> fst ` set d'"
      using member_stmts_correct [OF names_ok_free [OF free] _ pre(1,2) dh]
      by (intro emit_struct [OF t e _ dh pre(3)]) blast
    then have fnE: "fn = fname h n" by blast
    from r have mem: "fname h n \<in> fst ` set d'" by auto
    have free_fn: "map_of (builtins h) fn = None"
      using names_ok_free [OF free, of h] r pre(3) by (auto simp: names_free_def)
    have "call_fn h self (run h self (rev d'')) fn False [] = access h self t"
      if "extends d' d''" "all_ok self env d''" for d''
    proof -
      have "later h self env d' d''" using that by (simp add: later_def extends_def all_ok_def)
      then have "run h self (rev d'') fn = access h self t" using later_call [of h self env d' d'' n ms] mem fnE pre(3) t by simp
      then show ?thesis by (simp add: call_fn_def free_fn fun_eq_iff)
    qed
    moreover have "extends d d'" using r by (auto simp: adds_def extends_def)
    ultimately show ?thesis using all_ok_adds [OF d] r unfolding calls_def by blast
  qed
  then show "all_ok self env d'" "extends d d'" "calls h self env t fn d'" by simp_all
qed

section \<open>Running an invoke function\<close>

text \<open>
  A handler gets the memory, the values of its parameters and the allocator, if there is one; it
  returns the memory afterwards and its result.
\<close>

type_synonym c_handler = "cmem \<Rightarrow> cval list \<Rightarrow> c_alloc option \<Rightarrow> (cmem \<times> cval option) option"

fun exec_loads :: "bool \<Rightarrow> cfun list \<Rightarrow> (string \<times> string \<times> string) list \<Rightarrow> cmem \<Rightarrow> caddr \<Rightarrow> cval list option" where
  "exec_loads self prog [] m p = Some []"
| "exec_loads self prog ((ct, n, fn) # ls) m p = do {
     (m, p, c) \<leftarrow> call_fn Load self (run Load self prog) fn False [] m p (CStruct []);
     cs \<leftarrow> exec_loads self prog ls m p;
     Some (c # cs) }"

definition exec_alloc :: "alloc_kind option \<Rightarrow> caddr \<Rightarrow> nat \<Rightarrow> c_alloc option" where
  "exec_alloc a dest room =
     (case a of
        None \<Rightarrow> None
      | Some SliceAlloc \<Rightarrow> Some (invoke_slice_alloc dest room)
      | Some (StructAlloc n ms) \<Rightarrow> Some (invoke_struct_alloc ms dest room))"

text \<open>The payloads are at \<open>src\<close> and \<open>dest\<close>; the result is the number of bytes stored, for a procedure that returns something.\<close>

definition exec_invoke ::
  "bool \<Rightarrow> cfun list \<Rightarrow> invoke_body \<Rightarrow> c_handler \<Rightarrow> cmem \<Rightarrow> caddr \<Rightarrow> caddr \<Rightarrow> nat \<Rightarrow> (cmem \<times> nat option) option" where
  "exec_invoke self prog code hdl m src dest room = do {
     cs \<leftarrow> exec_loads self prog (loads code) m src;
     (m, ret) \<leftarrow> hdl m cs (exec_alloc (body_alloc code) dest room);
     case store_call code of
       None \<Rightarrow> Some (m, None)
     | Some (fn, _) \<Rightarrow> do {
         c \<leftarrow> ret;
         (m, d, _) \<leftarrow> call_fn Store self (run Store self prog) fn False [] m dest c;
         Some (m, Some (d - dest)) } }"

text \<open>
  The function as \<^verbatim>\<open>compost_invoke_switch\<close> calls it: the memory consists of the payload of the request, the payload
  buffer of the response and the static memory of the program.
\<close>

definition generated_invoke :: "bool \<Rightarrow> cfun list \<Rightarrow> invoke_body \<Rightarrow> c_handler \<Rightarrow> cmem \<Rightarrow> invoke_fn" where
  "generated_invoke self prog code hdl static rxp txp = do {
     (m, n) \<leftarrow> exec_invoke self prog code hdl (rxp @ txp @ static) 0 (length rxp) (length txp);
     Some (slice (length rxp) (length txp) m, n) }"


section \<open>The emitted functions are correct\<close>

lemma c_type_total: "bitu_width t \<noteq> None \<or> c_supported t \<Longrightarrow> \<exists>ct. c_type t = Inr ct"
  by (cases t rule: c_supported.cases; cases t rule: bitu_width.cases) (auto simp: c_type_def)

lemma load_calls_total: "list_all (\<lambda>(n, t). c_supported t) ps \<Longrightarrow> \<exists>ls d'. load_calls ps d = Inr (ls, d')"
proof (induction ps arbitrary: d)
  case (Cons p ps)
  obtain n t where p: "p = (n, t)" by fastforce
  then have c: "c_supported t" "list_all (\<lambda>(n, t). c_supported t) ps" using Cons.prems by simp_all
  obtain fn d1 where "emit_call Load t d = Inr (fn, d1)" using emit_call_total [OF c(1)] by blast
  moreover obtain ct where "c_type t = Inr ct" using c_type_total [OF disjI2 [OF c(1)]] by blast
  moreover obtain ls d2 where "load_calls ps d1 = Inr (ls, d2)" using Cons.IH [OF c(2)] by blast
  ultimately show ?case by (simp add: p)
qed simp

text \<open>In every later program the calls for the parameters load the arguments by their types.\<close>

definition loads_args :: "bool \<Rightarrow> (string \<Rightarrow> members option) \<Rightarrow> ctype list \<Rightarrow> (string \<times> string \<times> string) list \<Rightarrow> cfun list \<Rightarrow> bool" where
  "loads_args self env ts ls d \<longleftrightarrow>
     (\<forall>d'. extends d d' \<and> all_ok self env d' \<longrightarrow> exec_loads self (rev d') ls = access_args self ts)"

lemma load_calls_correct:
  assumes "load_calls ps d = Inr (ls, d')" and "list_all (\<lambda>(n, t). usable env t) ps" and "names_ok env" and "all_ok self env d"
  shows "all_ok self env d' \<and> extends d d' \<and> loads_args self env (map snd ps) ls d'"
  using assms
proof (induction ps arbitrary: d ls)
  case Nil
  then show ?case by (auto simp: loads_args_def fun_eq_iff)
next
  case (Cons p ps)
  obtain n t where p: "p = (n, t)" by fastforce
  obtain fn d1 ct ls' where e: "emit_call Load t d = Inr (fn, d1)" "load_calls ps d1 = Inr (ls', d')" "ls = (ct, n, fn) # ls'"
    using Cons.prems(1) by (auto simp: p rbind_Inr_iff)
  have u: "usable env t" "list_all (\<lambda>(n, t). usable env t) ps" using Cons.prems(2) by (simp_all add: p)
  note c = emit_call_calls [OF e(1) u(1) Cons.prems(3,4)]
  note r = Cons.IH [OF e(2) u(2) Cons.prems(3) c(1)]
  have "calls Load self env t fn d'" using calls_mono [OF c(3)] r by blast
  then have "exec_loads self (rev d'') ls = access_args self (map snd (p # ps))" if "extends d' d''" "all_ok self env d''" for d''
    using that r by (simp add: e(3) p calls_def loads_args_def fun_eq_iff)
  then show ?case using r c(2) extends_trans by (auto simp: loads_args_def)
qed

text \<open>What a body does: it loads the parameters, and stores the result, if there is one, by their types.\<close>

definition body_ok :: "bool \<Rightarrow> (string \<Rightarrow> members option) \<Rightarrow> rpc \<Rightarrow> invoke_body \<Rightarrow> cfun list \<Rightarrow> bool" where
  "body_ok self env r code d \<longleftrightarrow>
     loads_args self env (map snd (get_param_items r)) (loads code) d \<and>
     body_alloc code = response_alloc (return_annotation (call_sig r)) \<and>
     (case return_annotation (call_sig r) of
        None \<Rightarrow> store_call code = None
      | Some t \<Rightarrow> \<exists>fn b. store_call code = Some (fn, b) \<and> calls Store self env t fn d)"

lemma loads_args_mono: "loads_args self env ts ls d \<Longrightarrow> extends d d' \<Longrightarrow> loads_args self env ts ls d'"
  unfolding loads_args_def by (blast intro: extends_trans)

lemma body_ok_mono: "body_ok self env r code d \<Longrightarrow> extends d d' \<Longrightarrow> body_ok self env r code d'"
  unfolding body_ok_def by (auto intro: loads_args_mono calls_mono split: option.splits)

text \<open>A procedure whose types the generator supports.\<close>

definition rpc_usable :: "(string \<Rightarrow> members option) \<Rightarrow> rpc \<Rightarrow> bool" where
  "rpc_usable env r \<longleftrightarrow> list_all (\<lambda>(n, t). usable env t) (get_param_items r) \<and>
     (case return_annotation (call_sig r) of None \<Rightarrow> True | Some t \<Rightarrow> usable env t)"

lemma invoke_code_correct:
  assumes "invoke_code r d = Inr (code, d')" and "rpc_usable env r" and "names_ok env" and "all_ok self env d"
  shows "all_ok self env d' \<and> extends d d' \<and> body_ok self env r code d'"
proof -
  obtain ls d1 call where l: "load_calls (get_param_items r) d = Inr (ls, d1)" "handler_signature r True = Inr call"
    using assms(1) by (auto simp: invoke_code_def Let_def rbind_Inr_iff)
  have u: "list_all (\<lambda>(n, t). usable env t) (get_param_items r)" using assms(2) by (simp add: rpc_usable_def)
  note lc = load_calls_correct [OF l(1) u assms(3,4)]
  show ?thesis
  proof (cases "return_annotation (call_sig r)")
    case None
    then show ?thesis using assms(1) l lc by (auto simp: invoke_code_def body_ok_def rbind_Inr_iff)
  next
    case (Some t)
    obtain fn where s: "emit_call Store t d1 = Inr (fn, d')" "store_call code = Some (fn, is_compost_struct t)"
      "loads code = ls" "body_alloc code = response_alloc (Some t)"
      using assms(1) l Some by (auto simp: invoke_code_def rbind_Inr_iff)
    have "usable env t" using assms(2) Some by (simp add: rpc_usable_def)
    from emit_call_calls [OF s(1) this assms(3)] lc
    have "all_ok self env d'" "extends d1 d'" "calls Store self env t fn d'" by blast+
    then show ?thesis using lc s Some by (auto simp: body_ok_def intro: extends_trans loads_args_mono)
  qed
qed

lemma invoke_fns_correct:
  assumes "invoke_fns e rs d = Inr (fns, d')" and "list_all (rpc_usable env) rs" and "names_ok env" and "all_ok self env d"
  shows "all_ok self env d' \<and> extends d d' \<and>
    list_all2 (\<lambda>r (n, code). n = invoke_fn_name r \<and> body_ok self env r code d') (filter (is_call_inbound e) rs) fns"
  using assms
proof (induction rs arbitrary: d fns)
  case (Cons r rs)
  show ?case
  proof (cases "is_call_inbound e r")
    case True
    obtain code d1 fns' where e: "invoke_code r d = Inr (code, d1)" "invoke_fns e rs d1 = Inr (fns', d')"
      "fns = (invoke_fn_name r, code) # fns'"
      using Cons.prems(1) True by (auto simp: rbind_Inr_iff)
    have u: "rpc_usable env r" "list_all (rpc_usable env) rs" using Cons.prems(2) by simp_all
    note c = invoke_code_correct [OF e(1) u(1) Cons.prems(3,4)]
    note r = Cons.IH [OF e(2) u(2) Cons.prems(3) conjunct1 [OF c]]
    show ?thesis using True c r e(3) by (auto intro: extends_trans body_ok_mono)
  qed (use Cons in auto)
qed simp


section \<open>A handler that implements a procedure\<close>

text \<open>
  The contract of a handler in C values: for arguments that are in the memory, whose slices may lie in the
  payload of the request, it returns a value of the type of the procedure that stands for \<open>f args\<close> and that may be
  stored to the payload of the response.  It may write to the memory, and does so when it allocates in the response.
\<close>

definition implements :: "bool \<Rightarrow> cmem \<Rightarrow> rpc \<Rightarrow> (pyval list \<Rightarrow> pyval) \<Rightarrow> ctype \<Rightarrow> c_handler \<Rightarrow> bool" where
  "implements self static r f t hdl \<longleftrightarrow>
     (\<forall>args. list_all2 wt (map snd (get_param_items r)) args \<longrightarrow>
        wt t (f args) \<and>
        (\<forall>rxp txp cs. let m = rxp @ txp @ static; n = payload_size [t] [f args] in
           cargs m (within 0 (length rxp)) (map snd (get_param_items r)) args cs \<and> n \<le> length txp \<and> n \<le> 1020 \<longrightarrow>
           (\<exists>m' c. hdl m cs (exec_alloc (response_alloc (Some t)) (length rxp) (length txp)) = Some (m', Some c) \<and>
              length m' = length m \<and> carg m' t (f args) c \<and> returnable self m' (length rxp) n t c)))"

lemma cargs_mono: "cargs m (within lo hi) ts vs cs \<Longrightarrow> hi \<le> hi' \<Longrightarrow> cargs m (within lo hi') ts vs cs"
  by (induction m "within lo hi" ts vs cs rule: cargs.induct) (auto intro: within_cwt)

text \<open>What the decorator and the generator have to accept.\<close>

definition rpc_runs :: "(string \<Rightarrow> members option) \<Rightarrow> rpc \<Rightarrow> ctype \<Rightarrow> bool" where
  "rpc_runs env r t \<longleftrightarrow>
     list_all (\<lambda>(n, t). c_supported t \<and> c_class_ok t) (get_param_items r) \<and>
     return_annotation (call_sig r) = Some t \<and> usable env t \<and> flat t \<and> in_step [t]"

text \<open>The loads of the parameters, on a request that Python packed.\<close>

lemma invoke_loads:
  assumes b: "body_ok self env r code prog" "all_ok self env prog"
    and ts: "list_all (\<lambda>t. c_supported t \<and> c_class_ok t) (map snd (get_param_items r))"
    and pk: "pack_payload (map snd (get_param_items r)) args = Inr data" "list_all2 wt (map snd (get_param_items r)) args"
  shows "\<exists>cs. exec_loads self (rev prog) (loads code) ((data @ pad) @ rest) 0 = Some cs \<and>
    cargs ((data @ pad) @ rest) (within 0 (length (data @ pad))) (map snd (get_param_items r)) args cs"
proof -
  let ?m = "(data @ pad) @ rest" and ?ts = "map snd (get_param_items r)"
  have "slice 0 (length data) ?m = data" by (simp add: slice_def)
  then obtain cs where cs: "access_args self ?ts ?m 0 = Some cs" "cargs ?m (within 0 (0 + length data)) ?ts args cs"
    using load_payload [OF pk ts, of 0 ?m self] by auto
  have "exec_loads self (rev prog) (loads code) ?m 0 = Some cs" using b cs(1) by (simp add: body_ok_def loads_args_def)
  moreover have "cargs ?m (within 0 (length (data @ pad))) ?ts args cs" by (rule cargs_mono [OF cs(2)]) simp
  ultimately show ?thesis by blast
qed

lemma invoke_serves:
  assumes b: "body_ok self env r code prog" "all_ok self env prog" and r: "rpc_runs env r t"
    and ts: "types (req_serdes r) = map snd (get_param_items r)" "types (resp_serdes r) = [t]"
    and hdl: "implements self static r f t hdl"
  shows "serves r f (generated_invoke self (rev prog) code hdl static)"
  unfolding serves_def
proof (intro allI impI)
  fix args data out pad and txp :: "byte list"
  assume a: "PayloadSerdes_pack (req_serdes r) args = Inr data \<and> list_all2 wt (types (req_serdes r)) args \<and>
    PayloadSerdes_pack (resp_serdes r) [f args] = Inr out \<and> length out \<le> length txp \<and> length out \<le> 1020"
  let ?rxp = "data @ pad" and ?ts = "map snd (get_param_items r)"
  let ?m = "?rxp @ txp @ static"
  have pk: "pack_payload ?ts args = Inr data" "list_all2 wt ?ts args" "pack_payload [t] [f args] = Inr out"
    using a ts by (simp_all add: PayloadSerdes_pack_def)
  have rn: "list_all (\<lambda>t. c_supported t \<and> c_class_ok t) ?ts" "return_annotation (call_sig r) = Some t"
    "c_supported t" "flat t" "in_step [t]"
    using r by (auto simp: rpc_runs_def usable_def list.pred_map list.pred_set)
  obtain cs where ld: "exec_loads self (rev prog) (loads code) ?m 0 = Some cs"
    and args: "cargs ?m (within 0 (length ?rxp)) ?ts args cs"
    using invoke_loads [OF b rn(1) pk(1,2), of pad "txp @ static"] by auto
  obtain fn br where st: "store_call code = Some (fn, br)" "body_alloc code = response_alloc (Some t)"
    "call_fn Store self (run Store self (rev prog)) fn False [] = access Store self t"
    using b rn(2) by (auto simp: body_ok_def calls_def)
  have wt: "wt t (f args)" using hdl pk(2) by (simp add: implements_def)
  then have n: "length out = payload_size [t] [f args]" using pack_payload_length(1) [OF pk(3)] by simp
  obtain m' c where h: "hdl ?m cs (exec_alloc (response_alloc (Some t)) (length ?rxp) (length txp)) = Some (m', Some c)"
    "length m' = length ?m" "carg m' t (f args) c" "returnable self m' (length ?rxp) (length out) t c"
    using hdl pk(2) args a unfolding implements_def Let_def n by blast
  have "length ?rxp + length out \<le> length m'" using a by (simp add: h(2))
  with result_stored [OF rn(3-5) wt h(3,4) n] a obtain m'' where
    s: "access Store self t m' (length ?rxp) c = Some (m'', length ?rxp + length out, c)" "length m'' = length m'"
    "\<forall>rest. unpack_payload [t] (slice (length ?rxp) (length out) m'' @ rest) = Inr [f args]" by auto
  let ?buf = "slice (length ?rxp) (length txp) m''"
  have "generated_invoke self (rev prog) code hdl static ?rxp txp = Some (?buf, Some (length out))"
    using ld st h(1) s(1) by (simp add: generated_invoke_def exec_invoke_def)
  moreover have "length ?buf = length txp" by (simp add: s(2) h(2))
  moreover have "take (length out) ?buf = slice (length ?rxp) (length out) m''"
    using a by (simp add: slice_def min_absorb1)
  ultimately show "\<exists>buf. generated_invoke self (rev prog) code hdl static ?rxp txp = Some (buf, Some (length out)) \<and>
      length buf = length txp \<and> (\<forall>rest. PayloadSerdes_unpack (resp_serdes r) (take (length out) buf @ rest) = Inr [f args])"
    using s(3) ts(2) by (auto simp: PayloadSerdes_unpack_def)
qed

section \<open>The switch over the generated functions\<close>

text \<open>
  The functions of the generated file: those for outbound notifications come first, and all of them share
  the dictionary.
\<close>

record c_program =
  notif_bodies :: "(rpc \<times> notif_body) list"
  invoke_bodies :: "(string \<times> invoke_body) list"
  type_fns :: "cfun list"

definition c_functions :: "endpoint \<Rightarrow> rpc list \<Rightarrow> c_program res" where
  "c_functions e rs =
     rbind (validate_endpoint CCodeGenerator_features e rs) (\<lambda>_.
     rbind (notif_fns e rs []) (\<lambda>n.
     rbind (invoke_fns e rs (snd n)) (\<lambda>i.
     Inr \<lparr>notif_bodies = fst n, invoke_bodies = fst i, type_fns = snd i\<rparr>)))"

text \<open>\<^verbatim>\<open>compost_invoke_switch\<close> as the generator emits it, with the handlers of the application linked in.\<close>

definition generated_switch ::
  "bool \<Rightarrow> cmem \<Rightarrow> endpoint \<Rightarrow> rpc list \<Rightarrow> c_program \<Rightarrow> (string \<Rightarrow> c_handler) \<Rightarrow> handlers" where
  "generated_switch self static e rs p hdl =
     map (\<lambda>r. (word_of_int (id_of r),
            case map_of (invoke_bodies p) (invoke_fn_name r) of
              None \<Rightarrow> \<lambda>_ _. None
            | Some code \<Rightarrow> generated_invoke self (rev (type_fns p)) code (hdl (name_of r)) static))
       (switch_rpcs e rs)"

text \<open>In every later program the calls for the parameters store values by their types.\<close>

fun exec_stores :: "bool \<Rightarrow> cfun list \<Rightarrow> (string \<times> bool \<times> string) list \<Rightarrow> cval list \<Rightarrow> cmem \<Rightarrow> caddr \<Rightarrow> (cmem \<times> caddr) option" where
  "exec_stores self prog [] cs m p = Some (m, p)"
| "exec_stores self prog ((fn, b, n) # ss) (c # cs) m p = do {
     (m, p, _) \<leftarrow> call_fn Store self (run Store self prog) fn False [] m p c;
     exec_stores self prog ss cs m p }"
| "exec_stores self prog _ [] m p = None"

fun store_args :: "bool \<Rightarrow> ctype list \<Rightarrow> cval list \<Rightarrow> cmem \<Rightarrow> caddr \<Rightarrow> (cmem \<times> caddr) option" where
  "store_args self [] cs m p = Some (m, p)"
| "store_args self (t # ts) (c # cs) m p = do {
     (m, p, _) \<leftarrow> access Store self t m p c;
     store_args self ts cs m p }"
| "store_args self _ [] m p = None"

definition stores_params :: "bool \<Rightarrow> (string \<Rightarrow> members option) \<Rightarrow> ctype list \<Rightarrow> (string \<times> bool \<times> string) list \<Rightarrow> cfun list \<Rightarrow> bool" where
  "stores_params self env ts ss d \<longleftrightarrow>
     (\<forall>d' cs m p. extends d d' \<and> all_ok self env d' \<longrightarrow> exec_stores self (rev d') ss cs m p = store_args self ts cs m p)"

lemma stores_params_mono: "stores_params self env ts ss d \<Longrightarrow> extends d d' \<Longrightarrow> stores_params self env ts ss d'"
  unfolding stores_params_def by (blast intro: extends_trans)

lemma store_calls_correct:
  assumes "store_calls ps d = Inr (ss, d')" and "list_all (\<lambda>(n, t). usable env t) ps" and "names_ok env" and "all_ok self env d"
  shows "all_ok self env d' \<and> extends d d' \<and> stores_params self env (map snd ps) ss d'"
  using assms
proof (induction ps arbitrary: d ss)
  case Nil
  then show ?case by (auto simp: stores_params_def)
next
  case (Cons p ps)
  obtain n t where p: "p = (n, t)" by fastforce
  obtain fn d1 b ss' where e: "emit_call Store t d = Inr (fn, d1)" "store_calls ps d1 = Inr (ss', d')" "ss = (fn, b, n) # ss'"
    using Cons.prems(1) by (auto simp: p rbind_Inr_iff)
  have u: "usable env t" "list_all (\<lambda>(n, t). usable env t) ps" using Cons.prems(2) by (simp_all add: p)
  note c = emit_call_calls [OF e(1) u(1) Cons.prems(3,4)]
  note r = Cons.IH [OF e(2) u(2) Cons.prems(3) c(1)]
  have "calls Store self env t fn d'" using calls_mono [OF c(3)] r by blast
  then have "exec_stores self (rev d'') ss cs m q' = store_args self (map snd (p # ps)) cs m q'"
    if "extends d' d''" "all_ok self env d''" for d'' cs m q'
    using that r by (cases cs) (simp_all add: e(3) p calls_def stores_params_def)
  then show ?case using r c(2) extends_trans by (auto simp: stores_params_def)
qed

lemma notif_fns_correct:
  assumes "notif_fns e rs d = Inr (fns, d')" and "list_all (rpc_usable env) rs" and "names_ok env" and "all_ok self env d"
  shows "all_ok self env d' \<and> extends d d' \<and>
    (\<forall>(r, b) \<in> set fns. stores_params self env (map snd (get_param_items r)) (param_stores b) d') \<and>
    map fst fns = filter (\<lambda>r. is_notification r \<and> is_call_outbound e r) rs"
  using assms
proof (induction rs arbitrary: d fns)
  case (Cons r rs)
  show ?case
  proof (cases "is_notification r \<and> is_call_outbound e r")
    case True
    obtain ss d1 b fns' where s: "store_calls (get_param_items r) d = Inr (ss, d1)" "notif_fns e rs d1 = Inr (fns', d')"
      "fns = (r, b) # fns'" "param_stores b = ss"
      using Cons.prems(1) True by (auto simp: rbind_Inr_iff notif_code_def)
    have u: "rpc_usable env r" "list_all (rpc_usable env) rs" using Cons.prems(2) by simp_all
    from u(1) have "list_all (\<lambda>(n, t). usable env t) (get_param_items r)" by (simp add: rpc_usable_def)
    note c = store_calls_correct [OF s(1) this Cons.prems(3,4)]
    note i = Cons.IH [OF s(2) u(2) Cons.prems(3) conjunct1 [OF c]]
    then show ?thesis using c s True by (auto intro: extends_trans stores_params_mono)
  qed (use Cons in auto)
qed simp

lemma all_ok_Nil: "all_ok self env []"
  by (simp add: all_ok_def dict_ok_def)

lemma invoke_fn_lookup:
  assumes "list_all2 (\<lambda>r (n, code). n = invoke_fn_name r \<and> P r code) rs fns" and "distinct (map name_of rs)" and "r \<in> set rs"
  shows "\<exists>code. map_of fns (invoke_fn_name r) = Some code \<and> P r code"
  using assms
proof (induction rs fns rule: list_all2_induct)
  case (Cons x rs y fns)
  obtain n code where y: "y = (n, code)" "n = invoke_fn_name x" "P x code" using Cons.hyps(1) by (cases y) auto
  show ?case
  proof (cases "r = x")
    case False
    then have "r \<in> set rs" "name_of r \<noteq> name_of x" using Cons.prems by (auto simp: image_iff)
    then show ?thesis using Cons.IH Cons.prems(1) y by (auto simp: invoke_fn_name_def)
  qed (use y in simp)
qed simp

lemma map_of_keyed:
  "x \<in> set xs \<Longrightarrow> (\<And>y. y \<in> set xs \<Longrightarrow> k y = k x \<Longrightarrow> y = x) \<Longrightarrow> map_of (map (\<lambda>x. (k x, g x)) xs) (k x) = Some (g x)"
proof (induction xs)
  case (Cons y xs)
  then show ?case by (cases "k y = k x") auto
qed simp

lemma switch_lookup:
  assumes "register_all [] rs = Inr rpcs" and "r \<in> set rs" and "r \<in> set (switch_rpcs e rs)"
  shows "map_of (map (\<lambda>r. (word_of_int (id_of r) :: 16 word, g r)) (switch_rpcs e rs)) (word_of_int (id_of r)) = Some (g r)"
proof -
  let ?k = "\<lambda>r. word_of_int (id_of r) :: 16 word"
  have reg: "distinct (map id_of rs)" "\<forall>r \<in> set rs. 0 \<le> id_of r \<and> id_of r \<le> 0xF00"
    using assms(1) by (auto simp: register_all_iff list_all_iff)
  have "uint (?k r) = id_of r" if "r \<in> set rs" for r
  proof -
    have "0 \<le> id_of r" "id_of r < 2 ^ 16" using reg(2) that by fastforce+
    then show ?thesis by (simp add: uint_word_of_int_eq take_bit_int_eq_self)
  qed
  note u = this
  have inj: "r' = r" if "?k r' = ?k r" "r' \<in> set (switch_rpcs e rs)" for r'
  proof -
    have "r' \<in> set rs" using that(2) by (simp add: switch_rpcs_def)
    moreover from this have "id_of r' = id_of r" using u [of r'] u [OF assms(2)] that(1) by metis
    moreover have "inj_on id_of (set rs)" using reg(1) by (simp add: distinct_map)
    ultimately show ?thesis using assms(2) by (auto dest: inj_onD)
  qed
  show ?thesis using inj by (intro map_of_keyed [OF assms(3)]) blast
qed

lemma switch_body:
  assumes p: "c_functions e rs = Inr p" and rs: "list_all (rpc_usable env) rs" "names_ok env" "distinct (map name_of rs)"
    and reg: "register_all [] rs = Inr rpcs" "r \<in> set rs" and inb: "is_call_inbound e r"
  shows "\<exists>code. map_of (generated_switch self static e rs p hdl) (word_of_int (id_of r)) =
      Some (generated_invoke self (rev (type_fns p)) code (hdl (name_of r)) static) \<and>
    body_ok self env r code (type_fns p) \<and> all_ok self env (type_fns p)"
proof -
  obtain ns d fns prog where v: "notif_fns e rs [] = Inr (ns, d)" "invoke_fns e rs d = Inr (fns, prog)"
    "invoke_bodies p = fns" "type_fns p = prog"
    using p by (auto simp: c_functions_def rbind_Inr_iff)
  note i = invoke_fns_correct [OF v(2) rs(1,2) conjunct1 [OF notif_fns_correct [OF v(1) rs(1,2) all_ok_Nil]]]
  have "distinct (map name_of (filter (is_call_inbound e) rs))" using rs(3) by (simp add: distinct_map_filter)
  moreover have "r \<in> set (filter (is_call_inbound e) rs)" using inb reg(2) by simp
  ultimately obtain code where c: "map_of fns (invoke_fn_name r) = Some code" "body_ok self env r code prog"
    using invoke_fn_lookup [OF conjunct2 [OF conjunct2 [OF i]]] by blast
  moreover have "r \<in> set (switch_rpcs e rs)" using inb reg(2) by (simp add: switch_rpcs_def)
  ultimately show ?thesis
    using i switch_lookup [OF reg(1,2), of e "\<lambda>r. case map_of fns (invoke_fn_name r) of None \<Rightarrow> \<lambda>_ _. None
        | Some code \<Rightarrow> generated_invoke self (rev prog) code (hdl (name_of r)) static"]
    unfolding generated_switch_def v(3,4) by auto
qed

lemma c_functions_inbound: "c_functions e rs = Inr p \<Longrightarrow> r \<in> set rs \<Longrightarrow> \<not> is_notification r \<Longrightarrow> is_call_inbound e r"
  using validated_inbound [of e rs r] by (auto simp: c_functions_def rbind_Inr_iff)

section \<open>A remote call, from end to end\<close>

lemma decorated_rpc:
  assumes "rpc_decorator i nf dir n sg = Inr r"
  shows "is_notification r = nf" "types (req_serdes r) = map snd (get_param_items r)"
    "types (resp_serdes r) = (case return_annotation (call_sig r) of None \<Rightarrow> [] | Some t \<Rightarrow> [t])" "call_sig r = sg"
proof -
  obtain x ps resp where d: "parameters sg = x # ps" "check_return (return_annotation sg) = Inr resp"
    "Rpc_new i n \<lparr>types = map snd ps\<rparr> \<lparr>types = resp\<rparr> sg nf dir = r"
    using assms by (auto simp: rpc_decorator_def rbind_Inr_iff check_params_Inr split: list.splits)
  have "resp = (case return_annotation sg of None \<Rightarrow> [] | Some t \<Rightarrow> [t])"
    using d(2) by (auto simp: check_return_def rbind_Inr_iff split: option.splits if_splits)
  with d(1) show "is_notification r = nf" "types (req_serdes r) = map snd (get_param_items r)"
    "types (resp_serdes r) = (case return_annotation (call_sig r) of None \<Rightarrow> [] | Some t \<Rightarrow> [t])" "call_sig r = sg"
    unfolding d(3) [symmetric] by (simp_all add: Rpc_new_def get_param_items_def)
qed

lemma generated_call:
  assumes "txn_valid s" "alive s" "q s = []" and "\<And>out. tsend out = Inr ()"
    and "register_all [] rs = Inr rpcs" "r \<in> set rs" "distinct (map name_of rs)"
    and "rpc_decorator (id_of r) False dir (name_of r) sg = Inr r"
    and "c_functions e rs = Inr p" "list_all (rpc_usable env) rs" "names_ok env"
    and "rpc_runs env r t" "implements self static r f t (hdl (name_of r))"
    and "PayloadSerdes_pack (req_serdes r) args = Inr data" "list_all2 wt (types (req_serdes r)) args"
    and "Msg_from_data (fst (next_txn s)) False (id_of r) data = Inr rq" "snd (Msg_pack rq) = Inr req"
    and "payload_size [t] [f args] \<le> 1020" "4 + 4 * words (payload_size [t] [f args]) \<le> length txb"
  shows "\<exists>n txb'.
    compost_msg_process (generated_switch self static e rs p hdl) (Some txb) (Some (req @ pad)) = Some (int n, Some txb') \<and>
    n = 4 + 4 * words (payload_size [t] [f args]) \<and> length txb' = length txb \<and>
    uint (hd (take n txb')) = int (words (payload_size [t] [f args])) \<and>
    (\<forall>pad'. \<exists>s'. Rpc_call rpcs callb tsend r args [Inr (take n txb' @ pad')] s = (Inr (Some (f args)), s') \<and>
       sent s' = sent s @ [req] \<and> q s' = [] \<and> alive s' \<and> txn_valid s')"
proof -
  have r: "\<not> is_notification r" "types (req_serdes r) = map snd (get_param_items r)" "types (resp_serdes r) = [t]"
    using decorated_rpc [OF assms(8)] assms(12) by (auto simp: rpc_runs_def)
  obtain h where h: "map_of (generated_switch self static e rs p hdl) (word_of_int (id_of r)) = Some h" "serves r f h"
    using switch_body [OF assms(9-11,7,5,6) c_functions_inbound [OF assms(9,6) r(1)], of self static hdl]
      invoke_serves [OF _ _ assms(12) r(2,3) assms(13)] by blast
  obtain out where out: "PayloadSerdes_pack (resp_serdes r) [f args] = Inr out" "length out = payload_size [t] [f args]"
  proof -
    have wt: "wt t (f args)" using assms(13,15) r(2) by (simp add: implements_def)
    have fl: "list_all flat [t]" "list_all2 wt [t] [f args]" using assms(12) wt by (simp_all add: rpc_runs_def)
    from pack_payload_fits [OF fl(2,1)] assms(18) obtain out where "pack_payload [t] [f args] = Inr out" by auto
    then show thesis
      using that pack_payload_length(1) fl(2) r(3) by (simp add: PayloadSerdes_pack_def)
  qed
  show ?thesis
    using remote_call [OF assms(1-6) r(1) assms(14-17) h out(1)] assms(18,19) out(2) by (simp only:)
qed

text \<open>
  C1. A remote call computes the remote function, from end to end: for a protocol that the C generator accepts,
  a decorated procedure of it, and a handler that implements \<open>f\<close> on C values, the request that
  \<^verbatim>\<open>Rpc.__call__\<close> sends, processed by \<^verbatim>\<open>compost_msg_process\<close> with the generated functions and answered with the bytes
  it says are valid and any padding, makes the call return \<open>f args\<close>; the session is then ready for the next call.
\<close>

theorem generated_call_returns:
  assumes "txn_valid s" "alive s" "q s = []" and "\<And>out. tsend out = Inr ()"
    and "register_all [] rs = Inr rpcs" "r \<in> set rs" "distinct (map name_of rs)"
    and "rpc_decorator (id_of r) False dir (name_of r) sg = Inr r"
    and "c_functions e rs = Inr p" "list_all (rpc_usable env) rs" "names_ok env"
    and "rpc_runs env r t" "implements self static r f t (hdl (name_of r))"
    and "PayloadSerdes_pack (req_serdes r) args = Inr data" "list_all2 wt (types (req_serdes r)) args"
    and "Msg_from_data (fst (next_txn s)) False (id_of r) data = Inr rq" "snd (Msg_pack rq) = Inr req"
    and "payload_size [t] [f args] \<le> 1020" "4 + 4 * words (payload_size [t] [f args]) \<le> length txb"
  shows "\<exists>n txb' s'.
    compost_msg_process (generated_switch self static e rs p hdl) (Some txb) (Some (req @ pad)) = Some (int n, Some txb') \<and>
    Rpc_call rpcs callb tsend r args [Inr (take n txb' @ pad')] s = (Inr (Some (f args)), s') \<and>
    sent s' = sent s @ [req] \<and> q s' = [] \<and> alive s' \<and> txn_valid s'"
proof -
  have "\<exists>n txb'.
      compost_msg_process (generated_switch self static e rs p hdl) (Some txb) (Some (req @ pad)) = Some (int n, Some txb') \<and>
      n = 4 + 4 * words (payload_size [t] [f args]) \<and> length txb' = length txb \<and>
      uint (hd (take n txb')) = int (words (payload_size [t] [f args])) \<and>
      (\<forall>pad'. \<exists>s'. Rpc_call rpcs callb tsend r args [Inr (take n txb' @ pad')] s = (Inr (Some (f args)), s') \<and>
         sent s' = sent s @ [req] \<and> q s' = [] \<and> alive s' \<and> txn_valid s')"
    using assms by (rule generated_call)
  then show ?thesis by blast
qed

text \<open>A procedure that returns its argument; the handler returns the slice of the request.\<close>

definition echo :: rpc where
  "echo = Rpc_new 2 ''echo'' \<lparr>types = [TBytes]\<rparr> \<lparr>types = [TBytes]\<rparr>
     \<lparr>parameters = [(''self'', TOther ''_empty''), (''data'', TBytes)], return_annotation = Some TBytes\<rparr>
     False TO_REMOTE"

definition echo_handler :: c_handler where
  "echo_handler m cs alloc = (case cs of [c] \<Rightarrow> Some (m, Some c) | _ \<Rightarrow> None)"

lemma echo_implements: "implements self static echo (\<lambda>args. case args of [v] \<Rightarrow> v | _ \<Rightarrow> VBytes []) TBytes echo_handler"
proof -
  have p: "map snd (get_param_items echo) = [TBytes]" by (simp add: echo_def Rpc_new_def get_param_items_def)
  have "cwt (placed (length (rxp @ txp @ static)) (length rxp) (length rxp + n)) TBytes c"
    if "cwt (within 0 (length rxp)) TBytes c" for rxp txp :: "byte list" and n c
    using that unsigned_less [of "slen s" for s] by (auto simp: placed_def within_def csizeof_def split: cval.splits)
  note placed = this
  show ?thesis
    unfolding implements_def p Let_def
  proof (intro allI impI conjI)
    fix args assume "list_all2 wt [TBytes] args"
    then obtain v where v: "args = [v]" "wt TBytes v" by (auto simp: list_all2_Cons1)
    show "wt TBytes (case args of [v] \<Rightarrow> v | _ \<Rightarrow> VBytes [])" using v by simp
    fix rxp txp :: "byte list" and cs
    let ?m = "rxp @ txp @ static" and ?n = "payload_size [TBytes] [case args of [v] \<Rightarrow> v | _ \<Rightarrow> VBytes []]"
    assume "cargs ?m (within 0 (length rxp)) [TBytes] args cs \<and> ?n \<le> length txp \<and> ?n \<le> 1020"
    then obtain c where c: "cs = [c]" "carg ?m TBytes v c" "cwt (within 0 (length rxp)) TBytes c"
      using v(1) by (cases cs rule: list.exhaust; cases "tl cs") auto
    then have "returnable self ?m (length rxp) ?n TBytes c" using placed by (simp only: returnable_def) blast
    with c v(1) show "\<exists>m' c. echo_handler ?m cs (exec_alloc (response_alloc (Some TBytes)) (length rxp) (length txp)) =
        Some (m', Some c) \<and> length m' = length ?m \<and>
        carg m' TBytes (case args of [v] \<Rightarrow> v | _ \<Rightarrow> VBytes []) c \<and> returnable self m' (length rxp) ?n TBytes c"
      by (simp add: echo_handler_def)
  qed
qed

theorem generated_call_returns_witness:
  "\<exists>p. c_functions REMOTE [echo] = Inr p \<and> (\<exists>n txb' s'.
    compost_msg_process (generated_switch True [] REMOTE [echo] p (\<lambda>_. echo_handler)) (Some (replicate 16 255))
      (Some ([1, 2, 0, 2, 0, 2, 7, 8] @ [0])) = Some (int n, Some txb') \<and>
    Rpc_call [(2, echo)] (\<lambda>_ _. Inr ()) (\<lambda>_. Inr ()) echo [VBytes [7, 8]] [Inr (take n txb')] Session_init =
      (Inr (Some (VBytes [7, 8])), s'))"
proof -
  have r: "id_of echo = 2" "name_of echo = ''echo''" "req_serdes echo = \<lparr>types = [TBytes]\<rparr>"
    "get_param_items echo = [(''data'', TBytes)]" "return_annotation (call_sig echo) = Some TBytes"
    by (simp_all add: echo_def Rpc_new_def get_param_items_def)
  have reg: "register_all [] [echo] = Inr [(2, echo)]"
    by (simp add: set_name_def validate_rpc_id_def echo_def Rpc_new_def)
  have dec: "rpc_decorator (id_of echo) False TO_REMOTE (name_of echo) (call_sig echo) = Inr echo"
    by (simp add: rpc_decorator_def echo_def Rpc_new_def check_return_def validate_type_def supported_param_def supported_return_def)
  have v: "validate_endpoint CCodeGenerator_features REMOTE [echo] = Inr ()" by code_simp
  have "\<exists>p. c_functions REMOTE [echo] = Inr p"
    unfolding c_functions_def v
    by (simp add: echo_def Rpc_new_def is_call_inbound_def invoke_code_def get_param_items_def emit_call.simps
        serdes_fn_def c_type_def handler_signature_def c_params_def is_type_dynamic_def Let_def)
  then obtain p where p: "c_functions REMOTE [echo] = Inr p" ..
  have s: "txn_valid Session_init" "alive Session_init" "q Session_init = []"
    by (simp_all add: Session_init_def txn_valid_def)
  have pk: "PayloadSerdes_pack (req_serdes echo) [VBytes [7, 8]] = Inr [0, 2, 7, 8]" unfolding r by code_simp
  have m: "Msg_from_data (fst (next_txn Session_init)) False (id_of echo) [0, 2, 7, 8] =
      Inr \<lparr>msg_header = \<lparr>len = 1, txn = 2, resp = False, rpc_id = 2\<rparr>, payload = [0, 2, 7, 8]\<rparr>"
    unfolding r by code_simp
  have o: "snd (Msg_pack \<lparr>msg_header = \<lparr>len = 1, txn = 2, resp = False, rpc_id = 2\<rparr>, payload = [0, 2, 7, 8]\<rparr>) =
      Inr [1, 2, 0, 2, 0, 2, 7, 8]" by code_simp
  have u: "rpc_usable Map.empty echo" "rpc_runs Map.empty echo TBytes" "names_ok Map.empty"
    by (simp_all add: rpc_usable_def rpc_runs_def usable_def r flat_def in_step_def names_ok_def names_free_def)
  have sz: "payload_size [TBytes] [VBytes [7, 8]] = 4" by code_simp
  show ?thesis
    using generated_call_returns [where tsend = "\<lambda>_. Inr ()" and self = True and static = "[]" and txb = "replicate 16 255"
        and pad = "[0]" and pad' = "[]" and callb = "\<lambda>_ _. Inr ()" and hdl = "\<lambda>_. echo_handler", OF s _ reg _ _ dec p _ u(3,2) echo_implements pk _ m o] p u(1) r sz
    by (auto simp: words_def)
qed

end
