(* ===== verification/CNotify.thy ===== *)
theory CNotify
  imports CInvoke
begin

text \<open>
  The generated \<^verbatim>\<open>..._store\<close> functions of outbound notifications: a notification that the C side
  stores reaches the subscribers on the Python side with the values of its parameters.
\<close>

section \<open>Running the store function of a notification\<close>

text \<open>
  The parameters are stored behind the header, the header is stored, and the length of the message is
  read back from its first byte.  \<open>tx\<close> is the address of the buffer.
\<close>

definition exec_notif :: "bool \<Rightarrow> cfun list \<Rightarrow> notif_body \<Rightarrow> 16 word \<Rightarrow> cval list \<Rightarrow> cmem \<Rightarrow> caddr \<Rightarrow> (int \<times> cmem) option" where
  "exec_notif self prog b i cs m tx = do {
     (m, dest) \<leftarrow> exec_stores self prog (param_stores b) cs m (tx + 4);
     let header = \<lparr>wlen = compost_bytes_to_words (of_nat (dest - (tx + 4))), c_txn = 0, c_rpc_id = i, c_resp = False\<rparr>;
     (ret, buf) \<leftarrow> compost_header_store (Some (drop tx m)) header;
     buf \<leftarrow> buf;
     Some (COMPOST_MSG_LEN buf, take tx m @ buf) }"

section \<open>Both sides agree on the parameters\<close>

lemma store_args_agree:
  assumes "pack_args ts vs m off = Inr (m', off')" and "list_all (\<lambda>t. c_supported t \<and> flat t) ts"
    and "cargs m0 (placed (length m) lo hi) ts vs cs" and "keeps (8 * lo) (8 * hi) m0 m"
    and "lo \<le> mu_bytes off" "mu_bytes off' \<le> hi" "hi \<le> length m" "off \<le> 8 * length m" "8 * (hi - lo) < 2 ^ 32"
  shows "store_args self ts cs m (mu_bytes off) = Some (m', mu_bytes off')"
  using assms
proof (induction m0 "placed (length m) lo hi" ts vs cs arbitrary: m off rule: cargs.induct)
  case (2 m0 t ts v vs c cs)
  obtain m1 o1 where p: "pack_value t v m off = Inr (m1, o1)" "pack_args ts vs m1 o1 = Inr (m', off')"
    using "2.prems"(1) by (auto simp: rbind_Inr_iff)
  note ap = pack_value_appends(1) [OF p(1) "2.prems"(8)]
  note ap1 = pack_args_appends [OF p(2) appends_fit [OF ap]]
  have le: "off \<le> o1" "o1 \<le> off'" "length m1 = length m" using ap ap1 by (auto simp: appends_def)
  have o1: "lo \<le> mu_bytes o1" "mu_bytes o1 \<le> hi"
    using mu_bytes_mono [OF le(1)] mu_bytes_mono [OF le(2)] "2.prems"(5,6) by simp_all
  have c: "c_supported t" "flat t" "carg m0 t v c" "cwt (placed (length m) lo hi) t c"
    "cargs m0 (placed (length m) lo hi) ts vs cs" using "2.prems"(2,3) by simp_all
  note s = store_arg [OF p(1) c(1-4) "2.prems"(4,5) o1(2) "2.prems"(7-9), of self]
  from keeps_trans [OF "2.prems"(4) conjunct2 [OF s]] have "keeps (8 * lo) (8 * hi) m0 m1" by simp
  then have "store_args self ts cs m1 (mu_bytes o1) = Some (m', mu_bytes off')"
    using "2.prems" c(5) le o1 appends_fit [OF ap] by (intro "2.hyps" [OF _ p(2)]) simp_all
  then show ?case using s by simp
qed auto

lemma end_of_args_shift: "end_of_args ts vs (8 * n + off) = 8 * n + end_of_args ts vs off"
  by (induction ts vs off rule: end_of_args.induct) (simp_all add: end_of_shift)

lemma notif_payload:
  assumes wt: "list_all2 wt ts args" and ts: "list_all (\<lambda>t. c_supported t \<and> flat t) ts" "in_step ts"
    and n: "n = payload_size ts args" "n \<le> 1020" "dest + n \<le> length m"
    and cs: "cargs m (placed (length m) dest (dest + n)) ts args cs"
  shows "\<exists>m'. store_args self ts cs m dest = Some (m', dest + n) \<and> length m' = length m \<and>
    (\<forall>rest. unpack_payload ts (slice dest n m' @ rest) = Inr args)"
proof -
  let ?off = "end_of_args ts args (8 * dest)"
  have off: "?off = 8 * dest + end_of_args ts args 0" using end_of_args_shift [of ts args dest 0] by simp
  have mb: "mu_bytes ?off = dest + n" unfolding off mu_bytes_shift n(1) payload_size_def ..
  have "?off \<le> 8 * (dest + n)" using mu_bytes_bounds(1) [of ?off] unfolding mb .
  with n have le: "?off \<le> 8 * length m" "?off < 8 * dest + 8 * 65536" by simp_all
  have fl: "list_all flat ts" using ts(1) by (simp add: list.pred_set)
  from pack_args_total [OF wt fl le] obtain m' where pk: "pack_args ts args m (8 * dest) = Inr (m', ?off)" by blast
  have d: "dest \<le> length m" using n(3) by simp
  have "length m' = length m" using pack_args_appends [OF pk] d by (simp add: appends_def)
  moreover have "store_args self ts cs m dest = Some (m', dest + n)"
    using store_args_agree [OF pk ts(1) cs keeps_refl, of self] n mb by simp
  ultimately show ?thesis using stored_unpacks [OF pk d wt ts(2) mb] by blast
qed

section \<open>The listener\<close>

lemma notify_subs_all:
  assumes "PayloadSerdes_unpack sd body = Inr args" and "\<forall>cb \<in> set cbs. callb cb args = Inr ()"
  shows "notify_subs callb sd body cbs s = s\<lparr>notified := notified s @ map (\<lambda>cb. (cb, args)) cbs\<rparr>"
  using assms by (induction cbs arbitrary: s) simp_all

section \<open>The message\<close>

lemma exec_notif_message:
  assumes st: "exec_stores self prog (param_stores b) cs m (tx + 4) = Some (m', tx + 4 + n)"
    and n: "n \<le> 1020" "tx + 4 + 4 * words n \<le> length m'" and i: "0 \<le> i" "i < 4096"
  shows "\<exists>m''. exec_notif self prog b (word_of_int i) cs m tx = Some (int (4 + 4 * words n), m'') \<and>
    length m'' = length m' \<and>
    Msg_unpack (slice tx (4 + 4 * words n) m'') =
      Inr \<lparr>msg_header = \<lparr>len = int (words n), txn = 0, resp = False, rpc_id = i\<rparr>,
           payload = slice (tx + 4) n m' @ slice (tx + 4 + n) (4 * words n - n) m'\<rparr>"
proof -
  let ?h = "\<lparr>len = int (words n), txn = 0, resp = False, rpc_id = i\<rparr>"
  have ok: "header_ok ?h" using i n(1) words_byte [of n] by (simp add: header_ok_def)
  have w: "n \<le> 4 * words n" by (rule words_bounds)
  have room4: "4 \<le> length (drop tx m')" using n by simp
  obtain bs where bs: "Header_pack ?h = Inr bs"
    "compost_header_store (Some (drop tx m')) (c_header_of ?h) = Some (0, Some (bs @ drop 4 (drop tx m')))"
    using header_store_agrees [OF ok room4] by blast
  note res = packed_header_reserved [OF ok bs(1)]
  have "uint (word_of_int (int (words n)) :: byte) = int (words n)"
    using n(1) words_byte [of n] by (intro byte_of_int_eq) simp_all
  then have hd: "uint (hd bs) = int (words n)" using bs(1) ok by (auto simp: Header_pack_bytes header_ok_def split: if_splits)
  let ?m = "take tx m' @ bs @ drop 4 (drop tx m')"
  have "exec_notif self prog b (word_of_int i) cs m tx = Some (4 + 4 * int (words n), ?m)"
    using st bs(2) hd res(2) n(1) by (cases bs) (simp_all add: exec_notif_def Let_def c_header_of_def bytes_to_words COMPOST_MSG_LEN_def)
  moreover have "length ?m = length m'" using res(2) n by simp
  moreover have "slice tx (4 + 4 * words n) ?m = bs @ slice (tx + 4) (4 * words n) m'"
    using res(2) n by (simp add: slice_def add.commute)
  moreover have "slice (tx + 4) (4 * words n) m' = slice (tx + 4) n m' @ slice (tx + 4 + n) (4 * words n - n) m'"
    using w take_add [of n "4 * words n - n" "drop (tx + 4) m'"] by (simp add: slice_def add.commute)
  moreover have "Msg_unpack (bs @ P) = Inr \<lparr>msg_header = ?h, payload = P\<rparr>" for P
    using res(2,3) by (simp add: Msg_unpack_def slice_def)
  ultimately show ?thesis by (intro exI [of _ ?m]) simp
qed

lemma functions_correct:
  assumes "c_functions e rs = Inr p" and "list_all (rpc_usable env) rs" and "names_ok env"
  shows "all_ok self env (type_fns p)"
    and "(r, b) \<in> set (notif_bodies p) \<Longrightarrow> stores_params self env (map snd (get_param_items r)) (param_stores b) (type_fns p)"
    and "map fst (notif_bodies p) = filter (\<lambda>r. is_notification r \<and> is_call_outbound e r) rs"
proof -
  obtain d where n: "notif_fns e rs [] = Inr (notif_bodies p, d)" "invoke_fns e rs d = Inr (invoke_bodies p, type_fns p)"
    using assms(1) by (auto simp: c_functions_def rbind_Inr_iff)
  note c = notif_fns_correct [OF n(1) assms(2,3) all_ok_Nil]
  note i = invoke_fns_correct [OF n(2) assms(2,3) conjunct1 [OF c]]
  show "all_ok self env (type_fns p)" using i by blast
  show "map fst (notif_bodies p) = filter (\<lambda>r. is_notification r \<and> is_call_outbound e r) rs" using c by blast
  show "stores_params self env (map snd (get_param_items r)) (param_stores b) (type_fns p)" if "(r, b) \<in> set (notif_bodies p)"
    using c i that stores_params_mono [of self env _ _ d "type_fns p"] by blast
qed

section \<open>A notification, from end to end\<close>

lemma notification_delivered:
  assumes "c_functions e rs = Inr p" "list_all (rpc_usable env) rs" "names_ok env"
    and "r \<in> set rs" "is_call_outbound e r" "rpc_decorator (id_of r) True dir (name_of r) sg = Inr r"
    and "map_of rpcs (id_of r) = Some (r\<lparr>subscribers := cbs\<rparr>)" "0 \<le> id_of r" "id_of r < 4096"
    and "ts = types (req_serdes r)" "list_all (\<lambda>t. c_supported t \<and> flat t) ts" "in_step ts" "list_all2 wt ts args"
    and "n = payload_size ts args" "n \<le> 1020" "tx + 4 + 4 * words n \<le> length m"
    and "cargs m (placed (length m) (tx + 4) (tx + 4 + n)) ts args cs"
    and "\<forall>cb \<in> set cbs. callb cb args = Inr ()"
  shows "\<exists>b k m'. (r, b) \<in> set (notif_bodies p) \<and>
    exec_notif self (rev (type_fns p)) b (word_of_int (id_of r)) cs m tx = Some (int k, m') \<and> k = 4 + 4 * words n \<and>
    (\<forall>pad. receiver_round rpcs callb (Inr (slice tx k m' @ pad)) s = s\<lparr>notified := notified s @ map (\<lambda>cb. (cb, args)) cbs\<rparr>)"
proof -
  note dr = decorated_rpc [OF assms(6)]
  note fc = functions_correct [OF assms(1-3)]
  have "r \<in> set (map fst (notif_bodies p))" using fc(3) assms(4,5) dr(1) by simp
  then obtain b where b: "(r, b) \<in> set (notif_bodies p)" by auto
  have w: "n \<le> 4 * words n" by (rule words_bounds)
  then have room: "tx + 4 + n \<le> length m" using assms(16) by simp
  obtain m' where m': "store_args self ts cs m (tx + 4) = Some (m', tx + 4 + n)" "length m' = length m"
    "\<And>rest. unpack_payload ts (slice (tx + 4) n m' @ rest) = Inr args"
    using notif_payload [OF assms(13,11,12,14,15) room assms(17), of self] by blast
  have "exec_stores self (rev (type_fns p)) (param_stores b) cs m (tx + 4) = Some (m', tx + 4 + n)"
    using fc(2) [OF b, of self] fc(1) [of self] m'(1) dr(2) assms(10) by (simp add: stores_params_def)
  from exec_notif_message [OF this assms(15) _ assms(8,9)] assms(16) m'(2) obtain m'' where
    e: "exec_notif self (rev (type_fns p)) b (word_of_int (id_of r)) cs m tx = Some (int (4 + 4 * words n), m'')" "length m'' = length m"
    and u: "Msg_unpack (slice tx (4 + 4 * words n) m'') =
      Inr \<lparr>msg_header = \<lparr>len = int (words n), txn = 0, resp = False, rpc_id = id_of r\<rparr>,
           payload = slice (tx + 4) n m' @ slice (tx + 4 + n) (4 * words n - n) m'\<rparr>" by auto
  have "\<not> length (slice tx (4 + 4 * words n) m'') < 4" using assms(16) e(2) by simp
  moreover have "PayloadSerdes_unpack (req_serdes r) (slice (tx + 4) n m' @ rest) = Inr args" for rest
    using m'(3) assms(10) by (simp add: PayloadSerdes_unpack_def)
  ultimately have "receiver_round rpcs callb (Inr (slice tx (4 + 4 * words n) m'' @ pad)) s =
      s\<lparr>notified := notified s @ map (\<lambda>cb. (cb, args)) cbs\<rparr>" for pad
    using Msg_unpack_append [OF u, of pad] assms(7) notify_subs_all [where cbs = cbs and callb = callb and args = args] assms(18) by (simp add: receiver_round_def)
  with b e(1) show ?thesis by blast
qed

text \<open>
  C2. A notification stored by the generated code reaches every subscriber: for well-typed
  values of its parameters, whose slices lie outside of the payload that is written, the function
  \<^verbatim>\<open>..._store\<close> produces a message on which, whatever a transport appends to it, the Python listener calls the subscribers in order,
  each with the values, and changes nothing else of the session.
\<close>

theorem generated_notification_delivered:
  assumes "c_functions e rs = Inr p" "list_all (rpc_usable env) rs" "names_ok env"
    and "r \<in> set rs" "is_call_outbound e r" "rpc_decorator (id_of r) True dir (name_of r) sg = Inr r"
    and "map_of rpcs (id_of r) = Some (r\<lparr>subscribers := cbs\<rparr>)" "0 \<le> id_of r" "id_of r < 4096"
    and "ts = types (req_serdes r)" "list_all (\<lambda>t. c_supported t \<and> flat t) ts" "in_step ts" "list_all2 wt ts args"
    and "n = payload_size ts args" "n \<le> 1020" "tx + 4 + 4 * words n \<le> length m"
    and "cargs m (placed (length m) (tx + 4) (tx + 4 + n)) ts args cs"
    and "\<forall>cb \<in> set cbs. callb cb args = Inr ()"
  shows "\<exists>b k m'. (r, b) \<in> set (notif_bodies p) \<and>
    exec_notif self (rev (type_fns p)) b (word_of_int (id_of r)) cs m tx = Some (int k, m') \<and> k = 4 + 4 * words n \<and>
    (\<forall>pad. receiver_round rpcs callb (Inr (slice tx k m' @ pad)) s = s\<lparr>notified := notified s @ map (\<lambda>cb. (cb, args)) cbs\<rparr>)"
  using assms by (rule notification_delivered)

text \<open>A notification of the C side with a number and a string.\<close>

definition alert :: rpc where
  "alert = Rpc_new 3 ''alert'' \<lparr>types = [TNum U8, TStr]\<rparr> \<lparr>types = []\<rparr>
     \<lparr>parameters = [(''self'', TOther ''_empty''), (''level'', TNum U8), (''what'', TStr)], return_annotation = None\<rparr>
     True TO_LOCAL"

theorem generated_notification_delivered_witness:
  "\<exists>p b k m'. c_functions REMOTE [alert] = Inr p \<and> (alert, b) \<in> set (notif_bodies p) \<and>
    exec_notif True (rev (type_fns p)) b 3 [CNum (C8 7), CSl \<lparr>ptr = Some 0, slen = 2\<rparr>] ([104, 105] @ replicate 14 0) 2 =
      Some (int k, m') \<and>
    (\<forall>pad. notified (receiver_round [(3, alert\<lparr>subscribers := [11, 12]\<rparr>)] (\<lambda>_ _. Inr ()) (Inr (slice 2 k m' @ pad)) Session_init) =
      [(11, [VInt 7, VStr [104, 105]]), (12, [VInt 7, VStr [104, 105]])])"
proof -
  let ?m = "[104, 105] @ replicate 14 0 :: cmem" and ?cs = "[CNum (C8 7), CSl \<lparr>ptr = Some 0, slen = 2\<rparr>]"
  have r: "id_of alert = 3" "name_of alert = ''alert''" "types (req_serdes alert) = [TNum U8, TStr]"
    by (simp_all add: alert_def Rpc_new_def)
  have dec: "rpc_decorator (id_of alert) True TO_LOCAL (name_of alert) (call_sig alert) = Inr alert"
    by (simp add: rpc_decorator_def alert_def Rpc_new_def check_return_def validate_type_def supported_param_def)
  have v: "validate_endpoint CCodeGenerator_features REMOTE [alert] = Inr ()" by code_simp
  have "\<exists>p. c_functions REMOTE [alert] = Inr p"
    unfolding c_functions_def v
    by (simp add: alert_def Rpc_new_def is_call_inbound_def is_call_outbound_def notif_code_def get_param_items_def emit_call.simps
        serdes_fn_def c_type_def c_params_def)
  then obtain p where p: "c_functions REMOTE [alert] = Inr p" ..
  have u: "list_all (rpc_usable Map.empty) [alert]" "names_ok Map.empty" "is_call_outbound REMOTE alert"
    by (simp_all add: rpc_usable_def usable_def alert_def Rpc_new_def get_param_items_def is_call_outbound_def
        names_ok_def names_free_def)
  have sz: "5 = payload_size [TNum U8, TStr] [VInt 7, VStr [104, 105]]" by code_simp
  have cs: "cargs ?m (placed (length ?m) (2 + 4) (2 + 4 + 5)) [TNum U8, TStr] [VInt 7, VStr [104, 105]] ?cs"
  proof -
    have "slice_vals U8 ?m \<lparr>ptr = Some 0, slen = 2\<rparr> = map C8 [104, 105]" by code_simp
    moreover have "str_encode [104, 105] = Inr [104, 105]" by code_simp
    moreover have "cnum_rel U8 (VInt 7) (C8 7)" by code_simp
    ultimately show ?thesis by (simp add: placed_def slice_end_def csizeof_def)
  qed
  have wt: "list_all2 wt [TNum U8, TStr] [VInt 7, VStr [104, 105]]" by (simp add: fmt_range_def scalar_value_def)
  have ts: "list_all (\<lambda>t. c_supported t \<and> flat t) [TNum U8, TStr]" "in_step [TNum U8, TStr]"
    by (simp_all add: flat_def in_step_def)
  show ?thesis
    using generated_notification_delivered [where tx = 2 and m = ?m and self = True and s = Session_init
        and callb = "\<lambda>_ _. Inr ()" and rpcs = "[(3, alert\<lparr>subscribers := [11, 12]\<rparr>)]" and cbs = "[11, 12]",
        OF p u(1,2) _ u(3) dec _ _ _ r(3) [symmetric] ts wt sz _ _ cs] p r
    by (auto simp: words_def Session_init_def)
qed

section \<open>A notification of the Python side\<close>

lemma msg_process_notified:
  assumes req: "Msg_from_data 0 False i data = Inr rq" "snd (Msg_pack rq) = Inr req" and i: "0 \<le> i" "i < 4096"
    and h: "map_of hs (word_of_int i) = Some h" "h (drop 4 (req @ pad)) (drop 4 txb) = Some (buf, None)" and room: "4 \<le> length txb"
  shows "compost_msg_process hs (Some txb) (Some (req @ pad)) = Some (0, Some (take 4 txb @ buf))"
proof -
  note ld = request_load [OF req _ _ i]
  have "msg_header rq = \<lparr>len = int (words (length data)), txn = 0, resp = False, rpc_id = i\<rparr>"
    using req(1) by (auto simp: Msg_from_data_eq)
  with ld room h show ?thesis
    by (simp add: compost_msg_process_def compost_invoke_switch_def invoke_def c_header_of_def Let_def)
qed

text \<open>
  C3. A notification sent by Python runs the handler and is not answered: the call of the procedure returns nothing,
  the message it sends makes the generated code call the handler of the procedure with C values that stand for the
  arguments, and when the handler returns, \<^verbatim>\<open>compost_msg_process\<close> returns 0, which means that there is nothing
  to transmit; the header of the transmit buffer is untouched.
\<close>

theorem generated_notification_handled:
  assumes "\<And>out. tsend out = Inr ()"
    and "register_all [] rs = Inr rpcs" "r \<in> set rs" "distinct (map name_of rs)"
    and "rpc_decorator (id_of r) True dir (name_of r) sg = Inr r" "return_annotation sg = None"
    and "c_functions e rs = Inr p" "is_call_inbound e r" "list_all (rpc_usable env) rs" "names_ok env"
    and "ts = types (req_serdes r)" "list_all (\<lambda>t. c_supported t \<and> c_class_ok t) ts"
    and "PayloadSerdes_pack (req_serdes r) args = Inr data" "list_all2 wt ts args" "length data \<le> 1020"
    and "4 \<le> length txb"
  shows "\<exists>req. Rpc_call rpcs callb tsend r args [] s = (Inr None, s\<lparr>sent := sent s @ [req]\<rparr>) \<and>
    (\<forall>pad rxp txp m. rxp = drop 4 (req @ pad) \<and> txp = drop 4 txb \<and> m = rxp @ txp @ static \<longrightarrow>
      (\<exists>cs. cargs m (within 0 (length rxp)) ts args cs \<and>
         (\<forall>m' ret. hdl (name_of r) m cs None = Some (m', ret) \<longrightarrow>
            compost_msg_process (generated_switch self static e rs p hdl) (Some txb) (Some (req @ pad)) =
              Some (0, Some (take 4 txb @ slice (length rxp) (length txp) m')))))"
proof -
  note dr = decorated_rpc [OF assms(5)]
  have sg: "return_annotation (call_sig r) = None" using dr(4) assms(6) by simp
  obtain code where c: "map_of (generated_switch self static e rs p hdl) (word_of_int (id_of r)) =
      Some (generated_invoke self (rev (type_fns p)) code (hdl (name_of r)) static)"
    "body_ok self env r code (type_fns p)" "all_ok self env (type_fns p)"
    using switch_body [OF assms(7,9,10,4,2,3,8), of self static hdl] by blast
  have b: "store_call code = None" "body_alloc code = None" using c(2) sg by (simp_all add: body_ok_def response_alloc_def)
  have i: "0 \<le> id_of r" "id_of r < 4096" using register_dom [OF assms(2) register_lookup [OF assms(2,3)]] by simp_all
  obtain rq req where rq: "Msg_from_data 0 False (id_of r) data = Inr rq" "snd (Msg_pack rq) = Inr req"
    "transmit tsend (Msg_from_data 0 False (id_of r) data) s = (Inr (), s\<lparr>sent := sent s @ [req]\<rparr>)"
    using transmit_ok [OF assms(15), of 0 tsend False "id_of r" s] assms(1) by auto
  have "Rpc_call rpcs callb tsend r args [] s = (Inr None, s\<lparr>sent := sent s @ [req]\<rparr>)"
    using assms(13) dr(1) rq(3) by (simp add: Rpc_call_def send_notif_def)
  moreover have "\<exists>cs. cargs m (within 0 (length rxp)) ts args cs \<and>
      (\<forall>m' ret. hdl (name_of r) m cs None = Some (m', ret) \<longrightarrow>
         compost_msg_process (generated_switch self static e rs p hdl) (Some txb) (Some (req @ pad)) =
           Some (0, Some (take 4 txb @ slice (length rxp) (length txp) m')))"
    if m: "rxp = drop 4 (req @ pad)" "txp = drop 4 txb" "m = rxp @ txp @ static" for pad rxp txp m
  proof -
    let ?pad = "replicate (4 * words (length data) - length data) 0 @ pad"
    have rx: "rxp = data @ ?pad" using drop_packed [OF rq(1,2) _ _ i, of pad] m(1) by simp
    have ts: "map snd (get_param_items r) = ts" using dr(2) assms(11) by simp
    have pk: "pack_payload ts args = Inr data" using assms(11,13) by (simp add: PayloadSerdes_pack_def)
    obtain cs where cs: "exec_loads self (rev (type_fns p)) (loads code) m 0 = Some cs" "cargs m (within 0 (length rxp)) ts args cs"
      using invoke_loads [OF c(2,3), unfolded ts, OF assms(12) pk assms(14), of ?pad "txp @ static"] by (auto simp: m(3) rx)
    have "generated_invoke self (rev (type_fns p)) code (hdl (name_of r)) static rxp txp = Some (slice (length rxp) (length txp) m', None)"
      if "hdl (name_of r) m cs None = Some (m', ret)" for m' ret
      using cs(1) b that by (simp add: generated_invoke_def exec_invoke_def exec_alloc_def m(3))
    then show ?thesis
      using msg_process_notified [OF rq(1,2) i c(1), of pad txb] assms(16) cs(2) m(1,2) by blast
  qed
  ultimately show ?thesis by blast
qed

definition led :: rpc where
  "led = Rpc_new 4 ''led'' \<lparr>types = [TNum U8]\<rparr> \<lparr>types = []\<rparr>
     \<lparr>parameters = [(''self'', TOther ''_empty''), (''level'', TNum U8)], return_annotation = None\<rparr> True TO_REMOTE"

definition led_handler :: c_handler where
  "led_handler m cs alloc = (case cs of [CNum x] \<Rightarrow> Some (m, None) | _ \<Rightarrow> None)"

theorem generated_notification_handled_witness:
  "\<exists>p req. c_functions REMOTE [led] = Inr p \<and>
    Rpc_call [(4, led)] (\<lambda>_ _. Inr ()) (\<lambda>_. Inr ()) led [VInt 5] [] Session_init = (Inr None, Session_init\<lparr>sent := [req]\<rparr>) \<and>
    compost_msg_process (generated_switch True [] REMOTE [led] p (\<lambda>_. led_handler)) (Some (replicate 8 9)) (Some (req @ [])) =
      Some (0, Some (replicate 8 9))"
proof -
  let ?txb = "replicate 8 9 :: byte list"
  have r: "id_of led = 4" "name_of led = ''led''" "req_serdes led = \<lparr>types = [TNum U8]\<rparr>" "return_annotation (call_sig led) = None"
    "sent Session_init = []"
    by (simp_all add: led_def Rpc_new_def Session_init_def)
  have reg: "register_all [] [led] = Inr [(4, led)]" by (simp add: set_name_def validate_rpc_id_def led_def Rpc_new_def)
  have dec: "rpc_decorator (id_of led) True TO_REMOTE (name_of led) (call_sig led) = Inr led"
    by (simp add: rpc_decorator_def led_def Rpc_new_def check_return_def validate_type_def supported_param_def)
  have v: "validate_endpoint CCodeGenerator_features REMOTE [led] = Inr ()" by code_simp
  have "\<exists>p. c_functions REMOTE [led] = Inr p"
    unfolding c_functions_def v
    by (simp add: led_def Rpc_new_def is_call_inbound_def is_call_outbound_def invoke_code_def get_param_items_def emit_call.simps
        serdes_fn_def c_type_def handler_signature_def c_params_def Let_def)
  then obtain p where p: "c_functions REMOTE [led] = Inr p" ..
  have u: "list_all (rpc_usable Map.empty) [led]" "names_ok Map.empty" "is_call_inbound REMOTE led"
    by (simp_all add: rpc_usable_def usable_def led_def Rpc_new_def get_param_items_def is_call_inbound_def
        names_ok_def names_free_def)
  have pk: "PayloadSerdes_pack (req_serdes led) [VInt 5] = Inr [5]" unfolding r by code_simp
  from generated_notification_handled [where tsend = "\<lambda>_. Inr ()" and callb = "\<lambda>_ _. Inr ()" and s = Session_init and self = True
      and static = "[]" and hdl = "\<lambda>_. led_handler" and txb = ?txb, OF _ reg _ _ dec r(4) p u(3,1,2) refl _ pk]
  obtain req where rq: "Rpc_call [(4, led)] (\<lambda>_ _. Inr ()) (\<lambda>_. Inr ()) led [VInt 5] [] Session_init =
      (Inr None, Session_init\<lparr>sent := sent Session_init @ [req]\<rparr>)"
    and all: "\<And>pad rxp txp m. rxp = drop 4 (req @ pad) \<Longrightarrow> txp = drop 4 ?txb \<Longrightarrow> m = rxp @ txp @ [] \<Longrightarrow>
      \<exists>cs. cargs m (within 0 (length rxp)) [TNum U8] [VInt 5] cs \<and>
         (\<forall>m' ret. led_handler m cs None = Some (m', ret) \<longrightarrow>
            compost_msg_process (generated_switch True [] REMOTE [led] p (\<lambda>_. led_handler)) (Some ?txb) (Some (req @ pad)) =
              Some (0, Some (take 4 ?txb @ slice (length rxp) (length txp) m')))"
    by (auto simp: r fmt_range_def)
  let ?m = "drop 4 (req @ []) @ drop 4 ?txb @ []"
  from all [OF refl refl refl, of "[]"] obtain cs where cs: "cargs ?m (within 0 (length (drop 4 (req @ [])))) [TNum U8] [VInt 5] cs"
    "\<And>m' ret. led_handler ?m cs None = Some (m', ret) \<Longrightarrow>
       compost_msg_process (generated_switch True [] REMOTE [led] p (\<lambda>_. led_handler)) (Some ?txb) (Some (req @ [])) =
         Some (0, Some (take 4 ?txb @ slice (length (drop 4 (req @ []))) (length (drop 4 ?txb)) m'))" by blast
  obtain c where "cs = [c]" "crel ?m (TNum U8) (VInt 5) c" using cs(1) by (cases cs; cases "tl cs") auto
  then obtain x where "cs = [CNum x]" by (cases c) auto
  then have "led_handler ?m cs None = Some (?m, None)" by (simp add: led_handler_def)
  from cs(2) [OF this] p rq show ?thesis by (auto simp: r slice_def numeral_eq_Suc)
qed

end
