(* ===== verification/Template.thy ===== *)
theory Template
  imports Prelude
begin

text \<open>
  \<^verbatim>\<open>string.Template\<close> of the standard library, which the C templates are written for, and the two module contents that
  \<^verbatim>\<open>lib/c/header_template.py\<close> and \<^verbatim>\<open>lib/c/source_template.py\<close> assemble: the slice interface instantiated for ten element
  types between the fixed parts.  The last section is the dispatch of the generic macros of the header.
\<close>

section \<open>Substitution\<close>

definition is_id_start :: "char \<Rightarrow> bool" where
  "is_id_start c = (let n = of_char c :: nat in n = 95 \<or> (65 \<le> n \<and> n \<le> 90) \<or> (97 \<le> n \<and> n \<le> 122))"

definition is_id_char :: "char \<Rightarrow> bool" where
  "is_id_char c = (is_id_start c \<or> (let n = of_char c :: nat in 48 \<le> n \<and> n \<le> 57))"

definition lookup_name :: "(string \<times> string) list \<Rightarrow> string \<Rightarrow> string res" where
  "lookup_name env n = (case map_of env n of None \<Rightarrow> Inl KeyError | Some v \<Rightarrow> Inr v)"

lemma dropWhile_shorter: "length (dropWhile P xs) - n \<le> Suc (length xs)"
  using length_dropWhile_le [of P xs] by simp

text \<open>\<^verbatim>\<open>$$\<close> is a dollar sign, \<^verbatim>\<open>$name\<close> and \<^verbatim>\<open>${name}\<close> are replaced, and any other dollar sign is an error.\<close>

function substitute :: "string \<Rightarrow> (string \<times> string) list \<Rightarrow> string res" where
  "substitute [] env = Inr []"
| "substitute (c # cs) env =
     (if c \<noteq> CHR ''$'' then rbind (substitute cs env) (\<lambda>r. Inr (c # r))
      else
        (case cs of
           [] \<Rightarrow> Inl ValueError
         | d # ds \<Rightarrow>
             if d = CHR ''$'' then rbind (substitute ds env) (\<lambda>r. Inr (CHR ''$'' # r))
             else if d = CHR ''{''
             then
               (let name = takeWhile is_id_char ds; rest = dropWhile is_id_char ds in
                if name \<noteq> [] \<and> is_id_start (hd name) \<and> rest \<noteq> [] \<and> hd rest = CHR ''}''
                then rbind (lookup_name env name) (\<lambda>v. rbind (substitute (tl rest) env) (\<lambda>r. Inr (v @ r)))
                else Inl ValueError)
             else if is_id_start d
             then rbind (lookup_name env (takeWhile is_id_char cs)) (\<lambda>v.
                  rbind (substitute (dropWhile is_id_char cs) env) (\<lambda>r. Inr (v @ r)))
             else Inl ValueError))"
  by pat_completeness auto
termination
  by (relation "measure (length \<circ> fst)") (auto simp: less_Suc_eq_le length_dropWhile_le dropWhile_shorter [of _ _ 0, simplified] dropWhile_shorter is_id_char_def)

declare substitute.simps(2) [simp del]

text \<open>A template for a set of names: substitution succeeds, whatever the values are.\<close>

definition template_over :: "string list \<Rightarrow> string \<Rightarrow> bool" where
  "template_over names t = (case substitute t (map (\<lambda>n. (n, [])) names) of Inr _ \<Rightarrow> True | Inl _ \<Rightarrow> False)"

lemma substitute_text [simp]: "c \<noteq> CHR ''$'' \<Longrightarrow> substitute (c # cs) env = rbind (substitute cs env) (\<lambda>r. Inr (c # r))"
  by (simp add: substitute.simps)

lemma lookup_name_mono:
  assumes "lookup_name (map (\<lambda>n. (n, [])) names) n = Inr v" and "set names \<subseteq> fst ` set env"
  shows "\<exists>w. lookup_name env n = Inr w"
proof -
  have "n \<in> set names" using assms(1) by (auto simp: lookup_name_def map_of_map_restrict restrict_map_def split: option.splits if_splits dest: map_of_SomeD)
  then have "map_of env n \<noteq> None" using assms(2) by (auto simp: map_of_eq_None_iff)
  then show ?thesis by (auto simp: lookup_name_def)
qed

lemma substitute_mono:
  assumes "substitute t (map (\<lambda>n. (n, [])) names) = Inr x" and "set names \<subseteq> fst ` set env"
  shows "\<exists>y. substitute t env = Inr y"
  using assms(1)
proof (induction t "map (\<lambda>n. (n, [] :: string)) names" arbitrary: x rule: substitute.induct)
  case (2 c cs)
  note look = lookup_name_mono [OF _ assms(2)]
  show ?case
  proof (cases "c = CHR ''$''")
    case False
    with "2.prems" obtain r where r: "substitute cs (map (\<lambda>n. (n, [])) names) = Inr r" by (auto simp: rbind_Inr_iff)
    from "2.hyps"(1) [OF False r] False show ?thesis by auto
  next
    case True
    then obtain d ds where cs: "cs = d # ds" using "2.prems" by (cases cs) (auto simp: substitute.simps)
    consider (dollar) "d = CHR ''$''" | (brace) "d \<noteq> CHR ''$''" "d = CHR ''{''"
      | (name) "d \<noteq> CHR ''$''" "d \<noteq> CHR ''{''" "is_id_start d"
      using "2.prems" True cs by (auto simp: substitute.simps split: if_splits)
    then show ?thesis
    proof cases
      case dollar
      then obtain r where r: "substitute ds (map (\<lambda>n. (n, [])) names) = Inr r"
        using "2.prems" True cs by (auto simp: substitute.simps rbind_Inr_iff)
      obtain y where "substitute ds env = Inr y" using "2.hyps"(2) [OF _ cs dollar r] True by auto
      then show ?thesis using True cs dollar by (simp add: substitute.simps)
    next
      case brace
      let ?n = "takeWhile is_id_char ds" and ?r = "dropWhile is_id_char ds"
      have ok: "?n \<noteq> [] \<and> is_id_start (hd ?n) \<and> ?r \<noteq> [] \<and> hd ?r = CHR ''}''"
        using "2.prems" True cs brace by (auto simp: substitute.simps Let_def split: if_splits)
      then obtain v r where r: "lookup_name (map (\<lambda>n. (n, [])) names) ?n = Inr v"
        "substitute (tl ?r) (map (\<lambda>n. (n, [])) names) = Inr r"
        using "2.prems" True cs brace by (auto simp: substitute.simps Let_def rbind_Inr_iff)
      obtain y where "substitute (tl ?r) env = Inr y" using "2.hyps"(3) [OF _ cs brace refl refl ok r] True by auto
      then show ?thesis using True cs brace ok look [OF r(1)] by (auto simp: substitute.simps Let_def)
    next
      case name
      let ?n = "takeWhile is_id_char cs" and ?r = "dropWhile is_id_char cs"
      obtain v r where r: "lookup_name (map (\<lambda>n. (n, [])) names) ?n = Inr v" "substitute ?r (map (\<lambda>n. (n, [])) names) = Inr r"
        using "2.prems" True cs name by (auto simp: substitute.simps(2) [of _ "d # ds"] rbind_Inr_iff)
      obtain y where "substitute ?r env = Inr y" using "2.hyps"(4) [OF _ cs name r] True by auto
      then show ?thesis using True cs name look [OF r(1)] by (auto simp: substitute.simps(2) [of _ "d # ds"])
    qed
  qed
qed simp

lemma template_over_total:
  "template_over names t \<Longrightarrow> set names \<subseteq> fst ` set env \<Longrightarrow> \<exists>y. substitute t env = Inr y"
  by (auto simp: template_over_def split: sum.splits intro: substitute_mono)

section \<open>Templates as text with holes\<close>

datatype seg = Lit string | Hole string

definition id_name :: "string \<Rightarrow> bool" where
  "id_name n \<longleftrightarrow> n \<noteq> [] \<and> is_id_start (hd n) \<and> list_all is_id_char n"

fun seg_ok :: "seg \<Rightarrow> bool" where
  "seg_ok (Lit t) = (CHR ''$'' \<notin> set t)"
| "seg_ok (Hole n) = id_name n"

fun seg_text :: "seg \<Rightarrow> string" where
  "seg_text (Lit t) = t"
| "seg_text (Hole n) = ''${'' @ n @ ''}''"

definition render :: "seg list \<Rightarrow> string" where
  "render ss = concat (map seg_text ss)"

fun seg_value :: "(string \<times> string) list \<Rightarrow> seg \<Rightarrow> string res" where
  "seg_value env (Lit t) = Inr t"
| "seg_value env (Hole n) = lookup_name env n"

definition fill :: "(string \<times> string) list \<Rightarrow> seg list \<Rightarrow> string res" where
  "fill env ss = rbind (rmap (seg_value env) ss) (\<lambda>xs. Inr (concat xs))"

lemma substitute_Lit: "CHR ''$'' \<notin> set t \<Longrightarrow> substitute (t @ r) env = rbind (substitute r env) (\<lambda>x. Inr (t @ x))"
  by (induction t) (auto simp: rbind_assoc rbind_right)

lemma substitute_Hole:
  assumes "id_name n"
  shows "substitute (''${'' @ n @ ''}'' @ r) env = rbind (lookup_name env n) (\<lambda>v. rbind (substitute r env) (\<lambda>x. Inr (v @ x)))"
proof -
  have b: "\<not> is_id_char (CHR ''}'')" by code_simp
  have n: "n \<noteq> []" "is_id_start (hd n)" "\<And>c. c \<in> set n \<Longrightarrow> is_id_char c"
    using assms by (auto simp: id_name_def list.pred_set)
  then have "takeWhile is_id_char (n @ CHR ''}'' # r) = n" "dropWhile is_id_char (n @ CHR ''}'' # r) = CHR ''}'' # r"
    using b by (auto simp: takeWhile_append2 dropWhile_append2)
  then show ?thesis using n(1,2) b by (simp add: substitute.simps(2) [of "CHR ''$''"] Let_def)
qed

lemma fill_Cons: "fill env (s # ss) = rbind (seg_value env s) (\<lambda>v. rbind (fill env ss) (\<lambda>x. Inr (v @ x)))"
  by (simp add: fill_def rbind_assoc)

lemma substitute_render_append:
  "list_all seg_ok ss \<Longrightarrow> substitute (render ss @ r) env = rbind (fill env ss) (\<lambda>v. rbind (substitute r env) (\<lambda>x. Inr (v @ x)))"
proof (induction ss)
  case (Cons s ss)
  have c: "render (s # ss) @ r = seg_text s @ (render ss @ r)" by (simp add: render_def)
  show ?case
  proof (cases s)
    case (Lit t)
    then have "substitute (render (s # ss) @ r) env = rbind (substitute (render ss @ r) env) (\<lambda>x. Inr (t @ x))"
      using Cons.prems unfolding c by (simp add: substitute_Lit)
    then show ?thesis using Cons Lit by (simp add: fill_Cons rbind_assoc)
  next
    case (Hole n)
    then have "substitute (render (s # ss) @ r) env =
        rbind (lookup_name env n) (\<lambda>v. rbind (substitute (render ss @ r) env) (\<lambda>x. Inr (v @ x)))"
      using Cons.prems substitute_Hole [of n "render ss @ r" env] unfolding c by simp
    then show ?thesis using Cons Hole by (simp add: fill_Cons rbind_assoc)
  qed
qed (simp add: render_def fill_def rbind_right)

lemma substitute_render: "list_all seg_ok ss \<Longrightarrow> substitute (render ss) env = fill env ss"
  using substitute_render_append [of ss "[]" env] by (simp add: rbind_right)

section \<open>The contents of the template modules\<close>

text \<open>The ten calls of \<^verbatim>\<open>t.substitute(fn_suffix=..., struct_suffix=..., type=...)\<close>.\<close>

definition slice_types :: "(string \<times> string \<times> string) list" where
  "slice_types =
     [(''u8'', ''U8'', ''uint8_t''), (''i8'', ''I8'', ''int8_t''), (''u16'', ''U16'', ''uint16_t''), (''i16'', ''I16'', ''int16_t''),
      (''u32'', ''U32'', ''uint32_t''), (''i32'', ''I32'', ''int32_t''), (''u64'', ''U64'', ''uint64_t''), (''i64'', ''I64'', ''int64_t''),
      (''f32'', ''F32'', ''float''), (''f64'', ''F64'', ''double'')]"

definition slice_env :: "string \<times> string \<times> string \<Rightarrow> (string \<times> string) list" where
  "slice_env x = (case x of (f, s, t) \<Rightarrow> [(''fn_suffix'', f), (''struct_suffix'', s), (''type'', t)])"

definition instantiate_slices :: "string \<Rightarrow> string res" where
  "instantiate_slices t = rbind (rmap (\<lambda>x. substitute t (slice_env x)) slice_types) (\<lambda>xs. Inr (concat xs))"

definition header_content :: "string \<Rightarrow> string \<Rightarrow> string \<Rightarrow> string res" where
  "header_content head slice_template tail = rbind (instantiate_slices slice_template) (\<lambda>m. Inr (head @ m @ tail))"

text \<open>A \<^verbatim>\<open>SourcePart\<close> is its flag \<^verbatim>\<open>is_slice_template\<close> and its text.\<close>

definition source_content :: "(bool \<times> string) list \<Rightarrow> string res" where
  "source_content parts =
     rbind (rmap (\<lambda>(is_slice_template, c). if is_slice_template then instantiate_slices c else Inr c) parts) (\<lambda>xs. Inr (concat xs))"

section \<open>The header after both substitutions\<close>

lemma rmap_fill_total:
  assumes "\<forall>n. Hole n \<in> set ss \<longrightarrow> n \<in> fst ` set env" shows "\<exists>x. fill env ss = Inr x"
proof -
  have "\<exists>xs. rmap (seg_value env) ss = Inr xs"
    using assms
  proof (induction ss)
    case (Cons s ss)
    have "\<exists>v. seg_value env s = Inr v"
    proof (cases s)
      case (Hole n)
      then have "n \<in> fst ` set env" using Cons.prems by simp
      then have "map_of env n \<noteq> None" by (simp only: map_of_eq_None_iff) simp
      then show ?thesis using Hole by (auto simp: lookup_name_def)
    qed simp
    then obtain v where "seg_value env s = Inr v" by blast
    with Cons show ?case by auto
  qed simp
  then show ?thesis by (auto simp: fill_def)
qed

text \<open>Filling the slice template leaves no dollar sign behind, so that the second substitution does not touch it.\<close>

lemma fill_no_dollar:
  assumes "list_all seg_ok ss" and "\<forall>(n, v) \<in> set env. CHR ''$'' \<notin> set v" and "fill env ss = Inr x"
  shows "CHR ''$'' \<notin> set x"
  using assms(1,3)
proof (induction ss arbitrary: x)
  case (Cons s ss)
  then obtain v y where v: "seg_value env s = Inr v" "fill env ss = Inr y" "x = v @ y" by (auto simp: fill_Cons rbind_Inr_iff)
  have "CHR ''$'' \<notin> set v"
    using v(1) Cons.prems(1) assms(2)
    by (cases s) (auto simp: lookup_name_def split: option.splits dest: map_of_SomeD)
  then show ?case using Cons v by auto
qed (simp add: fill_def)

lemma instantiate_slices_filled:
  assumes "list_all seg_ok ss" and "\<forall>n. Hole n \<in> set ss \<longrightarrow> n \<in> {''fn_suffix'', ''struct_suffix'', ''type''}"
  shows "\<exists>xs. rmap (\<lambda>t. fill (slice_env t) ss) slice_types = Inr xs \<and> instantiate_slices (render ss) = Inr (concat xs) \<and>
    CHR ''$'' \<notin> set (concat xs)"
proof -
  have one: "\<exists>x. fill (slice_env t) ss = Inr x" for t
    using assms(2) by (intro rmap_fill_total) (cases t, force simp: slice_env_def)
  have clean: "\<forall>t \<in> set slice_types. \<forall>(n, v) \<in> set (slice_env t). CHR ''$'' \<notin> set v" by code_simp
  have "\<exists>xs. rmap (\<lambda>t. fill (slice_env t) ss) ts = Inr xs \<and> CHR ''$'' \<notin> set (concat xs)" if "set ts \<subseteq> set slice_types" for ts
    using that
  proof (induction ts)
    case (Cons t ts)
    obtain x where x: "fill (slice_env t) ss = Inr x" using one by blast
    have "CHR ''$'' \<notin> set x" using fill_no_dollar [OF assms(1) _ x] clean Cons.prems by auto
    with x Cons show ?case by auto
  qed simp
  from this [of slice_types] show ?thesis by (auto simp: instantiate_slices_def substitute_render [OF assms(1)])
qed

section \<open>The generic macros\<close>

text \<open>
  The associations of the \<^verbatim>\<open>_Generic\<close> selections in the header, from the type of the slice to the name of the
  function; the macros pass their arguments on unchanged.
\<close>

definition generic_get :: "(string \<times> string) list" where
  "generic_get =
     [(''struct CompostSliceU8'', ''compost_slice_u8_get''), (''struct CompostSliceU16'', ''compost_slice_u16_get''),
      (''struct CompostSliceU32'', ''compost_slice_u32_get''), (''struct CompostSliceU64'', ''compost_slice_u64_get''),
      (''struct CompostSliceI8'', ''compost_slice_i8_get''), (''struct CompostSliceI16'', ''compost_slice_i16_get''),
      (''struct CompostSliceI32'', ''compost_slice_i32_get''), (''struct CompostSliceI64'', ''compost_slice_i64_get''),
      (''struct CompostSliceF32'', ''compost_slice_f32_get''), (''struct CompostSliceF64'', ''compost_slice_f64_get'')]"

definition generic_set :: "(string \<times> string) list" where
  "generic_set =
     [(''struct CompostSliceU8'', ''compost_slice_u8_set''), (''struct CompostSliceU16'', ''compost_slice_u16_set''),
      (''struct CompostSliceU32'', ''compost_slice_u32_set''), (''struct CompostSliceU64'', ''compost_slice_u64_set''),
      (''struct CompostSliceI8'', ''compost_slice_i8_set''), (''struct CompostSliceI16'', ''compost_slice_i16_set''),
      (''struct CompostSliceI32'', ''compost_slice_i32_set''), (''struct CompostSliceI64'', ''compost_slice_i64_set''),
      (''struct CompostSliceF32'', ''compost_slice_f32_set''), (''struct CompostSliceF64'', ''compost_slice_f64_set'')]"

definition generic_copy :: "(string \<times> string) list" where
  "generic_copy =
     [(''struct CompostSliceU8'', ''compost_slice_u8_copy''), (''struct CompostSliceU16'', ''compost_slice_u16_copy''),
      (''struct CompostSliceU32'', ''compost_slice_u32_copy''), (''struct CompostSliceU64'', ''compost_slice_u64_copy''),
      (''struct CompostSliceI8'', ''compost_slice_i8_copy''), (''struct CompostSliceI16'', ''compost_slice_i16_copy''),
      (''struct CompostSliceI32'', ''compost_slice_i32_copy''), (''struct CompostSliceI64'', ''compost_slice_i64_copy''),
      (''struct CompostSliceF32'', ''compost_slice_f32_copy''), (''struct CompostSliceF64'', ''compost_slice_f64_copy'')]"

definition generic_copy_to :: "(string \<times> string) list" where
  "generic_copy_to =
     [(''struct CompostSliceU8'', ''compost_slice_u8_copy_to''), (''struct CompostSliceU16'', ''compost_slice_u16_copy_to''),
      (''struct CompostSliceU32'', ''compost_slice_u32_copy_to''), (''struct CompostSliceU64'', ''compost_slice_u64_copy_to''),
      (''struct CompostSliceI8'', ''compost_slice_i8_copy_to''), (''struct CompostSliceI16'', ''compost_slice_i16_copy_to''),
      (''struct CompostSliceI32'', ''compost_slice_i32_copy_to''), (''struct CompostSliceI64'', ''compost_slice_i64_copy_to''),
      (''struct CompostSliceF32'', ''compost_slice_f32_copy_to''), (''struct CompostSliceF64'', ''compost_slice_f64_copy_to'')]"

definition generic_ncopy_to :: "(string \<times> string) list" where
  "generic_ncopy_to =
     [(''struct CompostSliceU8'', ''compost_slice_u8_ncopy_to''), (''struct CompostSliceU16'', ''compost_slice_u16_ncopy_to''),
      (''struct CompostSliceU32'', ''compost_slice_u32_ncopy_to''), (''struct CompostSliceU64'', ''compost_slice_u64_ncopy_to''),
      (''struct CompostSliceI8'', ''compost_slice_i8_ncopy_to''), (''struct CompostSliceI16'', ''compost_slice_i16_ncopy_to''),
      (''struct CompostSliceI32'', ''compost_slice_i32_ncopy_to''), (''struct CompostSliceI64'', ''compost_slice_i64_ncopy_to''),
      (''struct CompostSliceF32'', ''compost_slice_f32_ncopy_to''), (''struct CompostSliceF64'', ''compost_slice_f64_ncopy_to'')]"

definition generic_copy_from :: "(string \<times> string) list" where
  "generic_copy_from =
     [(''struct CompostSliceU8'', ''compost_slice_u8_copy_from''), (''struct CompostSliceU16'', ''compost_slice_u16_copy_from''),
      (''struct CompostSliceU32'', ''compost_slice_u32_copy_from''), (''struct CompostSliceU64'', ''compost_slice_u64_copy_from''),
      (''struct CompostSliceI8'', ''compost_slice_i8_copy_from''), (''struct CompostSliceI16'', ''compost_slice_i16_copy_from''),
      (''struct CompostSliceI32'', ''compost_slice_i32_copy_from''), (''struct CompostSliceI64'', ''compost_slice_i64_copy_from''),
      (''struct CompostSliceF32'', ''compost_slice_f32_copy_from''), (''struct CompostSliceF64'', ''compost_slice_f64_copy_from'')]"

definition c_slice_struct :: "string \<times> string \<times> string \<Rightarrow> string" where
  "c_slice_struct x = ''struct CompostSlice'' @ fst (snd x)"

text \<open>The functions that one instance of the slice template declares, in its order.\<close>

definition slice_functions :: "string \<times> string \<times> string \<Rightarrow> string list" where
  "slice_functions x =
     map (\<lambda>op. ''compost_slice_'' @ fst x @ ''_'' @ op) [''new'', ''get'', ''set'', ''copy_from'', ''copy_to'', ''ncopy_to'', ''copy'']"

text \<open>
  Each generic macro selects, for the slice type of every instance of the template, the function of this
  instance for the operation of the macro, which the instance declares; and it has no other associations.
\<close>

lemma generic_macros_dispatch:
  "list_all (\<lambda>(op, table). length table = length slice_types \<and>
       list_all (\<lambda>x. map_of table (c_slice_struct x) = Some (''compost_slice_'' @ fst x @ ''_'' @ op) \<and>
         List.member (slice_functions x) (''compost_slice_'' @ fst x @ ''_'' @ op)) slice_types)
     [(''get'', generic_get), (''set'', generic_set), (''copy'', generic_copy), (''copy_to'', generic_copy_to),
      (''ncopy_to'', generic_ncopy_to), (''copy_from'', generic_copy_from)]"
  by code_simp

end
