(* ===== verification/HeaderTemplate.thy ===== *)
theory HeaderTemplate
  imports Template
begin

text \<open>
  The three texts of \<^verbatim>\<open>lib/c/header_template.py\<close>, line by line, and their reading as fixed text and holes.
\<close>

section \<open>Lines\<close>

definition newline :: string where
  "newline = ''\<newline>''"

definition backslash :: string where
  "backslash = [CHR 0x5C]"

definition unlines :: "string list \<Rightarrow> string" where
  "unlines ls = concat (map (\<lambda>l. l @ newline) ls)"

text \<open>A line is cut at its dollar signs; a hole starts behind the opening brace and ends with the closing one.\<close>

function (sequential) cut :: "bool \<Rightarrow> string \<Rightarrow> string \<Rightarrow> seg list" where
  "cut False acc [] = [Lit (rev acc)]"
| "cut False acc (c # cs) = (if c = CHR ''$'' then Lit (rev acc) # cut True [] (tl cs) else cut False (c # acc) cs)"
| "cut True acc [] = [Hole (rev acc)]"
| "cut True acc (c # cs) = (if c = CHR ''}'' then Hole (rev acc) # cut False [] cs else cut True (c # acc) cs)"
  by pat_completeness auto
termination
  by (relation "measure (\<lambda>(_, _, s). length s)") auto

definition line_segs :: "string \<Rightarrow> seg list" where
  "line_segs l = cut False [] l"

definition segs_of :: "string list \<Rightarrow> seg list" where
  "segs_of ls = concat (map (\<lambda>l. line_segs l @ [Lit newline]) ls)"

definition hole_in :: "string list \<Rightarrow> seg \<Rightarrow> bool" where
  "hole_in names s = (case s of Lit _ \<Rightarrow> True | Hole n \<Rightarrow> List.member names n)"

text \<open>The reading is right: it has the text of the line, no dollar sign outside of a hole, and holes of the given names.\<close>

definition reads :: "string list \<Rightarrow> string \<Rightarrow> seg list \<Rightarrow> bool" where
  "reads names l ss \<longleftrightarrow> render ss = l \<and> list_all seg_ok ss \<and> list_all (hole_in names) ss"

definition line_ok :: "string list \<Rightarrow> string \<Rightarrow> bool" where
  "line_ok names l \<longleftrightarrow> reads names l (line_segs l)"

text \<open>Most lines have no dollar sign.\<close>

fun plain :: "string \<Rightarrow> bool" where
  "plain [] = True"
| "plain (c # cs) = (if c = CHR ''$'' then False else plain cs)"

definition checked :: "string list \<Rightarrow> string \<Rightarrow> bool" where
  "checked names l = (if plain l then True else line_ok names l)"

lemma cut_plain: "plain l \<Longrightarrow> cut False acc l = [Lit (rev acc @ l)] \<and> CHR ''$'' \<notin> set l"
  by (induction l arbitrary: acc) (auto split: if_splits)

lemma plain_line: "plain l \<Longrightarrow> line_ok names l"
  by (simp add: line_ok_def line_segs_def reads_def cut_plain render_def hole_in_def)

lemma checked_line: "checked names l \<Longrightarrow> line_ok names l"
  by (auto simp: checked_def plain_line split: if_splits)

lemma lines_ok:
  assumes "list_all (checked names) ls"
  shows "render (segs_of ls) = unlines ls" and "list_all seg_ok (segs_of ls)" and "Hole n \<in> set (segs_of ls) \<Longrightarrow> n \<in> set names"
proof -
  have ok: "list_all (line_ok names) ls" using assms checked_line by (auto simp: list.pred_set)
  have nl: "CHR ''$'' \<notin> set newline" by code_simp
  show "render (segs_of ls) = unlines ls"
    using ok by (induction ls) (simp_all add: segs_of_def unlines_def render_def line_ok_def reads_def)
  show "list_all seg_ok (segs_of ls)"
    using ok nl by (induction ls) (simp_all add: segs_of_def line_ok_def reads_def)
  show "Hole n \<in> set (segs_of ls) \<Longrightarrow> n \<in> set names"
    using ok by (induction ls) (auto simp: segs_of_def line_ok_def reads_def list.pred_set hole_in_def List.member_iff)
qed

section \<open>The texts\<close>

definition header_template_head :: "string list" where
  "header_template_head =
    [''#ifndef ${filename_caps}_H'',
     ''#define ${filename_caps}_H'',
     [],
     ''/** @file'',
     '' * Compost C header file'',
     '' */'',
     [],
     ''#include <stdint.h>'',
     ''#include <stdbool.h>'',
     ''#include <stddef.h>'',
     ''#include <string.h>'',
     [],
     ''${version_info}'',
     ''#define COMPOST_UUID_HI ${uuid_hi}'',
     ''#define COMPOST_UUID_LO ${uuid_lo}'',
     [],
     ''#define COMPOST_ERR      -1  ///< Generic error'',
     ''#define COMPOST_EINVAL   -22 ///< Invalid argument'',
     ''#define COMPOST_EMSGSIZE -90 ///< Message too long'',
     ''#define COMPOST_EFLAGS   -91 ///< Reserved flags set'',
     ''#define COMPOST_ETXN     -92 ///< Unexcepted transaction value'',
     [],
     ''/// Length of the message header in bytes'',
     ''#define COMPOST_HEADER_LEN 4'',
     [],
     ''/**'',
     '' * @brief Calculates the length of the entire message in bytes from the first byte of the header'',
     '' * @param msg Pointer to the message'',
     '' */'',
     ''#define COMPOST_MSG_LEN(msg) (4 + (4 * (((uint8_t *)msg)[0])))'',
     [],
     ''/**'',
     '' * @brief Calculates the length of the payload in bytes from the first byte of the header'',
     '' * @param msg Pointer to the message'',
     '' */'',
     ''#define COMPOST_PAYLOAD_LEN(msg) (4 * (((uint8_t *)msg)[0]))'',
     [],
     ''struct CompostHeader {'',
     ''    uint8_t wlen;    ///< Word length of the payload (payload length in bytes is wlen * 4)'',
     ''    uint8_t txn;     ///< Transaction identifier'',
     ''    uint16_t rpc_id; ///< RPC identifier'',
     ''    bool resp;       ///< Response flag'',
     ''};'',
     [],
     ''struct CompostMsg {'',
     ''    struct CompostHeader header;'',
     ''    const size_t payload_buf_size;'',
     ''    uint8_t *payload_buf;'',
     ''};'',
     [],
     ''// forward declare compost_alloc to allow usage in compost_slice_xx_new function'',
     ''struct CompostAlloc;'',
     [],
     ''/******************************************************************************/'',
     ''/*                            S L I C E S                                     */'',
     ''/******************************************************************************/'']"

definition slice_template :: "string list" where
  "slice_template =
    [[],
     ''struct CompostSlice${struct_suffix} {'',
     ''    /** Pointer to first element. */'',
     ''    uint8_t *ptr;'',
     ''    /** Length in number of elements (not bytes). */'',
     ''    uint16_t len;'',
     ''};'',
     [],
     ''/**'',
     '' * @brief Initializes CompostSlice${struct_suffix} for storing the ${type} array from allocator'',
     '' * @param alloc Pointer to the allocator'',
     '' * @param len Initial length of the data (in slice elements)'',
     '' */'',
     ''struct CompostSlice${struct_suffix} compost_slice_${fn_suffix}_new(struct CompostAlloc *alloc, uint16_t len);'',
     [],
     ''/**'',
     '' * @brief Gets the ${type} element from the specified index.'',
     '' * @param target Target CompostSlice${struct_suffix}'',
     '' * @param idx Index of the element'',
     '' */'',
     ''${type} compost_slice_${fn_suffix}_get(struct CompostSlice${struct_suffix} target, uint16_t idx);'',
     [],
     ''/**'',
     '' * @brief Stores the ${type} value to the specified index of the slice.'',
     '' * @param target Target CompostSlice${struct_suffix}'',
     '' * @param idx Index of the element'',
     '' * @param value Value to store'',
     '' */'',
     ''void compost_slice_${fn_suffix}_set(struct CompostSlice${struct_suffix} target, uint16_t idx, ${type} value);'',
     [],
     ''/**'',
     '' * @brief Copies the native ${type} array to the CompostSlice${struct_suffix}.'',
     '' * If the length of the slice is lower than the length of the'',
     '' * array, copied data will be truncated.'',
     '' * @param dest Destination slice'',
     '' * @param src Pointer to the source array'',
     '' * @param len Number of elements to copy'',
     '' * @return Number of elements copied'',
     '' */'',
     ''uint16_t compost_slice_${fn_suffix}_copy_from(struct CompostSlice${struct_suffix} dest, ${type} *src, uint16_t len);'',
     [],
     ''/**'',
     '' * @brief Copies the entire CompostSlice${struct_suffix} to native ${type} array.'',
     '' * @param src Source {struct_suffix} slice'',
     '' * @param dest Pointer to the destination array'',
     '' */'',
     ''void compost_slice_${fn_suffix}_copy_to(struct CompostSlice${struct_suffix} src, ${type} *dest);'',
     [],
     ''/**'',
     '' * @brief Copies the specified number of elements from the slice to native ${type} array.'',
     '' * @param src Source CompostSlice${struct_suffix}'',
     '' * @param dest Pointer to the destination array'',
     '' * @param len Number of elements to copy'',
     '' * @return Number of elements to copied'',
     '' */'',
     ''uint16_t compost_slice_${fn_suffix}_ncopy_to(struct CompostSlice${struct_suffix} src, ${type} *dest, uint16_t len);'',
     [],
     ''/**'',
     '' * @brief Copies the entire slice to another slice.'',
     '' * @param dest Destination CompostSlice${struct_suffix}'',
     '' * @param src Source CompostSlice${struct_suffix}'',
     '' * @return Slice of the destination memory containing copied data'',
     '' */'',
     ''struct CompostSlice${struct_suffix} compost_slice_${fn_suffix}_copy(struct CompostSlice${struct_suffix} dest, struct CompostSlice${struct_suffix} src);'']"

definition header_template_tail :: "string list" where
  "header_template_tail =
    [[],
     [],
     ''/**'',
     ''  @brief Gets the element from the specified index'',
     ''  @param target Target slice'',
     ''  @param idx Index of the element'',
     ''*/'',
     ''#define compost_slice_get(target, index)                 '' @ backslash,
     ''    _Generic((target),                                   '' @ backslash,
     ''        struct CompostSliceU8: compost_slice_u8_get,   '' @ backslash,
     ''        struct CompostSliceU16: compost_slice_u16_get, '' @ backslash,
     ''        struct CompostSliceU32: compost_slice_u32_get, '' @ backslash,
     ''        struct CompostSliceU64: compost_slice_u64_get, '' @ backslash,
     ''        struct CompostSliceI8: compost_slice_i8_get,   '' @ backslash,
     ''        struct CompostSliceI16: compost_slice_i16_get, '' @ backslash,
     ''        struct CompostSliceI32: compost_slice_i32_get, '' @ backslash,
     ''        struct CompostSliceI64: compost_slice_i64_get, '' @ backslash,
     ''        struct CompostSliceF32: compost_slice_f32_get, '' @ backslash,
     ''        struct CompostSliceF64: compost_slice_f64_get)(target, index)'',
     [],
     ''/**'',
     ''  @brief Sets value of the element at the specified index'',
     ''  @param target Target slice'',
     ''  @param idx Index of the element'',
     ''  @param value New value'',
     ''*/'',
     ''#define compost_slice_set(target, idx, value)            '' @ backslash,
     ''    _Generic((target),                                   '' @ backslash,
     ''        struct CompostSliceU8: compost_slice_u8_set,   '' @ backslash,
     ''        struct CompostSliceU16: compost_slice_u16_set, '' @ backslash,
     ''        struct CompostSliceU32: compost_slice_u32_set, '' @ backslash,
     ''        struct CompostSliceU64: compost_slice_u64_set, '' @ backslash,
     ''        struct CompostSliceI8: compost_slice_i8_set,   '' @ backslash,
     ''        struct CompostSliceI16: compost_slice_i16_set, '' @ backslash,
     ''        struct CompostSliceI32: compost_slice_i32_set, '' @ backslash,
     ''        struct CompostSliceI64: compost_slice_i64_set, '' @ backslash,
     ''        struct CompostSliceF32: compost_slice_f32_set, '' @ backslash,
     ''        struct CompostSliceF64: compost_slice_f64_set)(target, idx, value)'',
     [],
     ''/**'',
     ''    @brief Copies the entire slice to another slice.'',
     ''    @param dest Destination slice'',
     ''    @param src Source slice'',
     ''    @return Slice of the destination memory containing copied data'',
     ''*/'',
     ''#define compost_slice_copy(dest, src)                     '' @ backslash,
     ''    _Generic((dest),                                      '' @ backslash,
     ''        struct CompostSliceU8: compost_slice_u8_copy,   '' @ backslash,
     ''        struct CompostSliceU16: compost_slice_u16_copy, '' @ backslash,
     ''        struct CompostSliceU32: compost_slice_u32_copy, '' @ backslash,
     ''        struct CompostSliceU64: compost_slice_u64_copy, '' @ backslash,
     ''        struct CompostSliceI8: compost_slice_i8_copy,   '' @ backslash,
     ''        struct CompostSliceI16: compost_slice_i16_copy, '' @ backslash,
     ''        struct CompostSliceI32: compost_slice_i32_copy, '' @ backslash,
     ''        struct CompostSliceI64: compost_slice_i64_copy, '' @ backslash,
     ''        struct CompostSliceF32: compost_slice_f32_copy, '' @ backslash,
     ''        struct CompostSliceF64: compost_slice_f64_copy)(dest, src)'',
     [],
     ''/**'',
     ''    @brief Copies the entire slice to native array.'',
     ''    @param src Source slice'',
     ''    @param dest Pointer to the destination array'',
     ''    @return Number of elements copied'',
     ''*/'',
     ''#define compost_slice_copy_to(src, dest)                     '' @ backslash,
     ''    _Generic((src),                                          '' @ backslash,
     ''        struct CompostSliceU8: compost_slice_u8_copy_to,   '' @ backslash,
     ''        struct CompostSliceU16: compost_slice_u16_copy_to, '' @ backslash,
     ''        struct CompostSliceU32: compost_slice_u32_copy_to, '' @ backslash,
     ''        struct CompostSliceU64: compost_slice_u64_copy_to, '' @ backslash,
     ''        struct CompostSliceI8: compost_slice_i8_copy_to,   '' @ backslash,
     ''        struct CompostSliceI16: compost_slice_i16_copy_to, '' @ backslash,
     ''        struct CompostSliceI32: compost_slice_i32_copy_to, '' @ backslash,
     ''        struct CompostSliceI64: compost_slice_i64_copy_to, '' @ backslash,
     ''        struct CompostSliceF32: compost_slice_f32_copy_to, '' @ backslash,
     ''        struct CompostSliceF64: compost_slice_f64_copy_to)(src, dest)'',
     [],
     ''/**'',
     ''    @brief Copies the specified number of elements from the slice to native array.'',
     ''    @param src Source slice'',
     ''    @param dest Pointer to the destination array'',
     ''    @param len Number of elements to copy'',
     ''    @return Number of elements copied'',
     ''*/'',
     ''#define compost_slice_ncopy_to(src, dest, len)                '' @ backslash,
     ''    _Generic((src),                                           '' @ backslash,
     ''        struct CompostSliceU8: compost_slice_u8_ncopy_to,   '' @ backslash,
     ''        struct CompostSliceU16: compost_slice_u16_ncopy_to, '' @ backslash,
     ''        struct CompostSliceU32: compost_slice_u32_ncopy_to, '' @ backslash,
     ''        struct CompostSliceU64: compost_slice_u64_ncopy_to, '' @ backslash,
     ''        struct CompostSliceI8: compost_slice_i8_ncopy_to,   '' @ backslash,
     ''        struct CompostSliceI16: compost_slice_i16_ncopy_to, '' @ backslash,
     ''        struct CompostSliceI32: compost_slice_i32_ncopy_to, '' @ backslash,
     ''        struct CompostSliceI64: compost_slice_i64_ncopy_to, '' @ backslash,
     ''        struct CompostSliceF32: compost_slice_f32_ncopy_to, '' @ backslash,
     ''        struct CompostSliceF64: compost_slice_f64_ncopy_to)(src, dest, len)'',
     [],
     ''/**'',
     ''  @brief Copies the native array to the slice.'',
     [],
     ''  If the length of the slice is lower than the length of the'',
     ''  array, copied data will be truncated.'',
     ''  @param dest Destination slice'',
     ''  @param src Pointer to the source array'',
     ''  @param len Number of elements to copy'',
     ''  @return Number of elements copied'',
     '' */'',
     ''#define compost_slice_copy_from(dest, src, len)                '' @ backslash,
     ''    _Generic((dest),                                           '' @ backslash,
     ''        struct CompostSliceU8: compost_slice_u8_copy_from,   '' @ backslash,
     ''        struct CompostSliceU16: compost_slice_u16_copy_from, '' @ backslash,
     ''        struct CompostSliceU32: compost_slice_u32_copy_from, '' @ backslash,
     ''        struct CompostSliceU64: compost_slice_u64_copy_from, '' @ backslash,
     ''        struct CompostSliceI8: compost_slice_i8_copy_from,   '' @ backslash,
     ''        struct CompostSliceI16: compost_slice_i16_copy_from, '' @ backslash,
     ''        struct CompostSliceI32: compost_slice_i32_copy_from, '' @ backslash,
     ''        struct CompostSliceI64: compost_slice_i64_copy_from, '' @ backslash,
     ''        struct CompostSliceF32: compost_slice_f32_copy_from, '' @ backslash,
     ''        struct CompostSliceF64: compost_slice_f64_copy_from)(dest, src, len)'',
     [],
     ''struct CompostAlloc {'',
     ''    uint8_t *ptr;'',
     ''    uint16_t *suffixes;'',
     ''    struct CompostSliceU8 buffer;'',
     ''    uint16_t suffixes_len;'',
     ''    uint16_t alloc_ctr;'',
     ''};'',
     [],
     ''/**'',
     '' * @brief Processes incoming Compost message and prepares the response.'',
     '' * Call this function for every Compost message you receive.'',
     '' * @param tx_buf Pointer to the transmit buffer where to put an outgoing message'',
     '' * @param tx_buf_size Transmit buffer size in bytes'',
     '' * @param rx_buf Pointer to the buffer with incoming message'',
     '' * @param rx_buf_size Receive buffer valid data size in bytes'',
     '' * @return Size of valid data in bytes in the transmit buffer, or zero if there'',
     '' * is no message to send, or negative value if there was an error'',
     '' */'',
     ''int compost_msg_process(uint8_t *tx_buf, const size_t tx_buf_size, uint8_t *const rx_buf, const size_t rx_buf_size);'',
     [],
     ''/**'',
     '' * @brief Loads the message header from the buffer.'',
     '' * @param buf Pointer to the buffer containing the header'',
     '' * @param header Pointer to the CompostHeader struct where to store the header data'',
     '' * @return Zero on success, or negative value if there was an error (e.g. invalid header)'',
     '' */'',
     ''int compost_header_load(uint8_t *buf, struct CompostHeader *header);'',
     [],
     ''/**'',
     '' * @brief Stores the message header to the buffer.'',
     '' * @param buf Pointer to the buffer where to store the header'',
     '' * @param header Pointer to the CompostHeader struct containing the header data'',
     '' * @return Zero on success, or negative value if there was an error (e.g. insufficient buffer size)'',
     '' */'',
     ''int compost_header_store(uint8_t *buf, const struct CompostHeader header);'',
     [],
     ''/**'',
     '' * @brief Initializes an allocator.'',
     '' * @param buffer Pointer to buffer used for allocation'',
     '' * @param len Length of the buffer'',
     '' */'',
     ''struct CompostAlloc compost_alloc_init(uint8_t *buffer, uint16_t len);'',
     [],
     ''/**'',
     '' * @brief Sets the suffix array and allocation limit.'',
     '' *'',
     '' * Each element in suffixes represents the number of bytes which will be added to each subsequent'',
     '' * allocation, up to the length of the array.'',
     '' * @param alloc Pointer to allocator'',
     '' * @param suffixes Pointer to array of suffixes'',
     '' * @param len Number of suffixes / allocation limit'',
     '' */'',
     [],
     ''void compost_alloc_set_suffixes(struct CompostAlloc *alloc, uint16_t *suffixes, uint16_t len);'',
     [],
     ''/**'',
     '' * @brief Resets the allocator to the beginning of buffer.'',
     '' * @param alloc Pointer to allocator'',
     '' */'',
     ''void compost_alloc_reset(struct CompostAlloc *alloc);'',
     [],
     ''/**'',
     '' * @brief Allocates selected amount of bytes.'',
     '' * @param alloc Pointer to allocator'',
     '' * @param len Number of bytes'',
     '' */'',
     ''void *compost_alloc_next(struct CompostAlloc *alloc, uint16_t len);'',
     [],
     ''/**'',
     '' * @brief Allocates new compost_slice from C string.'',
     '' * @param alloc Pointer to allocator'',
     '' * @param cstr Null-terminated C string'',
     '' */'',
     ''struct CompostSliceU8 compost_str_new(struct CompostAlloc *alloc, const char *cstr);'',
     [],
     ''/**'',
     '' * @brief Copies C string into compost_slice.'',
     '' * In case the string is shorter than space in slice, the remaining bytes are set to zero.'',
     '' * If the C string is longer, it will be truncated.'',
     '' * @param dest Destination CompostSliceU8'',
     '' * @param src Source null-terminated C string'',
     '' */'',
     ''void compost_str_copy(struct CompostSliceU8 dest, const char *src);'',
     [],
     ''/**'',
     '' * @brief Registers a custom assert function'',
     '' *'',
     '' * @param assert_func Function pointer to the custom assert function or NULL to reset to default'',
     '' */'',
     ''void compost_set_assert_func(void ('' @ ''*assert_func)(uint32_t));'',
     ''${protocol}'',
     ''#endif /* COMPOST_H */'']"

section \<open>Their holes\<close>

lemma header_template_head_ok:
  "list_all (checked [''filename_caps'', ''version_info'', ''uuid_hi'', ''uuid_lo'']) header_template_head"
  by code_simp

lemma slice_template_ok: "list_all (checked [''fn_suffix'', ''struct_suffix'', ''type'']) slice_template"
  by code_simp

lemma header_template_tail_ok: "list_all (checked [''protocol'']) header_template_tail"
  by code_simp

end
