(* ===== verification/CSource.thy ===== *)
theory CSource
  imports CNotify HeaderTemplate
begin

text \<open>
  The two files that the code generator for C produces, as text: declarations and initialisers of the user types,
  the functions for notifications and procedures, and the switch.  They are
  substituted into the contents of the two template modules; these contents, the UUID and the time of a call, and the
  documentation strings of the procedures are parameters.
\<close>

section \<open>Initialisers\<close>

definition join :: "string \<Rightarrow> string list \<Rightarrow> string" where
  "join sep xs = (case xs of [] \<Rightarrow> [] | y # ys \<Rightarrow> y @ concat (map (\<lambda>z. sep @ z) ys))"

text \<open>The attributes of a \<^verbatim>\<open>CCodeGenerator\<close> that collect text, and its dictionary of store and load functions.\<close>

record c_generator =
  g_enums :: string
  g_structs :: string
  static_vars :: string
  type_inits :: string
  type_inits_proto :: string
  type_serdes :: "cfun list"

definition CCodeGenerator_init :: c_generator where
  "CCodeGenerator_init =
     \<lparr>g_enums = [], g_structs = [], static_vars = [], type_inits = [], type_inits_proto = [], type_serdes = []\<rparr>"

definition alloc_init_sig :: "string \<Rightarrow> string" where
  "alloc_init_sig n = ''struct CompostAlloc '' @ n @ ''_alloc_init(uint8_t *tx_buf, uint16_t tx_buf_len)''"

definition alloc_init_text :: "string \<Rightarrow> members \<Rightarrow> string" where
  "alloc_init_text n ms =
     ''\<newline>'' @ alloc_init_sig n @ ''\<newline>{\<newline>    struct CompostAlloc alloc = compost_alloc_init(tx_buf + 4 + '' @
     dec_digits (mu_bytes (hd (layout_of ms))) @ '', tx_buf_len);\<newline>    compost_alloc_set_suffixes(&alloc, '' @ n @
     ''_alloc_suffixes, '' @ dec_digits (length (tl (layout_of ms))) @ '');\<newline>    return alloc;\<newline>}\<newline>''"

definition suffixes_text :: "string \<Rightarrow> members \<Rightarrow> string" where
  "suffixes_text n ms =
     (let sfx = map mu_bytes (tl (layout_of ms)) in
      ''static uint16_t '' @ n @ ''_alloc_suffixes['' @ dec_digits (length sfx) @ ''] = {'' @
      comma (map dec_digits sfx) @ ''};\<newline>'')"

definition init_args :: "string \<Rightarrow> members \<Rightarrow> string list" where
  "init_args n ms =
     (if dynamic_members ms \<noteq> [] then [''struct CompostAlloc *alloc''] else []) @
     map (\<lambda>x. ''uint16_t '' @ x @ ''_len'') (dynamic_member_names (TStruct n ms))"

definition init_sig :: "string \<Rightarrow> members \<Rightarrow> string" where
  "init_sig n ms = n @ ''_init('' @ (if init_args n ms = [] then ''void'' else comma (init_args n ms)) @ '')''"

definition define_init :: "string \<Rightarrow> members \<Rightarrow> c_generator \<Rightarrow> c_generator res" where
  "define_init n ms g =
     (let g = (if dynamic_members ms \<noteq> []
               then g\<lparr>type_inits_proto := type_inits_proto g @ alloc_init_sig n @ '';\<newline>'',
                       static_vars := static_vars g @ suffixes_text n ms,
                       type_inits := type_inits g @ alloc_init_text n ms\<rparr>
               else g);
          g = g\<lparr>type_inits_proto := type_inits_proto g @ ''struct '' @ n @ '' '' @ init_sig n ms @ '';\<newline>\<newline>''\<rparr>
      in rbind (rmap (\<lambda>m. rbind (member_default_value (TStruct n ms) m) (\<lambda>v. Inr (''.'' @ fst m @ '' = '' @ v))) ms) (\<lambda>inits.
         Inr (g\<lparr>type_inits := type_inits g @ ''\<newline>struct '' @ n @ '' '' @ init_sig n ms @ ''\<newline>{\<newline>    return (struct '' @ n @
           ''){\<newline>        '' @ join '',\<newline>        '' inits @ ''\<newline>    };\<newline>}\<newline>''\<rparr>)))"

section \<open>Declarations\<close>

text \<open>\<^verbatim>\<open>_define_types\<close>: \<open>ts\<close> are the decorated classes of the program, which all protocols share.\<close>

fun define_types :: "ctype list \<Rightarrow> c_generator \<Rightarrow> c_generator res" where
  "define_types [] g = Inr g"
| "define_types (TStruct n ms # ts) g =
     rbind (struct_text n ms) (\<lambda>txt.
     rbind (define_init n ms (g\<lparr>g_structs := g_structs g @ txt\<rparr>)) (define_types ts))"
| "define_types (TEnum n b vs # ts) g = define_types ts (g\<lparr>g_enums := g_enums g @ enum_text n vs\<rparr>)"
| "define_types (_ # ts) g = define_types ts g"

section \<open>The functions of the protocol\<close>

definition hex_digit :: "nat \<Rightarrow> char" where
  "hex_digit n = (if n < 10 then char_of (48 + n) else char_of (55 + n))"

fun hex_digits :: "nat \<Rightarrow> string" where
  "hex_digits n = (if n < 16 then [hex_digit n] else hex_digits (n div 16) @ [hex_digit (n mod 16)])"

declare hex_digits.simps [simp del]

definition hex3 :: "nat \<Rightarrow> string" where
  "hex3 n = (let h = hex_digits n in replicate (3 - length h) (CHR ''0'') @ h)"

definition rpc_id_enum_text :: "rpc list \<Rightarrow> string" where
  "rpc_id_enum_text rs =
     ''\<newline>enum RpcId {\<newline>    UNKNOWN_MSG = 0xFEE,\<newline>'' @
     join '',\<newline>'' (map (\<lambda>r. ''    '' @ upper (name_of r) @ '' = 0x'' @ hex3 (nat (id_of r))) rs) @ ''\<newline>};\<newline>''"

definition invoke_text :: "rpc \<Rightarrow> invoke_body \<Rightarrow> string" where
  "invoke_text r b =
     ''\<newline>/**\<newline> * '' @ (if is_notification r then ''Deserialization'' else ''Deserialization/Serialization'') @
     '' function for '' @ name_of r @ '' function\<newline> */\<newline>void '' @ invoke_fn_name r @ ''('' @
     comma (''struct CompostMsg *tx'' # (if get_param_items r \<noteq> [] then [''const struct CompostMsg rx''] else [])) @
     '')\<newline>{\<newline>'' @ str (add_lines (String_new [] 1) (invoke_lines r b)) @ ''}\<newline>''"

definition doc_text :: "string \<Rightarrow> string" where
  "doc_text doc = ''\<newline>/**\<newline> * '' @ doc @ ''\<newline> */\<newline>''"

definition switch_text :: "endpoint \<Rightarrow> rpc list \<Rightarrow> string" where
  "switch_text e rs =
     ''\<newline>void compost_unknown_msg(struct CompostMsg *tx)\<newline>{\<newline>    tx->header.rpc_id = UNKNOWN_MSG;\<newline>'' @
     ''    tx->header.wlen = 0;\<newline>}\<newline>\<newline>void compost_invoke_switch(struct CompostMsg *tx, const struct CompostMsg rx)\<newline>'' @
     ''{\<newline>    switch (rx.header.rpc_id) {\<newline>'' @
     concat (map (\<lambda>l. l @ ''\<newline>'') (switch_lines e rs)) @ ''    }\<newline>}\<newline>''"

text \<open>The text of a function in the dictionary, whose key ends in the name of the helper.\<close>

definition cfun_text :: "cfun \<Rightarrow> string" where
  "cfun_text f =
     (case f of (fn, ss) \<Rightarrow>
        if endswith fn ''_store'' then fn_text Store (take (length fn - 6) fn) ss
        else fn_text Load (take (length fn - 5) fn) ss)"

section \<open>The files\<close>

record c_settings =
  filename :: string
  path_header :: string
  path_source :: string
  templates :: "(string \<times> string) option"

text \<open>What a call draws from its environment: the hexadecimal digits of a UUID and the time.\<close>

record gen_info =
  uuid_hex :: string
  gentime :: string

definition version :: string where
  "version = ''0.7.1''"

definition version_info :: "gen_info \<Rightarrow> string" where
  "version_info i =
     ''#define COMPOST_VERSION \"'' @ version @ ''\"\<newline>#define COMPOST_GENTIME \"'' @ gentime i @ ''\"''"

definition uuid_env :: "gen_info \<Rightarrow> (string \<times> string) list" where
  "uuid_env i =
     [(''uuid_hi'', ''0x'' @ take 16 (upper (uuid_hex i)) @ ''ull''), (''uuid_lo'', ''0x'' @ drop 16 (upper (uuid_hex i)) @ ''ull'')]"

definition header_env :: "c_settings \<Rightarrow> gen_info \<Rightarrow> string \<Rightarrow> (string \<times> string) list" where
  "header_env cfg i protocol =
     uuid_env i @ [(''version_info'', version_info i), (''filename_caps'', upper (filename cfg)), (''protocol'', protocol)]"

definition source_env :: "c_settings \<Rightarrow> gen_info \<Rightarrow> string \<Rightarrow> (string \<times> string) list" where
  "source_env cfg i serdes = uuid_env i @ [(''filename'', filename cfg), (''serdes'', serdes)]"

definition GENERATION_NOTE :: string where
  "GENERATION_NOTE =
     ''\<newline>/******************************************************************************/'' @
     ''\<newline>/*                     G E N E R A T E D   P R O T O C O L                    */'' @
     ''\<newline>/******************************************************************************/''"

definition protocol_header :: "(rpc \<Rightarrow> string) \<Rightarrow> endpoint \<Rightarrow> rpc list \<Rightarrow> c_generator \<Rightarrow> (rpc \<times> notif_body) list \<Rightarrow>
    (string \<times> invoke_body) list \<Rightarrow> string" where
  "protocol_header doc e rs g ns is =
     ''\<newline>\<newline>'' @ GENERATION_NOTE @ ''\<newline>\<newline>'' @ g_enums g @ ''\<newline>'' @ g_structs g @ ''\<newline>\<newline>'' @ type_inits_proto g @ ''\<newline>\<newline>'' @
     concat (map (\<lambda>(r, b). doc_text (doc r) @ notif_prototype r b @ '';\<newline>'') ns) @
     concat (map (\<lambda>(r, n, b). doc_text (doc r) @ prototype b @ ''\<newline>'') (zip (filter (is_call_inbound e) rs) is))"

definition protocol_source :: "endpoint \<Rightarrow> rpc list \<Rightarrow> c_generator \<Rightarrow> (rpc \<times> notif_body) list \<Rightarrow> (string \<times> invoke_body) list \<Rightarrow> string" where
  "protocol_source e rs g ns is =
     GENERATION_NOTE @ ''\<newline>'' @ rpc_id_enum_text rs @ ''\<newline>\<newline>'' @ static_vars g @ ''\<newline>\<newline>'' @ type_inits g @ ''\<newline>'' @
     concat (map (\<lambda>(r, b). notif_store_text r b) ns) @
     concat (map (\<lambda>(r, n, b). invoke_text r b) (zip (filter (is_call_inbound e) rs) is)) @
     switch_text e rs @ ''\<newline>\<newline>''"

text \<open>
  \<^verbatim>\<open>generate\<close>: the files, and the generator afterwards.  The texts and the dictionary of an earlier call are
  still there.
\<close>

definition c_generate :: "c_settings \<Rightarrow> gen_info \<Rightarrow> (rpc \<Rightarrow> string) \<Rightarrow> ctype list \<Rightarrow> rpc list \<Rightarrow> endpoint \<Rightarrow> c_generator \<Rightarrow>
    ((string \<times> string) list \<times> c_generator) res" where
  "c_generate cfg info doc user_types rs e g =
     rbind (validate_endpoint CCodeGenerator_features e rs) (\<lambda>_.
     rbind (define_types user_types g) (\<lambda>g.
     rbind (notif_fns e rs (type_serdes g)) (\<lambda>ns.
     rbind (invoke_fns e rs (snd ns)) (\<lambda>is.
     let g = g\<lparr>type_serdes := snd is\<rparr>;
         header = protocol_header doc e rs g (fst ns) (fst is);
         source = protocol_source e rs g (fst ns) (fst is)
     in case templates cfg of
          None \<Rightarrow> Inr ([], g)
        | Some (header_template, source_template) \<Rightarrow>
            rbind (substitute header_template (header_env cfg info header)) (\<lambda>h.
            rbind (substitute source_template (source_env cfg info (concat (map cfun_text (type_serdes g))))) (\<lambda>c.
            Inr ([(path_header cfg @ ''/'' @ filename cfg @ ''.h'', h),
                  (path_source cfg @ ''/'' @ filename cfg @ ''.c'', c @ source)], g)))))))"

section \<open>The generator succeeds\<close>

lemma rmap_total: "(\<And>x. x \<in> set xs \<Longrightarrow> \<exists>y. f x = Inr y) \<Longrightarrow> \<exists>ys. rmap f xs = Inr ys"
proof (induction xs)
  case (Cons x xs)
  obtain y where "f x = Inr y" using Cons.prems by auto
  moreover obtain ys where "rmap f xs = Inr ys" using Cons by auto
  ultimately show ?case by simp
qed simp

text \<open>A class that can be declared: its members are supported, and an enumeration among them has a member.\<close>

fun declarable :: "ctype \<Rightarrow> bool" where
  "declarable (TStruct n ms) =
     list_all (\<lambda>(n, t). (bitu_width t \<noteq> None \<or> c_supported t) \<and> (case t of TEnum _ _ vs \<Rightarrow> vs \<noteq> [] | _ \<Rightarrow> True)) ms"
| "declarable _ = True"

lemma member_decls_total: "list_all (\<lambda>(n, t). bitu_width t \<noteq> None \<or> c_supported t) ms \<Longrightarrow> \<exists>ds. member_decls ms = Inr ds"
proof (induction ms)
  case (Cons m ms)
  obtain n t where m: "m = (n, t)" by fastforce
  obtain ct where "c_type t = Inr ct" using Cons.prems m c_type_total [of t] by auto
  moreover obtain ds where "member_decls ms = Inr ds" using Cons by auto
  ultimately show ?case by (simp add: m)
qed simp

lemma member_default_total:
  "bitu_width t \<noteq> None \<or> c_supported t \<Longrightarrow> (case t of TEnum _ _ vs \<Rightarrow> vs \<noteq> [] | _ \<Rightarrow> True) \<Longrightarrow>
   \<exists>v. member_default_value s (n, t) = Inr v"
proof (cases "bitu_width t")
  case None
  assume "bitu_width t \<noteq> None \<or> c_supported t" and e: "case t of TEnum _ _ vs \<Rightarrow> vs \<noteq> [] | _ \<Rightarrow> True"
  with None have "c_supported t" by simp
  then show ?thesis
    using e None by (cases t rule: c_supported.cases) (simp_all add: member_default_value_def Let_def neq_Nil_conv split: list.splits)
qed (simp add: member_default_value_def)

lemma define_init_total:
  assumes "declarable (TStruct n ms)"
  shows "\<exists>g'. define_init n ms g = Inr g' \<and> type_serdes g' = type_serdes g"
proof -
  let ?f = "\<lambda>m. rbind (member_default_value (TStruct n ms) m) (\<lambda>v. Inr (''.'' @ fst m @ '' = '' @ v))"
  have "\<exists>v. ?f m = Inr v" if m: "m \<in> set ms" for m
  proof -
    have "bitu_width (snd m) \<noteq> None \<or> c_supported (snd m)" "case snd m of TEnum _ _ vs \<Rightarrow> vs \<noteq> [] | _ \<Rightarrow> True"
      using assms m by (auto simp: list.pred_set split_def)
    from member_default_total [OF this, of "TStruct n ms" "fst m"] show ?thesis by auto
  qed
  then obtain inits where "rmap ?f ms = Inr inits" using rmap_total [of ms ?f] by blast
  then show ?thesis by (simp add: define_init_def Let_def)
qed

lemma define_types_total: "list_all declarable ts \<Longrightarrow> \<exists>g'. define_types ts g = Inr g' \<and> type_serdes g' = type_serdes g"
proof (induction ts arbitrary: g)
  case (Cons t ts)
  then have d: "declarable t" "list_all declarable ts" by simp_all
  show ?case
  proof (cases "is_compost_struct t")
    case True
    then obtain n ms where t: "t = TStruct n ms" by (cases t) auto
    have "list_all (\<lambda>(n, t). bitu_width t \<noteq> None \<or> c_supported t) ms"
      using d(1) by (auto simp: t list.pred_set)
    then obtain ds where "member_decls ms = Inr ds" using member_decls_total by blast
    then obtain decl where decl: "struct_text n ms = Inr decl" by (simp add: struct_text_def)
    obtain g1 where g1: "define_init n ms (g\<lparr>g_structs := g_structs g @ decl\<rparr>) = Inr g1" "type_serdes g1 = type_serdes g"
      using define_init_total [of n ms "g\<lparr>g_structs := g_structs g @ decl\<rparr>"] d(1) t by auto
    then show ?thesis using Cons.IH [OF d(2), of g1] by (simp add: t decl)
  next
    case False
    have "\<exists>g1. define_types (t # ts) g = define_types ts g1 \<and> type_serdes g1 = type_serdes g"
      using False by (cases t) (auto intro!: exI)
    then show ?thesis using Cons.IH [OF d(2)] by metis
  qed
qed simp

text \<open>A procedure that can be generated: its types are supported, and a notification returns nothing.\<close>

definition rpc_declarable :: "rpc \<Rightarrow> bool" where
  "rpc_declarable r \<longleftrightarrow> list_all (\<lambda>(n, t). c_supported t) (get_param_items r) \<and>
     (case return_annotation (call_sig r) of None \<Rightarrow> True | Some t \<Rightarrow> c_supported t \<and> \<not> is_notification r)"

lemma c_params_total: "list_all (\<lambda>(n, t). c_supported t) ps \<Longrightarrow> \<exists>xs. c_params ps = Inr xs"
  unfolding c_params_def by (rule rmap_total) (use c_type_total in \<open>force simp: list.pred_set\<close>)

lemma store_calls_total: "list_all (\<lambda>(n, t). c_supported t) ps \<Longrightarrow> \<exists>ss d'. store_calls ps d = Inr (ss, d')"
proof (induction ps arbitrary: d)
  case (Cons p ps)
  obtain n t where p: "p = (n, t)" by fastforce
  have c: "c_supported t" using Cons.prems p by simp
  obtain fn d1 where "emit_call Store t d = Inr (fn, d1)" using emit_call_total [OF c] by blast
  moreover have "\<exists>ss d2. store_calls ps d1 = Inr (ss, d2)" using Cons.prems p by (intro Cons.IH) simp
  ultimately show ?case by (auto simp: p)
qed simp

lemma notif_fns_total: "list_all rpc_declarable rs \<Longrightarrow> \<exists>fns d'. notif_fns e rs d = Inr (fns, d')"
proof (induction rs arbitrary: d)
  case (Cons r rs)
  have ps: "list_all (\<lambda>(n, t). c_supported t) (get_param_items r)" using Cons.prems by (simp add: rpc_declarable_def)
  obtain xs where "c_params (get_param_items r) = Inr xs" using c_params_total [OF ps] by blast
  moreover obtain ss d1 where "store_calls (get_param_items r) d = Inr (ss, d1)" using store_calls_total [OF ps] by blast
  ultimately have "notif_code r d = Inr (\<lparr>notif_params = xs, param_stores = ss\<rparr>, d1)" by (simp add: notif_code_def)
  moreover have ih: "\<exists>fns d'. notif_fns e rs d = Inr (fns, d')" for d using Cons by simp
  obtain fns d' where "notif_fns e rs d1 = Inr (fns, d')" using ih by blast
  ultimately show ?case using ih [of d] by simp
qed simp

lemma handler_signature_total:
  assumes "rpc_declarable r" shows "\<exists>h. handler_signature r c = Inr h"
proof -
  obtain xs where "c_params (get_param_items r) = Inr xs"
    using c_params_total assms by (auto simp: rpc_declarable_def)
  moreover have "\<exists>ct. c_type t = Inr ct" if "return_annotation (call_sig r) = Some t" for t
    using c_type_total [of t] assms that by (simp add: rpc_declarable_def)
  ultimately show ?thesis
    using assms by (cases "return_annotation (call_sig r)") (auto simp: handler_signature_def Let_def rpc_declarable_def)
qed

lemma invoke_fns_total: "list_all rpc_declarable rs \<Longrightarrow> \<exists>fns d'. invoke_fns e rs d = Inr (fns, d')"
proof (induction rs arbitrary: d)
  case (Cons r rs)
  have r: "rpc_declarable r" using Cons.prems by simp
  obtain h h' where "handler_signature r True = Inr h" "handler_signature r False = Inr h'"
    using handler_signature_total [OF r] by metis
  moreover obtain ls d1 where "load_calls (get_param_items r) d = Inr (ls, d1)"
    using load_calls_total [of "get_param_items r" d] r by (auto simp: rpc_declarable_def)
  moreover have "\<exists>fn d2. emit_call Store t d1 = Inr (fn, d2)" if "return_annotation (call_sig r) = Some t" for t
    using emit_call_total [of t] r that by (simp add: rpc_declarable_def)
  ultimately obtain b d2 where "invoke_code r d = Inr (b, d2)"
    by (cases "return_annotation (call_sig r)") (auto simp: invoke_code_def)
  moreover have ih: "\<exists>fns d'. invoke_fns e rs d = Inr (fns, d')" for d using Cons by simp
  obtain fns d' where "invoke_fns e rs d2 = Inr (fns, d')" using ih by blast
  ultimately show ?case using ih [of d] by simp
qed simp

lemma c_functions_total:
  assumes "validate_endpoint CCodeGenerator_features e rs = Inr ()" and "list_all rpc_declarable rs"
  shows "\<exists>p. c_functions e rs = Inr p"
proof -
  obtain ns d where "notif_fns e rs [] = Inr (ns, d)" using notif_fns_total [OF assms(2)] by blast
  moreover obtain bodies d' where "invoke_fns e rs d = Inr (bodies, d')" using invoke_fns_total [OF assms(2)] by blast
  ultimately show ?thesis using assms(1) by (simp add: c_functions_def)
qed

section \<open>Properties\<close>

text \<open>Templates in which every hole has one of the names that \<^verbatim>\<open>generate\<close> passes.\<close>

definition templates_ok :: "c_settings \<Rightarrow> bool" where
  "templates_ok cfg \<longleftrightarrow>
     (case templates cfg of
        None \<Rightarrow> False
      | Some (h, c) \<Rightarrow> template_over [''uuid_hi'', ''uuid_lo'', ''version_info'', ''filename_caps'', ''protocol''] h \<and>
          template_over [''uuid_hi'', ''uuid_lo'', ''filename'', ''serdes''] c)"

lemma c_generate_total:
  assumes "validate_endpoint CCodeGenerator_features e rs = Inr ()" and "list_all declarable user_types"
    and "list_all rpc_declarable rs" and "templates_ok cfg"
  shows "\<exists>header source g'. c_generate cfg info doc user_types rs e g =
    Inr ([(path_header cfg @ ''/'' @ filename cfg @ ''.h'', header), (path_source cfg @ ''/'' @ filename cfg @ ''.c'', source)], g')"
proof -
  obtain g1 where "define_types user_types g = Inr g1" using define_types_total [OF assms(2)] by blast
  moreover obtain ns d where "notif_fns e rs (type_serdes g1) = Inr (ns, d)" using notif_fns_total [OF assms(3)] by blast
  moreover obtain bodies d' where "invoke_fns e rs d = Inr (bodies, d')" using invoke_fns_total [OF assms(3)] by blast
  moreover obtain ht st where t: "templates cfg = Some (ht, st)" using assms(4) by (auto simp: templates_ok_def split: option.splits)
  moreover have "\<exists>h. substitute ht (header_env cfg info p) = Inr h" for p
    using assms(4) t by (intro template_over_total) (auto simp: templates_ok_def header_env_def uuid_env_def)
  moreover have "\<exists>c. substitute st (source_env cfg info p) = Inr c" for p
    using assms(4) t by (intro template_over_total) (auto simp: templates_ok_def source_env_def uuid_env_def)
  ultimately show ?thesis using assms(1) by (simp add: c_generate_def Let_def) (metis rbind_simps(2))
qed

text \<open>
  For a header template whose fixed parts have holes for the names that \<^verbatim>\<open>generate\<close> passes, and whose slice part has
  holes for the three names of an element type, the file is the head with its holes filled, the slice interface once for
  each of the ten element types, and the tail with its holes filled: the second substitution changes nothing in the slice
  interfaces, and no error is raised.
\<close>

lemma header_assembled:
  assumes "list_all seg_ok (hs @ ss @ ts)"
    and "\<forall>n. Hole n \<in> set (hs @ ts) \<longrightarrow> n \<in> fst ` set (header_env cfg i protocol)"
    and "\<forall>n. Hole n \<in> set ss \<longrightarrow> n \<in> {''fn_suffix'', ''struct_suffix'', ''type''}"
  shows "\<exists>content h xs t. header_content (render hs) (render ss) (render ts) = Inr content \<and>
    fill (header_env cfg i protocol) hs = Inr h \<and> rmap (\<lambda>x. fill (slice_env x) ss) slice_types = Inr xs \<and>
    fill (header_env cfg i protocol) ts = Inr t \<and> substitute content (header_env cfg i protocol) = Inr (h @ concat xs @ t)"
proof -
  let ?env = "header_env cfg i protocol"
  obtain h where h: "fill ?env hs = Inr h" using rmap_fill_total [of hs ?env] assms(2) by auto
  obtain t where t: "fill ?env ts = Inr t" using rmap_fill_total [of ts ?env] assms(2) by auto
  obtain xs where xs: "rmap (\<lambda>x. fill (slice_env x) ss) slice_types = Inr xs" "instantiate_slices (render ss) = Inr (concat xs)"
    "CHR ''$'' \<notin> set (concat xs)" using instantiate_slices_filled [OF _ assms(3)] assms(1) by auto
  have "header_content (render hs) (render ss) (render ts) = Inr (render hs @ concat xs @ render ts)"
    using xs(2) by (simp add: header_content_def)
  moreover have "substitute (render hs @ concat xs @ render ts) ?env = Inr (h @ concat xs @ t)"
    using substitute_render_append [of hs "concat xs @ render ts" ?env] substitute_Lit [OF xs(3), of "render ts" ?env]
      substitute_render [of ts ?env] assms(1) h t by simp
  ultimately show ?thesis using h t xs(1) by blast
qed

text \<open>Only the names of the holes are looked up.\<close>

lemma fill_cong: "(\<And>n. Hole n \<in> set ss \<Longrightarrow> lookup_name env n = lookup_name env' n) \<Longrightarrow> fill env ss = fill env' ss"
proof (induction ss)
  case (Cons s ss)
  then show ?case by (cases s) (auto simp: fill_Cons)
qed (simp add: fill_def)

text \<open>
  C39. The text of \<^verbatim>\<open>compost.h\<close>, from the texts of \<^verbatim>\<open>header_template.py\<close>: the head with the name of the file, the version and
  the two halves of the UUID in its holes, the slice interface for each of the ten element types with their names in
  its holes, and the tail with the declarations of the protocol in its hole.  The holes are cut out of the three texts
  correctly, the second substitution changes nothing in the slice interfaces, which were filled by the first one, and
  no error is raised, whatever the declarations contain.
\<close>

theorem c_header_assembled:
  "\<exists>content h xs t.
     header_content (unlines header_template_head) (unlines slice_template) (unlines header_template_tail) = Inr content \<and>
     render (segs_of header_template_head) = unlines header_template_head \<and>
     render (segs_of slice_template) = unlines slice_template \<and>
     render (segs_of header_template_tail) = unlines header_template_tail \<and>
     fill [(''filename_caps'', upper (filename cfg)),
           (''version_info'', ''#define COMPOST_VERSION \"0.7.1\"\<newline>#define COMPOST_GENTIME \"'' @ gentime i @ ''\"''),
           (''uuid_hi'', ''0x'' @ take 16 (upper (uuid_hex i)) @ ''ull''),
           (''uuid_lo'', ''0x'' @ drop 16 (upper (uuid_hex i)) @ ''ull'')] (segs_of header_template_head) = Inr h \<and>
     rmap (\<lambda>(fn, st, ty). fill [(''fn_suffix'', fn), (''struct_suffix'', st), (''type'', ty)] (segs_of slice_template))
       [(''u8'', ''U8'', ''uint8_t''), (''i8'', ''I8'', ''int8_t''), (''u16'', ''U16'', ''uint16_t''), (''i16'', ''I16'', ''int16_t''),
        (''u32'', ''U32'', ''uint32_t''), (''i32'', ''I32'', ''int32_t''), (''u64'', ''U64'', ''uint64_t''), (''i64'', ''I64'', ''int64_t''),
        (''f32'', ''F32'', ''float''), (''f64'', ''F64'', ''double'')] = Inr xs \<and>
     fill [(''protocol'', protocol)] (segs_of header_template_tail) = Inr t \<and>
     substitute content (header_env cfg i protocol) = Inr (h @ concat xs @ t)"
proof -
  let ?env = "header_env cfg i protocol"
  note ok = header_template_head_ok slice_template_ok header_template_tail_ok
  note head = lines_ok [OF ok(1)] and sl = lines_ok [OF ok(2)] and tail = lines_ok [OF ok(3)]
  have names: "n \<in> fst ` set ?env" if "Hole n \<in> set (segs_of header_template_head @ segs_of header_template_tail)" for n
  proof -
    have sub: "set [''filename_caps'', ''version_info'', ''uuid_hi'', ''uuid_lo''] \<subseteq> fst ` set ?env" "set [''protocol''] \<subseteq> fst ` set ?env"
      by (simp_all add: header_env_def uuid_env_def)
    from that have "Hole n \<in> set (segs_of header_template_head) \<or> Hole n \<in> set (segs_of header_template_tail)" by simp
    then show ?thesis using subsetD [OF sub(1) head(3)] subsetD [OF sub(2) tail(3)] by (elim disjE)
  qed
  have ss: "n \<in> {''fn_suffix'', ''struct_suffix'', ''type''}" if "Hole n \<in> set (segs_of slice_template)" for n
    using sl(3) [OF that] by simp
  have all: "list_all seg_ok (segs_of header_template_head @ segs_of slice_template @ segs_of header_template_tail)"
    using head(2) sl(2) tail(2) by simp
  have N: "\<forall>n. Hole n \<in> set (segs_of header_template_head @ segs_of header_template_tail) \<longrightarrow> n \<in> fst ` set ?env"
    by (intro allI impI) (rule names)
  have S: "\<forall>n. Hole n \<in> set (segs_of slice_template) \<longrightarrow> n \<in> {''fn_suffix'', ''struct_suffix'', ''type''}"
    by (intro allI impI) (rule ss)
  obtain content h xs t where c: "header_content (unlines header_template_head) (unlines slice_template)
      (unlines header_template_tail) = Inr content"
    "fill ?env (segs_of header_template_head) = Inr h" "rmap (\<lambda>x. fill (slice_env x) (segs_of slice_template)) slice_types = Inr xs"
    "fill ?env (segs_of header_template_tail) = Inr t" "substitute content ?env = Inr (h @ concat xs @ t)"
    using header_assembled [OF all N S, unfolded head(1) sl(1) tail(1)] by (elim exE conjE) (rule that)
  have e1: "fill ?env (segs_of header_template_head) = fill [(''filename_caps'', upper (filename cfg)),
      (''version_info'', ''#define COMPOST_VERSION \"0.7.1\"\<newline>#define COMPOST_GENTIME \"'' @ gentime i @ ''\"''),
      (''uuid_hi'', ''0x'' @ take 16 (upper (uuid_hex i)) @ ''ull''),
      (''uuid_lo'', ''0x'' @ drop 16 (upper (uuid_hex i)) @ ''ull'')] (segs_of header_template_head)"
  proof (rule fill_cong)
    fix n assume "Hole n \<in> set (segs_of header_template_head)"
    from head(3) [OF this] show "lookup_name ?env n = lookup_name [(''filename_caps'', upper (filename cfg)),
      (''version_info'', ''#define COMPOST_VERSION \"0.7.1\"\<newline>#define COMPOST_GENTIME \"'' @ gentime i @ ''\"''),
      (''uuid_hi'', ''0x'' @ take 16 (upper (uuid_hex i)) @ ''ull''),
      (''uuid_lo'', ''0x'' @ drop 16 (upper (uuid_hex i)) @ ''ull'')] n"
      unfolding list.set insert_iff empty_iff
      by (elim disjE FalseE) (simp_all add: header_env_def uuid_env_def lookup_name_def version_info_def version_def)
  qed
  have e2: "fill ?env (segs_of header_template_tail) = fill [(''protocol'', protocol)] (segs_of header_template_tail)"
  proof (rule fill_cong)
    fix n assume "Hole n \<in> set (segs_of header_template_tail)"
    from tail(3) [OF this] show "lookup_name ?env n = lookup_name [(''protocol'', protocol)] n"
      by (simp add: header_env_def uuid_env_def lookup_name_def)
  qed
  have e3: "(\<lambda>x. fill (slice_env x) (segs_of slice_template)) =
      (\<lambda>(fn, st, ty). fill [(''fn_suffix'', fn), (''struct_suffix'', st), (''type'', ty)] (segs_of slice_template))"
    by (simp add: fun_eq_iff slice_env_def)
  show ?thesis
    by (intro exI conjI) (rule c(1) head(1) sl(1) tail(1) c(2) [unfolded e1] c(3) [unfolded e3 slice_types_def] c(4) [unfolded e2] c(5))+
qed

text \<open>What \<^verbatim>\<open>_define_types\<close> declares.\<close>

fun enum_decl :: "ctype \<Rightarrow> string" where
  "enum_decl (TEnum n b vs) = enum_text n vs"
| "enum_decl _ = []"

fun struct_decl :: "ctype \<Rightarrow> string" where
  "struct_decl (TStruct n ms) = (case struct_text n ms of Inr s \<Rightarrow> s | Inl _ \<Rightarrow> [])"
| "struct_decl _ = []"

lemma define_init_keeps: "define_init n ms g = Inr g' \<Longrightarrow> g_enums g' = g_enums g \<and> g_structs g' = g_structs g"
  by (auto simp: define_init_def Let_def rbind_Inr_iff split: if_splits)

lemma define_types_declares:
  "define_types ts g = Inr g' \<Longrightarrow>
   g_enums g' = g_enums g @ concat (map enum_decl ts) \<and> g_structs g' = g_structs g @ concat (map struct_decl ts)"
proof (induction ts g arbitrary: g' rule: define_types.induct)
  case (2 n ms ts g)
  then obtain decl g1 where d: "struct_text n ms = Inr decl" "define_init n ms (g\<lparr>g_structs := g_structs g @ decl\<rparr>) = Inr g1"
    "define_types ts g1 = Inr g'" by (auto simp: rbind_Inr_iff)
  from "2.IH" [OF d(1,2,3)] define_init_keeps [OF d(2)] d(1) show ?case by simp
qed auto

lemma c_generate_declares:
  assumes "c_generate cfg info doc ts rs e g = Inr (files, g')"
  shows "g_enums g' = g_enums g @ concat (map enum_decl ts) \<and> g_structs g' = g_structs g @ concat (map struct_decl ts)"
proof -
  obtain g1 d where "define_types ts g = Inr g1" "g' = g1\<lparr>type_serdes := d\<rparr>"
    using assms by (auto simp: c_generate_def Let_def rbind_Inr_iff split: option.splits)
  with define_types_declares show ?thesis by fastforce
qed

text \<open>
  C37. The first call of \<^verbatim>\<open>generate\<close> on a generator declares the enumerations and structures of the program once, in their
  order.  A second call on the same generator, as for the other endpoint, has every declaration twice.
\<close>

theorem generate_twice_declares_twice:
  assumes "c_generate cfg info doc ts rs e CCodeGenerator_init = Inr (files, g)" and "c_generate cfg info' doc ts rs e' g = Inr (files', g')"
  shows "g_enums g = concat (map enum_decl ts) \<and> g_structs g = concat (map struct_decl ts) \<and>
    g_enums g' = g_enums g @ g_enums g \<and> g_structs g' = g_structs g @ g_structs g"
  using c_generate_declares [OF assms(1)] c_generate_declares [OF assms(2)] by (simp add: CCodeGenerator_init_def)

theorem generate_twice_declares_twice_witness:
  "\<exists>files g. c_generate \<lparr>filename = ''compost'', path_header = [], path_source = [], templates = None\<rparr> \<lparr>uuid_hex = [], gentime = []\<rparr> (\<lambda>_. [])
      [TEnum ''C'' (BNum U8) [(''R'', 1)]] [] REMOTE (snd (projr (c_generate
        \<lparr>filename = ''compost'', path_header = [], path_source = [], templates = None\<rparr> \<lparr>uuid_hex = [], gentime = []\<rparr> (\<lambda>_. [])
        [TEnum ''C'' (BNum U8) [(''R'', 1)]] [] REMOTE CCodeGenerator_init))) = Inr (files, g) \<and>
    g_enums g = ''\<newline>enum C {\<newline>    C_R = 1\<newline>};\<newline>\<newline>enum C {\<newline>    C_R = 1\<newline>};\<newline>''"
proof -
  let ?cfg = "\<lparr>filename = ''compost'', path_header = [], path_source = [], templates = None\<rparr> :: c_settings"
  let ?gen = "c_generate ?cfg \<lparr>uuid_hex = [], gentime = []\<rparr> (\<lambda>_. []) [TEnum ''C'' (BNum U8) [(''R'', 1)]] [] REMOTE"
  obtain g where g: "?gen CCodeGenerator_init = Inr ([], g)" by (simp add: c_generate_def Let_def)
  obtain g' where g': "?gen g = Inr ([], g')" by (simp add: c_generate_def Let_def)
  have e: "enum_text ''C'' [(''R'', 1)] = ''\<newline>enum C {\<newline>    C_R = 1\<newline>};\<newline>''" by code_simp
  from generate_twice_declares_twice [OF g g'] g g' e show ?thesis by simp
qed

end
