(* ===== verification/CSharp.thy ===== *)
theory CSharp
  imports CSource
begin

text \<open>
  The code generator for C#: types, classes and enumerations for the user types, and the class of the
  protocol, as text.  The documentation strings of the procedures are a parameter; the empty string stands for none.
\<close>

section \<open>Settings and types\<close>

record cs_settings =
  use_primary_constructor :: bool
  use_collection_expression :: bool
  is_partial :: bool
  namespace :: string
  cs_filename :: string
  cs_path :: string
  protocol_name :: string

definition CSharpCodeGenerator_init :: "string \<Rightarrow> string \<Rightarrow> cs_settings" where
  "CSharpCodeGenerator_init name path =
     \<lparr>use_primary_constructor = True, use_collection_expression = True, is_partial = False, namespace = ''Compost'',
      cs_filename = name, cs_path = path, protocol_name = name\<rparr>"

fun cs_primitive :: "numty \<Rightarrow> string" where
  "cs_primitive U8 = ''byte''" | "cs_primitive I8 = ''sbyte''"
| "cs_primitive U16 = ''ushort''" | "cs_primitive I16 = ''short''"
| "cs_primitive U32 = ''uint''" | "cs_primitive I32 = ''int''"
| "cs_primitive U64 = ''ulong''" | "cs_primitive I64 = ''long''"
| "cs_primitive F32 = ''float''" | "cs_primitive F64 = ''double''"

fun cs_type :: "ctype \<Rightarrow> string res" where
  "cs_type (TNum k) = Inr (cs_primitive k)"
| "cs_type TStr = Inr ''string''"
| "cs_type TBytes = Inr ''List<byte>''"
| "cs_type (TList []) = Inl IndexError"
| "cs_type (TList (t # _)) = rbind (cs_type t) (\<lambda>x. Inr (''List<'' @ x @ ''>''))"
| "cs_type (TEnum n _ _) = Inr n"
| "cs_type (TStruct n _) = Inr n"
| "cs_type (TBitU w) = Inr (if w \<ge> 32 then ''ulong'' else ''int'')"
| "cs_type (TOther _) = Inl TypeError"

definition cs_backing :: "backing \<Rightarrow> string res" where
  "cs_backing b =
     (case b of BNum k \<Rightarrow> cs_type (TNum k) | BBitU w \<Rightarrow> cs_type (TBitU w) | BNone \<Rightarrow> Inl AttributeError)"

section \<open>User types\<close>

definition cs_property :: "string res \<Rightarrow> string \<Rightarrow> string \<Rightarrow> string res" where
  "cs_property ty name init =
     rbind ty (\<lambda>ty. rbind (pcase name) (\<lambda>p. Inr (''    public '' @ ty @ '' '' @ p @ '' { get; set; }'' @ init @ ''\<newline>'')))"

definition cs_member :: "cs_settings \<Rightarrow> string \<times> ctype \<Rightarrow> string res" where
  "cs_member cfg m =
     (case m of (name, t) \<Rightarrow>
      (case bitu_width t of
         Some w \<Rightarrow> rbind (cs_property (cs_type t) name []) (\<lambda>x. Inr (''    [Pack('' @ dec_digits w @ '')]\<newline>'' @ x))
       | None \<Rightarrow>
         (case t of
            TStr \<Rightarrow> cs_property (Inr ''string'') name '' = string.Empty;''
          | _ \<Rightarrow>
            if is_list_type t \<or> t = TBytes
            then rbind (cs_type t) (\<lambda>ty.
                 cs_property (cs_type t) name ('' = '' @ (if use_collection_expression cfg then ''[]'' else ''new '' @ ty @ ''()'') @ '';''))
            else if is_compost_struct t then cs_property (cs_type t) name '' = new ();''
            else cs_property (cs_type t) name [])))"

definition cs_variant :: "string \<times> int \<Rightarrow> string res" where
  "cs_variant v = rbind (pcase (fst v)) (\<lambda>p. Inr (''    '' @ p @ '' = '' @ dec_int (snd v)))"

fun cs_type_definition :: "cs_settings \<Rightarrow> ctype list \<Rightarrow> string res" where
  "cs_type_definition cfg [] = Inr []"
| "cs_type_definition cfg (t # ts) =
     rbind (case t of
              TStruct n ms \<Rightarrow>
                rbind (rmap (cs_member cfg) ms) (\<lambda>xs. Inr (''\<newline>public class '' @ n @ ''\<newline>{\<newline>'' @ concat xs @ ''}\<newline>''))
            | TEnum n b vs \<Rightarrow>
                rbind (cs_backing b) (\<lambda>bt.
                rbind (rmap cs_variant vs) (\<lambda>xs.
                Inr (''\<newline>public enum '' @ n @ '' : '' @ bt @ ''\<newline>{\<newline>'' @ join '',\<newline>'' xs @ ''\<newline>};\<newline>'')))
            | _ \<Rightarrow> Inl AttributeError) (\<lambda>x.
     rbind (cs_type_definition cfg ts) (\<lambda>rest. Inr (x @ rest)))"

section \<open>Documentation\<close>

definition is_line_break :: "char \<Rightarrow> bool" where
  "is_line_break c = (of_char c \<in> {10, 11, 12, 13, 28, 29, 30 :: nat})"

function splitlines :: "string \<Rightarrow> string list" where
  "splitlines [] = []"
| "splitlines (c # cs) =
     (if is_line_break c
      then [] # splitlines (if of_char c = (13 :: nat) \<and> cs \<noteq> [] \<and> of_char (hd cs) = (10 :: nat) then tl cs else cs)
      else case splitlines cs of [] \<Rightarrow> [[c]] | l # ls \<Rightarrow> (c # l) # ls)"
  by pat_completeness auto
termination by (relation "measure length") auto

definition lstrip :: "string \<Rightarrow> string" where
  "lstrip s = dropWhile isspace s"

definition rstrip :: "string \<Rightarrow> string" where
  "rstrip s = rev (dropWhile isspace (rev s))"

definition doc_string :: "string \<Rightarrow> string res" where
  "doc_string doc =
     (let ls = filter (\<lambda>l. lstrip l \<noteq> []) (splitlines doc) in
      if ls = [] then Inl ValueError
      else let leading_base = min_list (map (\<lambda>l. length l - length (lstrip l)) ls)
           in Inr (''    /// <summary>\<newline>    /// '' @ join ''\<newline>    /// '' (map (drop leading_base) ls) @ ''\<newline>    /// </summary>\<newline>''))"

definition cs_doc :: "string \<Rightarrow> string res" where
  "cs_doc doc = (if doc = [] then Inr [] else doc_string doc)"

section \<open>The class of the protocol\<close>

definition cs_return :: "rpc \<Rightarrow> string res" where
  "cs_return r =
     (case return_annotation (call_sig r) of
        None \<Rightarrow> Inr []
      | Some t \<Rightarrow> rbind (cs_type t) (\<lambda>x. Inr (''<'' @ x @ ''>'')))"

definition cs_hex :: "int \<Rightarrow> string" where
  "cs_hex i = ''0x'' @ lower (hex_digits (nat i))"

definition cs_method :: "cs_settings \<Rightarrow> (rpc \<Rightarrow> string) \<Rightarrow> rpc \<Rightarrow> string res" where
  "cs_method cfg doc r =
     (let ps = get_param_items r; coll = use_collection_expression cfg in
      rbind (cs_return r) (\<lambda>ret.
      rbind (cs_doc (doc r)) (\<lambda>d.
      rbind (pcase (name_of r)) (\<lambda>name.
      rbind (rmap (\<lambda>(n, t). rbind (cs_type t) (\<lambda>ty. rbind (ccase n) (\<lambda>c. Inr (ty @ '' '' @ c)))) ps) (\<lambda>params.
      rbind (rmap (\<lambda>(n, t). ccase n) ps) (\<lambda>names.
      Inr (d @ ''    [Rpc('' @ cs_hex (id_of r) @ '')]\<newline>    public Task'' @ ret @ '' '' @ name @ ''Async('' @ join '', '' params @ '')\<newline>'' @
        ''        => InvokeRpcAsync'' @ ret @ ''('' @ (if ps = [] then [] else if coll then ''['' else ''new object[]{'') @
        join '', '' names @ (if ps = [] then [] else if coll then '']'' else ''}'') @ '');\<newline>\<newline>'')))))))"

definition cs_event :: "(rpc \<Rightarrow> string) \<Rightarrow> rpc \<Rightarrow> string res" where
  "cs_event doc r =
     rbind (rmap (\<lambda>(n, t). cs_type t) (get_param_items r)) (\<lambda>params.
     rbind (cs_doc (doc r)) (\<lambda>d.
     rbind (pcase (name_of r)) (\<lambda>name.
     Inr (d @ ''    [Notification('' @ cs_hex (id_of r) @ '')]\<newline>    public event Action'' @
       (if params = [] then [] else ''<'' @ join '', '' params @ ''>'') @ '' '' @ name @
       ''\<newline>    {\<newline>        add => AddNotificationHandler(value);\<newline>        remove => RemoveNotificationHandler(value);\<newline>    }\<newline>\<newline>''))))"

definition cs_header :: "cs_settings \<Rightarrow> string" where
  "cs_header cfg =
     GENERATION_NOTE @ ''\<newline>using System;\<newline>using System.Threading.Tasks;\<newline>using System.Collections.Generic;\<newline>'' @
     (if namespace cfg = ''CompostRpc'' then [] else ''using CompostRpc;\<newline>'') @ ''\<newline>namespace '' @ namespace cfg @ '';\<newline>''"

definition cs_generate :: "cs_settings \<Rightarrow> (rpc \<Rightarrow> string) \<Rightarrow> ctype list \<Rightarrow> rpc list \<Rightarrow> endpoint \<Rightarrow> (string \<times> string) list res" where
  "cs_generate cfg doc user_types rs e =
     rbind (validate_endpoint CSharpCodeGenerator_features e rs) (\<lambda>_.
     rbind (cs_type_definition cfg user_types) (\<lambda>types.
     rbind (rmap (cs_method cfg doc) (filter (\<lambda>r. \<not> is_notification r) rs)) (\<lambda>methods.
     rbind (rmap (cs_event doc) (filter is_notification rs)) (\<lambda>events.
     let prim = use_primary_constructor cfg;
         cls = cs_header cfg @ ''\<newline>public '' @ (if is_partial cfg then ''partial '' else []) @ ''class '' @ protocol_name cfg @
           (if prim then ''(ITransport transport)'' else []) @ '' : Protocol'' @ (if prim then ''(transport)'' else []) @ ''\<newline>{\<newline>'' @
           concat methods @ concat events @
           (if prim then [] else ''    public '' @ protocol_name cfg @ '' (ITransport transport) : base(transport)\<newline>    {\<newline>    }\<newline>'')
     in Inr ((cs_path cfg @ ''/'' @ cs_filename cfg @ ''.cs'', rstrip cls @ ''\<newline>}'') #
          (if user_types = [] then []
           else [(cs_path cfg @ ''/'' @ cs_filename cfg @ ''Types.cs'', cs_header cfg @ types)]))))))"

section \<open>When the generator succeeds\<close>

text \<open>A name whose parts between underscores are not empty.\<close>

definition ident :: "string \<Rightarrow> bool" where
  "ident n = list_all (\<lambda>p. p \<noteq> [] \<and> \<not> list_all isspace p) (split_us n)"

lemma pcase_loop_total:
  "list_all (\<lambda>p. p \<noteq> [] \<and> \<not> list_all isspace p) parts \<Longrightarrow> \<exists>p. pcase_loop parts = Inr p \<and> (parts \<noteq> [] \<longrightarrow> p \<noteq> [])"
proof (induction parts)
  case (Cons part parts)
  then have p: "part \<noteq> []" "\<not> list_all isspace part" by simp_all
  obtain x where x: "pcase_loop parts = Inr x" using Cons by auto
  have "(case parts of [] \<Rightarrow> '' '' | p # _ \<Rightarrow> p) \<noteq> []" using Cons.prems by (cases parts) auto
  with p x show ?case by (simp add: Let_def)
qed simp

lemma split_us_nonempty: "split_us n \<noteq> []"
  by (induction n rule: split_us.induct) (auto split: list.splits)

lemma ident_cased:
  assumes "ident n"
  shows "\<exists>p. pcase n = Inr p" "\<exists>c. ccase n = Inr c"
proof -
  obtain p where p: "pcase_loop (split_us n) = Inr p" "p \<noteq> []"
    using pcase_loop_total [OF assms [unfolded ident_def]] split_us_nonempty [of n] by blast
  then show "\<exists>p. pcase n = Inr p" "\<exists>c. ccase n = Inr c"
    by (auto simp: pcase_def ccase_def split: list.splits)
qed

fun cs_typable :: "ctype \<Rightarrow> bool" where
  "cs_typable (TList ts) = (case ts of [] \<Rightarrow> False | t # _ \<Rightarrow> cs_typable t)"
| "cs_typable (TOther _) = False"
| "cs_typable _ = True"

lemma cs_type_total: "cs_typable t \<Longrightarrow> \<exists>x. cs_type t = Inr x"
  by (induction t rule: cs_type.induct) auto

fun cs_declarable :: "ctype \<Rightarrow> bool" where
  "cs_declarable (TStruct n ms) = list_all (\<lambda>(n, t). ident n \<and> cs_typable t) ms"
| "cs_declarable (TEnum n b vs) = (b \<noteq> BNone \<and> list_all (\<lambda>(n, i). ident n) vs)"
| "cs_declarable _ = False"

definition documented :: "string \<Rightarrow> bool" where
  "documented doc \<longleftrightarrow> doc = [] \<or> (\<exists>l \<in> set (splitlines doc). lstrip l \<noteq> [])"

definition cs_rpc_ok :: "rpc \<Rightarrow> bool" where
  "cs_rpc_ok r \<longleftrightarrow> ident (name_of r) \<and> list_all (\<lambda>(n, t). ident n \<and> cs_typable t) (get_param_items r) \<and>
     (case return_annotation (call_sig r) of None \<Rightarrow> True | Some t \<Rightarrow> cs_typable t)"

lemma cs_property_total: "cs_typable t \<Longrightarrow> ident n \<Longrightarrow> \<exists>x. cs_property (cs_type t) n i = Inr x"
  using cs_type_total [of t] ident_cased(1) [of n] by (auto simp: cs_property_def)

lemma cs_member_total:
  assumes "ident n" "cs_typable t" shows "\<exists>x. cs_member cfg (n, t) = Inr x"
proof -
  note p = cs_property_total [OF assms(2,1)]
  obtain ty where "cs_type t = Inr ty" using cs_type_total [OF assms(2)] by blast
  moreover obtain x where "cs_property (cs_type t) n [] = Inr x" using p by blast
  ultimately show ?thesis
  proof (cases "bitu_width t")
    case None
    then show ?thesis using p \<open>cs_type t = Inr ty\<close> by (cases t) (auto simp: cs_member_def)
  qed (simp add: cs_member_def)
qed

lemma cs_types_total: "list_all cs_declarable ts \<Longrightarrow> \<exists>x. cs_type_definition cfg ts = Inr x"
proof (induction ts)
  case (Cons t ts)
  then obtain rest where rest: "cs_type_definition cfg ts = Inr rest" by auto
  have d: "cs_declarable t" using Cons.prems by simp
  show ?case
  proof (cases t rule: cs_declarable.cases)
    case (1 n ms)
    have "\<exists>xs. rmap (cs_member cfg) ms = Inr xs"
      using d 1 cs_member_total by (intro rmap_total) (force simp: list.pred_set)
    then show ?thesis using rest by (auto simp: 1)
  next
    case (2 n b vs)
    have "\<exists>xs. rmap cs_variant vs = Inr xs"
      using d 2 ident_cased(1) by (intro rmap_total) (force simp: list.pred_set cs_variant_def)
    moreover have "\<exists>bt. cs_backing b = Inr bt" using d 2 by (cases b) (simp_all add: cs_backing_def)
    ultimately show ?thesis using rest by (auto simp: 2)
  qed (use d in simp_all)
qed simp

lemma cs_doc_total: "documented doc \<Longrightarrow> \<exists>d. cs_doc doc = Inr d"
  by (auto simp: cs_doc_def doc_string_def documented_def Let_def filter_empty_conv)

lemma cs_method_total:
  assumes "cs_rpc_ok r" and "documented (doc r)" shows "\<exists>x. cs_method cfg doc r = Inr x"
proof -
  let ?ps = "get_param_items r"
  have ps: "ident n \<and> cs_typable t" if "(n, t) \<in> set ?ps" for n t
    using assms(1) that by (auto simp: cs_rpc_ok_def list.pred_set)
  have "\<exists>xs. rmap (\<lambda>(n, t). rbind (cs_type t) (\<lambda>ty. rbind (ccase n) (\<lambda>c. Inr (ty @ '' '' @ c)))) ?ps = Inr xs"
  proof (rule rmap_total)
    fix p assume "p \<in> set ?ps"
    moreover obtain n t where p: "p = (n, t)" by fastforce
    ultimately obtain ty c where "cs_type t = Inr ty" "ccase n = Inr c"
      using ps cs_type_total ident_cased(2) by blast
    then show "\<exists>y. (case p of (n, t) \<Rightarrow> rbind (cs_type t) (\<lambda>ty. rbind (ccase n) (\<lambda>c. Inr (ty @ '' '' @ c)))) = Inr y"
      by (simp add: p)
  qed
  moreover have "\<exists>xs. rmap (\<lambda>(n, t). ccase n) ?ps = Inr xs"
    using ps ident_cased(2) by (intro rmap_total) force
  moreover have "\<exists>x. cs_return r = Inr x"
    using assms(1) cs_type_total by (cases "return_annotation (call_sig r)") (force simp: cs_return_def cs_rpc_ok_def)+
  moreover have "\<exists>p. pcase (name_of r) = Inr p" using assms(1) ident_cased(1) by (simp add: cs_rpc_ok_def)
  ultimately show ?thesis using cs_doc_total [OF assms(2)] by (auto simp: cs_method_def Let_def)
qed

lemma cs_event_total:
  assumes "cs_rpc_ok r" and "documented (doc r)" shows "\<exists>x. cs_event doc r = Inr x"
proof -
  have "\<exists>xs. rmap (\<lambda>(n, t). cs_type t) (get_param_items r) = Inr xs"
    using assms(1) cs_type_total by (intro rmap_total) (force simp: cs_rpc_ok_def list.pred_set)
  moreover have "\<exists>p. pcase (name_of r) = Inr p" using assms(1) ident_cased(1) by (simp add: cs_rpc_ok_def)
  ultimately show ?thesis using cs_doc_total [OF assms(2)] by (auto simp: cs_event_def)
qed

section \<open>Properties\<close>

lemma cs_generate_total:
  assumes "validate_endpoint CSharpCodeGenerator_features e rs = Inr ()" and "list_all cs_declarable user_types"
    and "list_all (\<lambda>r. cs_rpc_ok r \<and> documented (doc r)) rs"
  shows "\<exists>files. cs_generate cfg doc user_types rs e = Inr files \<and>
    map fst files = (cs_path cfg @ ''/'' @ cs_filename cfg @ ''.cs'') #
      (if user_types = [] then [] else [cs_path cfg @ ''/'' @ cs_filename cfg @ ''Types.cs''])"
proof -
  have r: "cs_rpc_ok r \<and> documented (doc r)" if "r \<in> set rs" for r using assms(3) that by (simp add: list.pred_set)
  obtain tys where "cs_type_definition cfg user_types = Inr tys" using cs_types_total [OF assms(2)] by blast
  moreover have "\<exists>ms. rmap (cs_method cfg doc) (filter (\<lambda>r. \<not> is_notification r) rs) = Inr ms"
    using r cs_method_total by (intro rmap_total) auto
  moreover have "\<exists>es. rmap (cs_event doc) (filter is_notification rs) = Inr es"
    using r cs_event_total by (intro rmap_total) auto
  ultimately show ?thesis using assms(1) by (auto simp: cs_generate_def Let_def)
qed

text \<open>A documentation string of blanks is not empty for Python, but has no line to take the indentation from.\<close>

lemma splitlines_chars: "l \<in> set (splitlines s) \<Longrightarrow> set l \<subseteq> set s"
proof (induction s arbitrary: l rule: splitlines.induct)
  case (2 c cs)
  have t: "set (tl cs) \<subseteq> set cs" by (cases cs) auto
  show ?case
  proof (cases "is_line_break c")
    case True
    with "2.prems" consider "l = []"
      | "l \<in> set (splitlines (if of_char c = (13 :: nat) \<and> cs \<noteq> [] \<and> of_char (hd cs) = (10 :: nat) then tl cs else cs))"
      by auto
    then show ?thesis using "2.IH"(1) [OF True] t by cases (auto split: if_splits dest!: subsetD)
  next
    case False
    with "2.prems" "2.IH"(2) [OF False] show ?thesis by (fastforce split: list.splits)
  qed
qed simp

lemma blank_doc_refused:
  assumes "list_all isspace doc" and "doc \<noteq> []"
  shows "cs_doc doc = Inl ValueError"
proof -
  have "lstrip l = []" if "l \<in> set (splitlines doc)" for l
    using splitlines_chars [OF that] assms(1) by (auto simp: lstrip_def list.pred_set dropWhile_eq_Nil_conv)
  then show ?thesis using assms(2) by (simp add: cs_doc_def doc_string_def Let_def filter_empty_conv)
qed

text \<open>Two names of members that become the same name in C#.\<close>

lemma property_names_collide: "pcase ''a_1'' = Inr ''A1'' \<and> pcase ''a1'' = Inr ''A1''"
  by code_simp

end
