(* ===== verification/Examples.thy ===== *)
theory Examples
  imports CSharp
begin

text \<open>
  The protocols that come with the library, \<^verbatim>\<open>example_protocol_def.py\<close> and \<^verbatim>\<open>examples/pc_to_pc/protocol_def.py\<close>:
  every procedure of the first one that has a result can be called, and the call of the second one computes a sum over the
  whole stack.
\<close>

section \<open>The example protocol\<close>

definition Result_class :: ctype where
  "Result_class = TEnum ''Result'' (BNum U8) [(''OK'', 0), (''ERR'', 1)]"

definition LedState :: ctype where
  "LedState = TEnum ''LedState'' (BNum U8) [(''OFF'', 0), (''ON'', 1)]"

definition TofProperty :: ctype where
  "TofProperty = TEnum ''TofProperty'' (BNum U8)
     [(''ZONE_DISTANCE'', 0), (''ZONE_ENERGY'', 1), (''ZONE_TARGET_COUNT'', 2), (''GR_DATA'', 16), (''HT_DATA'', 17)]"

definition TofZoneArray :: members where
  "TofZoneArray = [(''id'', TNum U8), (''layer'', TNum U8), (''value'', TofProperty), (''data'', TList [TNum U32])]"

definition LogMessage :: members where
  "LogMessage = [(''severity'', TNum U8), (''tag'', TNum U8), (''message'', TStr)]"

text \<open>The decorated classes, in the order of the file.\<close>

definition example_types :: "ctype list res" where
  "example_types = rmap id
     [enum_decorator Result_class, enum_decorator LedState, enum_decorator TofProperty,
      struct_decorator ''TofZoneArray'' TofZoneArray, struct_decorator ''LogMessage'' LogMessage]"

definition method_sig :: "(string \<times> ctype) list \<Rightarrow> ctype option \<Rightarrow> signature" where
  "method_sig ps ret = \<lparr>parameters = (''self'', TOther ''_empty'') # ps, return_annotation = ret\<rparr>"

definition ExampleProtocol :: "rpc list res" where
  "ExampleProtocol = rmap id
     [rpc_decorator 0x101 False TO_REMOTE ''app_info'' (method_sig [] (Some TStr)),
      rpc_decorator 0x001 False TO_REMOTE ''read8'' (method_sig [(''address'', TNum U32)] (Some (TNum U8))),
      rpc_decorator 0x002 False TO_REMOTE ''write8'' (method_sig [(''address'', TNum U32), (''data'', TNum U8)] None),
      rpc_decorator 0x003 False TO_REMOTE ''read32'' (method_sig [(''address'', TNum U32)] (Some (TNum U32))),
      rpc_decorator 0x004 False TO_REMOTE ''write32'' (method_sig [(''address'', TNum U32), (''data'', TNum U32)] None),
      rpc_decorator 0x005 False TO_REMOTE ''read'' (method_sig [(''address'', TNum U32), (''len'', TNum U16)] (Some TBytes)),
      rpc_decorator 0x006 False TO_REMOTE ''write'' (method_sig [(''address'', TNum U32), (''data'', TBytes)] None),
      rpc_decorator 0x007 False TO_REMOTE ''write_slice'' (method_sig [(''data'', TList [TNum U32])] None),
      rpc_decorator 0x008 False TO_REMOTE ''read_slice'' (method_sig [] (Some (TList [TNum U32]))),
      rpc_decorator 0x009 False TO_REMOTE ''set_led'' (method_sig [(''state'', LedState)] None),
      rpc_decorator 0x00A False TO_REMOTE ''float_add'' (method_sig [(''a'', TNum F32), (''b'', TNum F32)] (Some (TNum F32))),
      rpc_decorator 0x00B False TO_REMOTE ''adc_read'' (method_sig [(''channel'', TNum U8)] (Some (TNum U16))),
      rpc_decorator 0xA00 False TO_REMOTE ''get_zone_signal''
        (method_sig [(''id'', TNum U8), (''layer'', TNum U8)] (Some (TStruct ''TofZoneArray'' TofZoneArray))),
      notification_decorator 0x200 TO_LOCAL ''notify_log_static'' (method_sig [(''log'', TStruct ''LogMessage'' LogMessage)] None)]"

lemma example_computes:
  "case (ExampleProtocol, example_types) of
     (Inr rs, Inr ts) \<Rightarrow>
       length rs = 14 \<and> ts \<noteq> [] \<and> register_all [] rs = Inr (map (\<lambda>r. (id_of r, r)) rs) \<and>
       list_all (\<lambda>r. in_step (types (req_serdes r)) \<and> in_step (types (resp_serdes r))) rs \<and>
       validate_endpoint CCodeGenerator_features REMOTE rs = Inr () \<and> list_all declarable ts \<and> list_all rpc_declarable rs \<and>
       validate_endpoint CSharpCodeGenerator_features LOCAL rs = Inr () \<and> list_all cs_declarable ts \<and> list_all cs_rpc_ok rs
   | _ \<Rightarrow> False"
  by code_simp

section \<open>The protocol of the example with two hosts\<close>

definition add_int :: rpc where
  "add_int = Rpc_new 0xC00 ''add_int'' \<lparr>types = [TNum U32, TNum U32]\<rparr> \<lparr>types = [TNum U32]\<rparr>
     (method_sig [(''a'', TNum U32), (''b'', TNum U32)] (Some (TNum U32))) False TO_REMOTE"

definition SimpleProtocol :: "rpc list res" where
  "SimpleProtocol = rmap id
     [rpc_decorator 0xC00 False TO_REMOTE ''add_int'' (method_sig [(''a'', TNum U32), (''b'', TNum U32)] (Some (TNum U32)))]"

lemma SimpleProtocol_eq: "SimpleProtocol = Inr [add_int]"
  by (simp add: SimpleProtocol_def add_int_def method_sig_def rpc_decorator_def check_return_def validate_type_def
      supported_param_def supported_return_def)

text \<open>The handler of \<^verbatim>\<open>main.c\<close>, without its output on the terminal.\<close>

definition add_int_handler :: c_handler where
  "add_int_handler m cs alloc =
     (case cs of [CNum (C32 a), CNum (C32 b)] \<Rightarrow> Some (m, Some (CNum (C32 (a + b)))) | _ \<Rightarrow> None)"

definition sum32 :: "pyval list \<Rightarrow> pyval" where
  "sum32 args = (case args of [VInt a, VInt b] \<Rightarrow> VInt ((a + b) mod 2 ^ 32) | _ \<Rightarrow> VInt 0)"

lemma u32_value:
  assumes "crel m (TNum U32) (VInt a) c"
  obtains w where "c = CNum (C32 w)" "a = uint w"
proof -
  obtain x where x: "c = CNum x" "cnum_rel U32 (VInt a) x" using assms by (cases c) auto
  then show thesis using that by (cases x) (auto simp: cnum_rel_def csizeof_def)
qed

lemma add_int_implements: "implements self static add_int sum32 (TNum U32) add_int_handler"
proof -
  have p: "map snd (get_param_items add_int) = [TNum U32, TNum U32]"
    by (simp add: add_int_def Rpc_new_def get_param_items_def method_sig_def)
  show ?thesis
    unfolding implements_def p Let_def
  proof (intro allI impI conjI)
    fix args assume "list_all2 wt [TNum U32, TNum U32] args"
    then obtain v1 v2 where v: "args = [v1, v2]" "fmt_dom (num_fmt U32) v1" "fmt_dom (num_fmt U32) v2"
      by (auto simp: list_all2_Cons1)
    obtain a b where ab: "args = [VInt a, VInt b]" using v by (cases v1; cases v2) auto
    show "wt (TNum U32) (sum32 args)" by (simp add: ab sum32_def fmt_range_def)
    fix rxp txp :: "byte list" and cs
    let ?m = "rxp @ txp @ static" and ?n = "payload_size [TNum U32] [sum32 args]"
    assume "cargs ?m (within 0 (length rxp)) [TNum U32, TNum U32] args cs \<and> ?n \<le> length txp \<and> ?n \<le> 1020"
    then obtain c1 c2 where c: "cs = [c1, c2]" "crel ?m (TNum U32) (VInt a) c1" "crel ?m (TNum U32) (VInt b) c2"
      using ab by (cases cs; cases "tl cs"; cases "tl (tl cs)") auto
    obtain w1 w2 where w: "c1 = CNum (C32 w1)" "a = uint w1" "c2 = CNum (C32 w2)" "b = uint w2"
      using u32_value [OF c(2)] u32_value [OF c(3)] by metis
    have "uint (w1 + w2) = (a + b) mod 2 ^ 32" using w by (simp add: uint_word_ariths)
    then have "carg ?m (TNum U32) (sum32 args) (CNum (C32 (w1 + w2)))"
      by (simp add: ab sum32_def cnum_rel_def csizeof_def)
    moreover have "returnable self ?m (length rxp) ?n (TNum U32) (CNum (C32 (w1 + w2)))"
      by (simp add: returnable_def csizeof_def)
    ultimately show "\<exists>m' c. add_int_handler ?m cs (exec_alloc (response_alloc (Some (TNum U32))) (length rxp) (length txp)) =
        Some (m', Some c) \<and> length m' = length ?m \<and> carg m' (TNum U32) (sum32 args) c \<and>
        returnable self m' (length rxp) ?n (TNum U32) c"
      by (simp add: add_int_handler_def c(1) w)
  qed
qed

text \<open>What the theorems on generated calls ask of the protocol.\<close>

lemma add_int_parts:
  "id_of add_int = 0xC00" "name_of add_int = ''add_int''" "req_serdes add_int = \<lparr>types = [TNum U32, TNum U32]\<rparr>"
  "get_param_items add_int = [(''a'', TNum U32), (''b'', TNum U32)]" "return_annotation (call_sig add_int) = Some (TNum U32)"
  by (simp_all add: add_int_def Rpc_new_def get_param_items_def method_sig_def)

lemma add_int_ready:
  "register_all [] [add_int] = Inr [(0xC00, add_int)]"
  "rpc_decorator (id_of add_int) False TO_REMOTE (name_of add_int) (call_sig add_int) = Inr add_int"
  "\<exists>p. c_functions REMOTE [add_int] = Inr p"
  "list_all (rpc_usable Map.empty) [add_int]" "names_ok Map.empty" "rpc_runs Map.empty add_int (TNum U32)"
proof -
  note r = add_int_parts
  show "register_all [] [add_int] = Inr [(0xC00, add_int)]" by (simp add: set_name_def validate_rpc_id_def r)
  show "rpc_decorator (id_of add_int) False TO_REMOTE (name_of add_int) (call_sig add_int) = Inr add_int"
    using SimpleProtocol_eq by (simp add: SimpleProtocol_def add_int_def Rpc_new_def rbind_Inr_iff)
  have v: "validate_endpoint CCodeGenerator_features REMOTE [add_int] = Inr ()" by code_simp
  have d: "list_all rpc_declarable [add_int]" by (simp add: rpc_declarable_def r) (simp add: add_int_def Rpc_new_def)
  show "\<exists>p. c_functions REMOTE [add_int] = Inr p" using c_functions_total [OF v d] by blast
  show "list_all (rpc_usable Map.empty) [add_int]" "names_ok Map.empty" "rpc_runs Map.empty add_int (TNum U32)"
    by (simp_all add: rpc_usable_def rpc_runs_def usable_def r flat_def in_step_def names_ok_def names_free_def)
qed

section \<open>Calls of a protocol that is ready\<close>

text \<open>
  What can be computed of a protocol and the classes it names: it registers and the C generator accepts it; and of a
  procedure: if it has a result, its types can be packed, read back and stored.
\<close>

definition procedure_ready :: "(string \<times> members) list \<Rightarrow> rpc \<Rightarrow> bool" where
  "procedure_ready env r \<longleftrightarrow>
     (case return_annotation (call_sig r) of
        None \<Rightarrow> True
      | Some t \<Rightarrow> rpc_decorator (id_of r) False (direction r) (name_of r) (call_sig r) = Inr r \<and> rpc_runs (map_of env) r t \<and>
          list_all flat (types (req_serdes r)))"

definition protocol_ready :: "(string \<times> members) list \<Rightarrow> rpc list \<Rightarrow> bool" where
  "protocol_ready env rs \<longleftrightarrow>
     register_all [] rs = Inr (map (\<lambda>r. (id_of r, r)) rs) \<and> distinct (map name_of rs) \<and>
     validate_endpoint CCodeGenerator_features REMOTE rs = Inr () \<and> list_all rpc_declarable rs \<and>
     list_all (rpc_usable (map_of env)) rs"

lemma names_ok_map_of:
  assumes "list_all (\<lambda>(n, ms). map_of (builtins Store) (fname Store n) = None \<and> map_of (builtins Load) (fname Load n) = None) env"
  shows "names_ok (map_of env)"
proof -
  have "map_of (builtins Store) (fname Store n) = None \<and> map_of (builtins Load) (fname Load n) = None" if "map_of env n = Some ms" for n ms
    using assms map_of_SomeD [OF that] by (auto simp: list.pred_set)
  then show ?thesis unfolding names_ok_def names_free_def by blast
qed

lemma ready_call:
  assumes "txn_valid s" "alive s" "q s = []" and "\<And>out. tsend out = Inr ()"
    and "protocol_ready env rs" "names_ok (map_of env)" "r \<in> set rs" "procedure_ready env r" "return_annotation (call_sig r) = Some t"
    and "implements self static r f t (hdl (name_of r))"
    and "list_all2 wt (types (req_serdes r)) args" "payload_size (types (req_serdes r)) args \<le> 1020"
    and "payload_size [t] [f args] \<le> 1020" "4 + 4 * words (payload_size [t] [f args]) \<le> length txb"
  shows "\<exists>p req n txb' s'. c_functions REMOTE rs = Inr p \<and>
    compost_msg_process (generated_switch self static REMOTE rs p hdl) (Some txb) (Some (req @ pad)) = Some (int n, Some txb') \<and>
    Rpc_call (map (\<lambda>r. (id_of r, r)) rs) callb tsend r args [Inr (take n txb' @ pad')] s = (Inr (Some (f args)), s') \<and>
    sent s' = sent s @ [req] \<and> q s' = [] \<and> alive s' \<and> txn_valid s'"
proof -
  have ready: "register_all [] rs = Inr (map (\<lambda>r. (id_of r, r)) rs)" "distinct (map name_of rs)"
    "validate_endpoint CCodeGenerator_features REMOTE rs = Inr ()" "list_all rpc_declarable rs" "list_all (rpc_usable (map_of env)) rs"
    "rpc_decorator (id_of r) False (direction r) (name_of r) (call_sig r) = Inr r" "rpc_runs (map_of env) r t"
    "list_all flat (types (req_serdes r))"
    using assms(5,7,8,9) by (auto simp: protocol_ready_def procedure_ready_def list.pred_set)
  obtain p where p: "c_functions REMOTE rs = Inr p" using c_functions_total [OF ready(3,4)] by blast
  obtain data where data: "pack_payload (types (req_serdes r)) args = Inr data" "length data \<le> 1020"
    using pack_payload_fits [OF assms(11) ready(8)] pack_payload_length(1) [OF _ assms(11)] assms(12) by fastforce
  then have pk: "PayloadSerdes_pack (req_serdes r) args = Inr data" by (simp add: PayloadSerdes_pack_def)
  have "0 \<le> fst (next_txn s)" "fst (next_txn s) < 256" using next_txn_range [OF assms(1)] by simp_all
  then obtain rq req where rq: "Msg_from_data (fst (next_txn s)) False (id_of r) data = Inr rq" "snd (Msg_pack rq) = Inr req"
    using transmit_ok [of data "fst (next_txn s)" tsend False "id_of r" s] data(2) assms(4) by auto
  have "\<exists>n txb'.
      compost_msg_process (generated_switch self static REMOTE rs p hdl) (Some txb) (Some (req @ pad)) = Some (int n, Some txb') \<and>
      n = 4 + 4 * words (payload_size [t] [f args]) \<and> length txb' = length txb \<and>
      uint (hd (take n txb')) = int (words (payload_size [t] [f args])) \<and>
      (\<forall>pad'. \<exists>s'. Rpc_call (map (\<lambda>r. (id_of r, r)) rs) callb tsend r args [Inr (take n txb' @ pad')] s = (Inr (Some (f args)), s') \<and>
         sent s' = sent s @ [req] \<and> q s' = [] \<and> alive s' \<and> txn_valid s')"
    by (rule generated_call [where r = r and f = f and hdl = hdl, OF assms(1-4) ready(1) assms(7) ready(2,6) p ready(5) assms(6) ready(7) assms(10) pk assms(11) rq])
      (rule assms(13,14))+
  with p show ?thesis by blast
qed

section \<open>Properties\<close>

text \<open>
  The example protocol is accepted by the decorators and registers; its types stay in step, so that its payloads
  round-trip; the C generator returns the header and the source file for the remote endpoint.
\<close>

lemma example_protocol_generated:
  assumes "templates_ok \<lparr>filename = ''compost'', path_header = path, path_source = path, templates = Some (ht, st)\<rparr>"
  shows "\<exists>rs ts h s g. ExampleProtocol = Inr rs \<and> example_types = Inr ts \<and>
    list_all (\<lambda>r. in_step (types (req_serdes r)) \<and> in_step (types (resp_serdes r))) rs \<and>
    c_generate \<lparr>filename = ''compost'', path_header = path, path_source = path, templates = Some (ht, st)\<rparr> info doc ts rs REMOTE
      CCodeGenerator_init = Inr ([(path @ ''/compost.h'', h), (path @ ''/compost.c'', s)], g)"
proof -
  let ?cfg = "\<lparr>filename = ''compost'', path_header = path, path_source = path, templates = Some (ht, st)\<rparr> :: c_settings"
  obtain rs ts where e: "ExampleProtocol = Inr rs" "example_types = Inr ts"
    using example_computes by (auto split: prod.splits sum.splits)
  note c = example_computes [unfolded e, simplified]
  obtain h s g where "c_generate ?cfg info doc ts rs REMOTE CCodeGenerator_init =
      Inr ([(path @ ''/compost.h'', h), (path @ ''/compost.c'', s)], g)"
    using c_generate_total [OF _ _ _ assms, of REMOTE rs ts info doc CCodeGenerator_init] c by auto
  then show ?thesis using c e by blast
qed

text \<open>The classes of the example protocol, by name.\<close>

definition example_env :: "(string \<times> members) list" where
  "example_env = [(''TofZoneArray'', TofZoneArray), (''LogMessage'', LogMessage)]"

lemma example_ready: "case ExampleProtocol of Inr rs \<Rightarrow> protocol_ready example_env rs \<and> list_all (procedure_ready example_env) rs | Inl _ \<Rightarrow> False"
  by code_simp

lemma example_names: "names_ok (map_of example_env)"
  by (rule names_ok_map_of) code_simp

text \<open>
  C36. Every procedure of the example protocol that has a result can be called: the protocol registers, the C functions are
  generated for all of it, and with a handler that implements \<open>f\<close>, every request of well-typed arguments that fits into a
  message makes the call return \<open>f args\<close>, and leaves the session ready for the next call.
\<close>

theorem example_calls_return:
  assumes "txn_valid s" "alive s" "q s = []" and "\<And>out. tsend out = Inr ()"
    and "ExampleProtocol = Inr rs" "r \<in> set rs" "return_annotation (call_sig r) = Some t"
    and "implements self static r f t (hdl (name_of r))"
    and "list_all2 wt (types (req_serdes r)) args" "payload_size (types (req_serdes r)) args \<le> 1020"
    and "payload_size [t] [f args] \<le> 1020" "4 + 4 * words (payload_size [t] [f args]) \<le> length txb"
  shows "register_all [] rs = Inr (map (\<lambda>r. (id_of r, r)) rs) \<and> (\<exists>p req n txb' s'. c_functions REMOTE rs = Inr p \<and>
    compost_msg_process (generated_switch self static REMOTE rs p hdl) (Some txb) (Some (req @ pad)) = Some (int n, Some txb') \<and>
    Rpc_call (map (\<lambda>r. (id_of r, r)) rs) callb tsend r args [Inr (take n txb' @ pad')] s = (Inr (Some (f args)), s') \<and>
    sent s' = sent s @ [req] \<and> q s' = [] \<and> alive s' \<and> txn_valid s')"
proof -
  have "protocol_ready example_env rs" "procedure_ready example_env r"
    using example_ready assms(6) unfolding assms(5) by (auto simp: list.pred_set)
  then show ?thesis
    using ready_call [where r = r and f = f and hdl = hdl, OF assms(1-4) _ example_names assms(6) _ assms(7-12)]
    by (auto simp: protocol_ready_def)
qed

text \<open>A device whose words hold their own addresses.\<close>

definition read32 :: rpc where
  "read32 = Rpc_new 0x003 ''read32'' \<lparr>types = [TNum U32]\<rparr> \<lparr>types = [TNum U32]\<rparr>
     (method_sig [(''address'', TNum U32)] (Some (TNum U32))) False TO_REMOTE"

lemma read32_implements: "implements self static read32 hd (TNum U32) echo_handler"
proof -
  have p: "map snd (get_param_items read32) = [TNum U32]"
    by (simp add: read32_def Rpc_new_def get_param_items_def method_sig_def)
  show ?thesis
    unfolding implements_def p Let_def
  proof (intro allI impI conjI)
    fix args assume "list_all2 wt [TNum U32] args"
    then obtain v where v: "args = [v]" "wt (TNum U32) v" by (auto simp: list_all2_Cons1)
    show "wt (TNum U32) (hd args)" using v by simp
    fix rxp txp :: "byte list" and cs
    let ?m = "rxp @ txp @ static"
    assume "cargs ?m (within 0 (length rxp)) [TNum U32] args cs \<and> payload_size [TNum U32] [hd args] \<le> length txp \<and>
      payload_size [TNum U32] [hd args] \<le> 1020"
    then obtain c where c: "cs = [c]" "carg ?m (TNum U32) v c" using v(1) by (cases cs; cases "tl cs") auto
    then obtain x where x: "c = CNum x" "cnum_rel U32 v x" by (cases c) auto
    then have "returnable self ?m (length rxp) (payload_size [TNum U32] [hd args]) (TNum U32) c"
      by (simp add: returnable_def cnum_rel_def)
    with c v(1) show "\<exists>m' c. echo_handler ?m cs (exec_alloc (response_alloc (Some (TNum U32))) (length rxp) (length txp)) =
        Some (m', Some c) \<and> length m' = length ?m \<and> carg m' (TNum U32) (hd args) c \<and>
        returnable self m' (length rxp) (payload_size [TNum U32] [hd args]) (TNum U32) c"
      by (simp add: echo_handler_def)
  qed
qed

theorem example_calls_return_witness:
  "\<exists>rs. ExampleProtocol = Inr rs \<and> length rs = 14 \<and> (\<exists>p req n txb' s'. c_functions REMOTE rs = Inr p \<and>
    compost_msg_process (generated_switch False [] REMOTE rs p (\<lambda>_. echo_handler)) (Some (replicate 8 0)) (Some (req @ [1])) =
      Some (int n, Some txb') \<and>
    Rpc_call (map (\<lambda>r. (id_of r, r)) rs) (\<lambda>_ _. Inr ()) (\<lambda>_. Inr ()) read32 [VInt 305419896] [Inr (take n txb')] Session_init =
      (Inr (Some (VInt 305419896)), s'))"
proof -
  have s: "txn_valid Session_init" "alive Session_init" "q Session_init = []"
    by (simp_all add: Session_init_def txn_valid_def)
  have third: "case ExampleProtocol of Inr rs \<Rightarrow> length rs = 14 \<and> rs ! 3 = read32 | Inl _ \<Rightarrow> False" by code_simp
  then obtain rs where rs: "ExampleProtocol = Inr rs" "length rs = 14" "read32 \<in> set rs"
  proof (cases ExampleProtocol)
    case (Inr rs)
    have "length rs = 14" "rs ! 3 = read32" using third unfolding Inr by simp_all
    with nth_mem [of 3 rs] Inr that show ?thesis by simp
  next
    case (Inl e)
    show ?thesis using third unfolding Inl by simp
  qed
  have r: "return_annotation (call_sig read32) = Some (TNum U32)" "types (req_serdes read32) = [TNum U32]"
    by (simp_all add: read32_def Rpc_new_def method_sig_def)
  have sz: "payload_size [TNum U32] [VInt 305419896] = 4" by code_simp
  from example_calls_return [OF s _ rs(1,3) r(1), where tsend = "\<lambda>_. Inr ()" and hdl = "\<lambda>_. echo_handler" and self = False
      and static = "[]" and args = "[VInt 305419896]" and txb = "replicate 8 0" and pad = "[1]" and pad' = "[]"
      and callb = "\<lambda>_ _. Inr ()", OF _ read32_implements]
  show ?thesis using rs(1,2) by (simp add: r(2) sz fmt_range_def words_def) blast
qed

text \<open>
  C4. The example with two hosts adds: for any two numbers of 32 bits, the call of \<^verbatim>\<open>add_int\<close>, processed by the code
  that the generator emits for the protocol with the handler of \<^verbatim>\<open>main.c\<close>, returns their sum modulo \<open>2 ^ 32\<close>.
\<close>

theorem add_int_returns_sum:
  assumes "txn_valid s" "alive s" "q s = []" and "\<And>out. tsend out = Inr ()"
    and "0 \<le> a" "a < 2 ^ 32" "0 \<le> b" "b < 2 ^ 32" and "8 \<le> length txb"
  shows "\<exists>rs p req n txb' s'. SimpleProtocol = Inr rs \<and> c_functions REMOTE rs = Inr p \<and>
    compost_msg_process (generated_switch self static REMOTE rs p (\<lambda>_. add_int_handler)) (Some txb) (Some (req @ pad)) =
      Some (int n, Some txb') \<and>
    Rpc_call [(0xC00, add_int)] callb tsend add_int [VInt a, VInt b] [Inr (take n txb' @ pad')] s =
      (Inr (Some (VInt ((a + b) mod 2 ^ 32))), s') \<and>
    sent s' = sent s @ [req] \<and> q s' = [] \<and> alive s' \<and> txn_valid s'"
proof -
  let ?args = "[VInt a, VInt b]" and ?ts = "[TNum U32, TNum U32]"
  note r = add_int_parts and ready = add_int_ready
  obtain p where p: "c_functions REMOTE [add_int] = Inr p" using ready(3) by blast
  have wt: "list_all2 wt ?ts ?args" using assms(5-8) by (simp add: fmt_range_def)
  have sz: "payload_size ?ts ?args = 8" "payload_size [TNum U32] [sum32 ?args] = 4"
    by (simp_all add: payload_size_def mu_bytes_def BITS_PER_BYTE_def sum32_def)
  obtain data where data: "pack_payload ?ts ?args = Inr data" "length data = 8"
    using pack_payload_fits [OF wt] pack_payload_length(1) [OF _ wt] sz(1) by (force simp: flat_def)
  then have pk: "PayloadSerdes_pack (req_serdes add_int) ?args = Inr data" by (simp add: PayloadSerdes_pack_def r)
  have t: "0 \<le> fst (next_txn s)" "fst (next_txn s) < 256" using next_txn_range [OF assms(1)] by simp_all
  obtain rq req where rq: "Msg_from_data (fst (next_txn s)) False (id_of add_int) data = Inr rq" "snd (Msg_pack rq) = Inr req"
    using transmit_ok [of data "fst (next_txn s)" tsend False "id_of add_int" s] t data(2) assms(4) by auto
  let ?hs = "generated_switch self static REMOTE [add_int] p (\<lambda>_. add_int_handler)"
  let ?call = "\<lambda>resp. Rpc_call [(0xC00, add_int)] callb tsend add_int ?args [Inr resp] s"
  have "\<exists>n txb'. compost_msg_process ?hs (Some txb) (Some (req @ pad)) = Some (int n, Some txb') \<and>
      n = 4 + 4 * words (payload_size [TNum U32] [sum32 ?args]) \<and> length txb' = length txb \<and>
      uint (hd (take n txb')) = int (words (payload_size [TNum U32] [sum32 ?args])) \<and>
      (\<forall>pad'. \<exists>s'. ?call (take n txb' @ pad') = (Inr (Some (sum32 ?args)), s') \<and>
         sent s' = sent s @ [req] \<and> q s' = [] \<and> alive s' \<and> txn_valid s')"
    by (rule generated_call [OF assms(1-4) ready(1) _ _ ready(2) p ready(4-6) add_int_implements pk _ rq])
      (use wt sz(2) assms(9) in \<open>simp_all add: r words_def\<close>)
  then obtain n txb' s' where "compost_msg_process ?hs (Some txb) (Some (req @ pad)) = Some (int n, Some txb')"
    "?call (take n txb' @ pad') = (Inr (Some (sum32 ?args)), s')" "sent s' = sent s @ [req]" "q s' = []" "alive s'" "txn_valid s'" by blast
  moreover have "sum32 ?args = VInt ((a + b) mod 2 ^ 32)" by (simp add: sum32_def)
  ultimately show ?thesis using p SimpleProtocol_eq by metis
qed

theorem add_int_returns_sum_witness:
  "\<exists>rs p req n txb' s'. SimpleProtocol = Inr rs \<and> c_functions REMOTE rs = Inr p \<and>
    compost_msg_process (generated_switch False [] REMOTE rs p (\<lambda>_. add_int_handler)) (Some (replicate 8 0)) (Some (req @ [])) =
      Some (int n, Some txb') \<and>
    Rpc_call [(0xC00, add_int)] (\<lambda>_ _. Inr ()) (\<lambda>_. Inr ()) add_int [VInt 4294967295, VInt 2] [Inr (take n txb')] Session_init =
      (Inr (Some (VInt 1)), s')"
proof -
  have s: "txn_valid Session_init" "alive Session_init" "q Session_init = []"
    by (simp_all add: Session_init_def txn_valid_def)
  from add_int_returns_sum [OF s, of "\<lambda>_. Inr ()" 4294967295 2 "replicate 8 0" False "[]" "[]" "\<lambda>_ _. Inr ()" "[]"] show ?thesis
    by fastforce
qed

end
