(* ===== verification/Network.thy ===== *)
theory Network
  imports Examples
begin

text \<open>
  Calls over a transport: the request of \<^verbatim>\<open>Rpc.__call__\<close> goes through the \<^verbatim>\<open>send\<close> of a transport, the frame is received
  by a device that runs the generated code, and the response comes back through another frame.  The locale \<open>link_pair\<close>
  is the contract of the two directions; it is interpreted on UDP, raw Ethernet and CAN FD.
\<close>

section \<open>One exchange\<close>

text \<open>
  The step of a device as in \<^verbatim>\<open>main.c\<close>: the response, which is sent when its size is positive, and the transmit buffer
  afterwards.
\<close>

definition device :: "handlers \<Rightarrow> byte list \<Rightarrow> byte list \<Rightarrow> (byte list option \<times> byte list) option" where
  "device hs txb raw =
     (case compost_msg_process hs (Some txb) (Some raw) of
        Some (n, Some txb') \<Rightarrow> Some (if n > 0 then Some (take (nat n) txb') else None, txb')
      | _ \<Rightarrow> None)"

text \<open>
  What the host receives after it has sent \<open>req\<close>, and the transmit buffer of the device: \<open>usend\<close> and \<open>urecv\<close> are the
  ends of the link to the device, \<open>dsend\<close> and \<open>drecv\<close> those of the link back.
\<close>

definition exchange ::
  "(byte list \<Rightarrow> net \<Rightarrow> net res) \<Rightarrow> (net \<Rightarrow> (byte list res \<times> net) option) \<Rightarrow>
   (byte list \<Rightarrow> net \<Rightarrow> net res) \<Rightarrow> (net \<Rightarrow> (byte list res \<times> net) option) \<Rightarrow>
   handlers \<Rightarrow> byte list \<Rightarrow> byte list \<Rightarrow> (byte list res \<times> byte list) option" where
  "exchange usend urecv dsend drecv hs txb req =
     (case usend req [] of
        Inl e \<Rightarrow> None
      | Inr n \<Rightarrow>
          (case urecv n of
             Some (Inr raw, _) \<Rightarrow>
               (case device hs txb raw of
                  Some (Some rsp, txb') \<Rightarrow>
                    (case dsend rsp [] of
                       Inl e \<Rightarrow> None
                     | Inr n \<Rightarrow> (case drecv n of None \<Rightarrow> None | Some (r, _) \<Rightarrow> Some (r, txb')))
                | _ \<Rightarrow> None)
           | _ \<Rightarrow> None))"

text \<open>The \<^verbatim>\<open>send\<close> of a transport as the session sees it.\<close>

definition link_tsend :: "(byte list \<Rightarrow> net \<Rightarrow> net res) \<Rightarrow> byte list \<Rightarrow> unit res" where
  "link_tsend send m = rbind (send m []) (\<lambda>_. Inr ())"

text \<open>A call only depends on what its transport does with the request.\<close>

lemma Rpc_call_send_cong:
  assumes "PayloadSerdes_pack (req_serdes r) args = Inr data" and "\<not> is_notification r"
    and "Msg_from_data (fst (next_txn s)) False (id_of r) data = Inr rq" and "snd (Msg_pack rq) = Inr req"
    and "tsend req = tsend' req"
  shows "Rpc_call rpcs callb tsend r args as s = Rpc_call rpcs callb tsend' r args as s"
proof -
  obtain t s1 where t: "next_txn s = (t, s1)" by fastforce
  have "transmit tsend (Inr rq) s1 = transmit tsend' (Inr rq) s1" using assms(4,5) by (simp add: transmit_def)
  then have "send_request tsend (id_of r) data s = send_request tsend' (id_of r) data s"
    using assms(3) t by (simp add: send_request_def)
  then show ?thesis using assms(1,2) by (simp add: Rpc_call_def Session_rpc_def)
qed

locale link_pair =
  up: frame_link usend urecv ufits + down: frame_link dsend drecv dfits
  for usend :: "byte list \<Rightarrow> net \<Rightarrow> net res" and urecv ufits and dsend :: "byte list \<Rightarrow> net \<Rightarrow> net res" and drecv dfits
begin

lemma exchange_returns:
  assumes "ufits req"
    and "\<And>pad. \<exists>rsp txb'. device hs txb (req @ pad) = Some (Some rsp, txb') \<and> length txb' = length txb \<and> dfits rsp \<and>
      (\<forall>pad'. good (rsp @ pad'))"
  shows "\<exists>raw txb'. exchange usend urecv dsend drecv hs txb req = Some (Inr raw, txb') \<and> length txb' = length txb \<and> good raw"
proof -
  obtain f pad where f: "usend req [] = Inr [f]" "urecv [f] = Some (Inr (req @ pad), [])"
    using up.deliver [OF assms(1)] by (metis append_Nil)
  obtain rsp txb' where rsp: "device hs txb (req @ pad) = Some (Some rsp, txb')" "length txb' = length txb" "dfits rsp"
    "\<forall>pad'. good (rsp @ pad')" using assms(2) by blast
  obtain f' pad' where f': "dsend rsp [] = Inr [f']" "drecv [f'] = Some (Inr (rsp @ pad'), [])"
    using down.deliver [OF rsp(3)] by (metis append_Nil)
  from f f' rsp show ?thesis by (simp add: exchange_def)
qed

lemma sends: "ufits req \<Longrightarrow> link_tsend usend req = Inr ()"
  using up.deliver [of req] by (auto simp: link_tsend_def)

text \<open>A call of a procedure of a generated protocol over both links.\<close>

lemma call_returns:
  assumes "txn_valid s" "alive s" "q s = []"
    and "register_all [] rs = Inr rpcs" "r \<in> set rs" "distinct (map name_of rs)"
    and "rpc_decorator (id_of r) False dir (name_of r) sg = Inr r"
    and "c_functions e rs = Inr p" "list_all (rpc_usable env) rs" "names_ok env"
    and "rpc_runs env r t" "implements self static r f t (hdl (name_of r))"
    and "PayloadSerdes_pack (req_serdes r) args = Inr data" "list_all2 wt (types (req_serdes r)) args"
    and "Msg_from_data (fst (next_txn s)) False (id_of r) data = Inr rq" "snd (Msg_pack rq) = Inr req"
    and "payload_size [t] [f args] \<le> 1020" "4 + 4 * words (payload_size [t] [f args]) \<le> length txb"
    and "ufits req"
    and "\<And>rsp. rsp \<noteq> [] \<Longrightarrow> length rsp = 4 + 4 * words (payload_size [t] [f args]) \<Longrightarrow>
      int (length rsp) = 4 + 4 * uint (hd rsp) \<Longrightarrow> dfits rsp"
  shows "\<exists>raw txb' s'. exchange usend urecv dsend drecv (generated_switch self static e rs p hdl) txb req = Some (Inr raw, txb') \<and> length txb' = length txb \<and>
    Rpc_call rpcs callb (link_tsend usend) r args [Inr raw] s = (Inr (Some (f args)), s') \<and>
    sent s' = sent s @ [req] \<and> q s' = [] \<and> alive s' \<and> txn_valid s'"
proof -
  let ?hs = "generated_switch self static e rs p hdl"
  let ?good = "\<lambda>raw. \<exists>s'. Rpc_call rpcs callb (\<lambda>_. Inr ()) r args [Inr raw] s = (Inr (Some (f args)), s') \<and>
      sent s' = sent s @ [req] \<and> q s' = [] \<and> alive s' \<and> txn_valid s'"
  have "\<exists>rsp txb'. device ?hs txb (req @ pad) = Some (Some rsp, txb') \<and> length txb' = length txb \<and> dfits rsp \<and>
      (\<forall>pad'. ?good (rsp @ pad'))" for pad
  proof -
    have "\<exists>n txb'. compost_msg_process ?hs (Some txb) (Some (req @ pad)) = Some (int n, Some txb') \<and>
        n = 4 + 4 * words (payload_size [t] [f args]) \<and> length txb' = length txb \<and>
        uint (hd (take n txb')) = int (words (payload_size [t] [f args])) \<and> (\<forall>pad'. ?good (take n txb' @ pad'))"
      by (rule generated_call) (use assms in blast)+
    then obtain n txb' where n: "compost_msg_process ?hs (Some txb) (Some (req @ pad)) = Some (int n, Some txb')"
      "n = 4 + 4 * words (payload_size [t] [f args])" "length txb' = length txb"
      "uint (hd (take n txb')) = int (words (payload_size [t] [f args]))" "\<forall>pad'. ?good (take n txb' @ pad')" by blast
    have l: "length (take n txb') = n" "0 < n" using n(2,3) assms(18) by simp_all
    have ne: "take n txb' \<noteq> []" using l by (metis length_greater_0_conv)
    have "length (take n txb') = 4 + 4 * words (payload_size [t] [f args])"
      "int (length (take n txb')) = 4 + 4 * uint (hd (take n txb'))" unfolding n(4) l(1) using n(2) by simp_all
    then have "dfits (take n txb')" using assms(20) [OF ne] by blast
    moreover have "device ?hs txb (req @ pad) = Some (Some (take n txb'), txb')" using n(1) l(2) by (simp add: device_def)
    ultimately show ?thesis using n(3,5) by blast
  qed
  then obtain raw txb' where "exchange usend urecv dsend drecv ?hs txb req = Some (Inr raw, txb')" "length txb' = length txb" "?good raw"
    using exchange_returns [OF assms(19), of ?hs txb ?good] by blast
  moreover have "Rpc_call rpcs callb (link_tsend usend) r args as s = Rpc_call rpcs callb (\<lambda>_. Inr ()) r args as s" for as
    using sends [OF assms(19)] decorated_rpc(1) [OF assms(7)] assms(13,15,16) by (intro Rpc_call_send_cong) auto
  ultimately show ?thesis by auto
qed

end

interpretation udp_pair: link_pair UdpTransport_send UdpTransport_receive "\<lambda>m. length m \<le> 1500"
  UdpTransport_send UdpTransport_receive "\<lambda>m. length m \<le> 1500" ..

interpretation eth_pair: link_pair "RawEthernetTransport_send e" RawEthernetTransport_receive
  "\<lambda>m. length (mac_adresses e) = 12 \<and> length m \<le> 1522" "RawEthernetTransport_send e'" RawEthernetTransport_receive
  "\<lambda>m. length (mac_adresses e') = 12 \<and> length m \<le> 1522" for e e' ..

interpretation can_pair: link_pair "SocketCanFdTransport_send little h" "SocketCanFdTransport_receive little d" "can_fits h d"
  "SocketCanFdTransport_send little d" "SocketCanFdTransport_receive little h" "can_fits d h" for little h d ..

section \<open>Notifications\<close>

context frame_link
begin

lemma notification_arrives:
  assumes "fits m" and "\<And>pad. receiver_round rpcs callb (Inr (m @ pad)) s = s'"
  shows "\<exists>n r. send m [] = Inr n \<and> receive n = Some (r, []) \<and> receiver_round rpcs callb r s = s'"
proof -
  obtain f pad where "send m [] = Inr [f]" "receive [f] = Some (Inr (m @ pad), [])" using deliver [OF assms(1)] by (metis append_Nil)
  with assms(2) show ?thesis by blast
qed

end

text \<open>A notification of the device over UDP: its padded datagram makes the listener call every subscriber.\<close>

lemma udp_notification_delivered:
  assumes "c_functions e rs = Inr p" "list_all (rpc_usable env) rs" "names_ok env"
    and "r \<in> set rs" "is_call_outbound e r" "rpc_decorator (id_of r) True dir (name_of r) sg = Inr r"
    and "map_of rpcs (id_of r) = Some (r\<lparr>subscribers := cbs\<rparr>)" "0 \<le> id_of r" "id_of r < 4096"
    and "ts = types (req_serdes r)" "list_all (\<lambda>t. c_supported t \<and> flat t) ts" "in_step ts" "list_all2 wt ts args"
    and "n = payload_size ts args" "n \<le> 1020" "tx + 4 + 4 * words n \<le> length m"
    and "cargs m (placed (length m) (tx + 4) (tx + 4 + n)) ts args cs"
    and "\<forall>cb \<in> set cbs. callb cb args = Inr ()"
  shows "\<exists>b k m' net x. (r, b) \<in> set (notif_bodies p) \<and>
    exec_notif self (rev (type_fns p)) b (word_of_int (id_of r)) cs m tx = Some (int k, m') \<and>
    UdpTransport_send (slice tx k m') [] = Inr net \<and> UdpTransport_receive net = Some (x, []) \<and>
    receiver_round rpcs callb x s = s\<lparr>notified := notified s @ map (\<lambda>cb. (cb, args)) cbs\<rparr>"
proof -
  obtain b k m' where b: "(r, b) \<in> set (notif_bodies p)"
    "exec_notif self (rev (type_fns p)) b (word_of_int (id_of r)) cs m tx = Some (int k, m')" "k = 4 + 4 * words n"
    "\<And>pad. receiver_round rpcs callb (Inr (slice tx k m' @ pad)) s = s\<lparr>notified := notified s @ map (\<lambda>cb. (cb, args)) cbs\<rparr>"
    using notification_delivered [where callb = callb and args = args and self = self and s = s, OF assms] by blast
  have "words n < 256" using words_byte assms(15) by blast
  then have "length (slice tx k m') \<le> 1500" using b(3) by (simp add: slice_def)
  from udp.notification_arrives [OF this b(4)] b(1,2) show ?thesis by blast
qed

section \<open>Properties\<close>

text \<open>The request of the example with two hosts, for the numbers 1 and 2.\<close>

lemma add_int_request:
  "PayloadSerdes_pack (req_serdes add_int) [VInt 1, VInt 2] = Inr [0, 0, 0, 1, 0, 0, 0, 2]"
  "Msg_from_data (fst (next_txn Session_init)) False (id_of add_int) [0, 0, 0, 1, 0, 0, 0, 2] =
     Inr \<lparr>msg_header = \<lparr>len = 2, txn = 2, resp = False, rpc_id = 0xC00\<rparr>, payload = [0, 0, 0, 1, 0, 0, 0, 2]\<rparr>"
  "snd (Msg_pack \<lparr>msg_header = \<lparr>len = 2, txn = 2, resp = False, rpc_id = 0xC00\<rparr>, payload = [0, 0, 0, 1, 0, 0, 0, 2]\<rparr>) =
     Inr [2, 2, 12, 0, 0, 0, 0, 1, 0, 0, 0, 2]"
  "txn_valid Session_init" "alive Session_init" "q Session_init = []"
  "list_all2 wt (types (req_serdes add_int)) [VInt 1, VInt 2]"
  "payload_size [TNum U32] [VInt 3] = 4" "sum32 [VInt 1, VInt 2] = VInt 3" "words 4 = 1"
  unfolding add_int_parts
  by (code_simp, code_simp, code_simp, simp_all add: Session_init_def txn_valid_def fmt_range_def payload_size_def mu_bytes_def
      BITS_PER_BYTE_def sum32_def words_def)

text \<open>
  C25. A call over UDP: the request is padded into a datagram, the device processes the datagram with its padding, its
  response is padded into another datagram, and the call returns what the remote function computes.
\<close>

theorem udp_call_returns:
  assumes "txn_valid s" "alive s" "q s = []"
    and "register_all [] rs = Inr rpcs" "r \<in> set rs" "distinct (map name_of rs)"
    and "rpc_decorator (id_of r) False dir (name_of r) sg = Inr r"
    and "c_functions e rs = Inr p" "list_all (rpc_usable env) rs" "names_ok env"
    and "rpc_runs env r t" "implements self static r f t (hdl (name_of r))"
    and "PayloadSerdes_pack (req_serdes r) args = Inr data" "list_all2 wt (types (req_serdes r)) args"
    and "Msg_from_data (fst (next_txn s)) False (id_of r) data = Inr rq" "snd (Msg_pack rq) = Inr req"
    and "payload_size [t] [f args] \<le> 1020" "4 + 4 * words (payload_size [t] [f args]) \<le> length txb"
  shows "\<exists>raw txb' s'. exchange UdpTransport_send UdpTransport_receive UdpTransport_send UdpTransport_receive
      (generated_switch self static e rs p hdl) txb req = Some (Inr raw, txb') \<and> length txb' = length txb \<and>
    Rpc_call rpcs callb (link_tsend UdpTransport_send) r args [Inr raw] s = (Inr (Some (f args)), s') \<and>
    sent s' = sent s @ [req] \<and> q s' = [] \<and> alive s' \<and> txn_valid s'"
proof -
  have "words (payload_size [t] [f args]) < 256" using words_byte assms(17) by blast
  then have rsp: "length rsp \<le> 1500" if "length rsp = 4 + 4 * words (payload_size [t] [f args])" for rsp :: "byte list"
    using that by simp
  have req: "length req \<le> 1500" using packed_message_size(3) [OF assms(15,16)] by simp
  show ?thesis by (rule udp_pair.call_returns [where f = f and hdl = hdl, OF assms(1-18) req rsp])
qed

theorem udp_call_returns_witness:
  "\<exists>p. c_functions REMOTE [add_int] = Inr p \<and> (\<exists>raw txb' s'.
    exchange UdpTransport_send UdpTransport_receive UdpTransport_send UdpTransport_receive
      (generated_switch True [] REMOTE [add_int] p (\<lambda>_. add_int_handler)) (replicate 8 0)
      [2, 2, 12, 0, 0, 0, 0, 1, 0, 0, 0, 2] = Some (Inr raw, txb') \<and> length txb' = length (replicate 8 (0 :: byte)) \<and>
    Rpc_call [(0xC00, add_int)] (\<lambda>_ _. Inr ()) (link_tsend UdpTransport_send) add_int [VInt 1, VInt 2] [Inr raw] Session_init =
      (Inr (Some (VInt 3)), s'))"
proof -
  note r = add_int_request
  obtain p where p: "c_functions REMOTE [add_int] = Inr p" using add_int_ready(3) by blast
  have "\<exists>raw txb' s'. exchange UdpTransport_send UdpTransport_receive UdpTransport_send UdpTransport_receive
      (generated_switch True [] REMOTE [add_int] p (\<lambda>_. add_int_handler)) (replicate 8 0)
      [2, 2, 12, 0, 0, 0, 0, 1, 0, 0, 0, 2] = Some (Inr raw, txb') \<and> length txb' = length (replicate 8 (0 :: byte)) \<and>
    Rpc_call [(0xC00, add_int)] (\<lambda>_ _. Inr ()) (link_tsend UdpTransport_send) add_int [VInt 1, VInt 2] [Inr raw] Session_init =
      (Inr (Some (sum32 [VInt 1, VInt 2])), s') \<and>
    sent s' = sent Session_init @ [[2, 2, 12, 0, 0, 0, 0, 1, 0, 0, 0, 2]] \<and> q s' = [] \<and> alive s' \<and> txn_valid s'"
    by (rule udp_call_returns [OF r(4-6) add_int_ready(1) _ _ add_int_ready(2) p add_int_ready(4-6) add_int_implements
        r(1,7) r(2,3)]) (simp_all add: r)
  then show ?thesis using p by (auto simp: r)
qed

text \<open>The same over raw Ethernet frames between two interfaces with hardware addresses.\<close>

lemma ethernet_call_returns:
  assumes "RawEthernetTransport_init dst src = Inr eth" and "RawEthernetTransport_init src' dst' = Inr eth'"
    and "txn_valid s" "alive s" "q s = []"
    and "register_all [] rs = Inr rpcs" "r \<in> set rs" "distinct (map name_of rs)"
    and "rpc_decorator (id_of r) False dir (name_of r) sg = Inr r"
    and "c_functions e rs = Inr p" "list_all (rpc_usable env) rs" "names_ok env"
    and "rpc_runs env r t" "implements self static r f t (hdl (name_of r))"
    and "PayloadSerdes_pack (req_serdes r) args = Inr data" "list_all2 wt (types (req_serdes r)) args"
    and "Msg_from_data (fst (next_txn s)) False (id_of r) data = Inr rq" "snd (Msg_pack rq) = Inr req"
    and "payload_size [t] [f args] \<le> 1020" "4 + 4 * words (payload_size [t] [f args]) \<le> length txb"
  shows "\<exists>raw txb' s'. exchange (RawEthernetTransport_send eth) RawEthernetTransport_receive (RawEthernetTransport_send eth')
      RawEthernetTransport_receive (generated_switch self static e rs p hdl) txb req = Some (Inr raw, txb') \<and> length txb' = length txb \<and>
    Rpc_call rpcs callb (link_tsend (RawEthernetTransport_send eth)) r args [Inr raw] s = (Inr (Some (f args)), s') \<and>
    sent s' = sent s @ [req] \<and> q s' = [] \<and> alive s' \<and> txn_valid s'"
proof -
  have "words (payload_size [t] [f args]) < 256" using words_byte assms(19) by blast
  moreover have m: "length (mac_adresses eth) = 12" "length (mac_adresses eth') = 12"
    using assms(1,2) by (auto simp: RawEthernetTransport_init_def split: if_splits)
  ultimately have rsp: "length (mac_adresses eth') = 12 \<and> length rsp \<le> 1522"
    if "length rsp = 4 + 4 * words (payload_size [t] [f args])" for rsp :: "byte list" using that by simp
  have req: "length (mac_adresses eth) = 12 \<and> length req \<le> 1522"
    using m packed_message_size(3) [OF assms(17,18)] by simp
  show ?thesis by (rule eth_pair.call_returns [where f = f and hdl = hdl, OF assms(3-20) req rsp])
qed

lemma Rpc_call_send_error:
  assumes "PayloadSerdes_pack (req_serdes r) args = Inr data" and "\<not> is_notification r"
    and "Msg_from_data (fst (next_txn s)) False (id_of r) data = Inr rq" and "snd (Msg_pack rq) = Inr req"
    and "tsend req = Inl err"
  shows "fst (Rpc_call rpcs callb tsend r args as s) = Inl err"
proof -
  obtain t s1 where t: "next_txn s = (t, s1)" by fastforce
  have "transmit tsend (Inr rq) s1 = (Inl err, s1\<lparr>sent := sent s1 @ [req]\<rparr>)" using assms(4,5) by (simp add: transmit_def)
  then show ?thesis using assms(1-3) t by (simp add: Rpc_call_def Session_rpc_def send_request_def)
qed

text \<open>
  C27. A call over CAN FD, between a host and a device that listen to each other's identifiers, returns what the
  remote function computes if request and response have at most 64 bytes; a longer request raises \<^verbatim>\<open>ValueError\<close>.
\<close>

theorem can_call_returns:
  assumes "can_id_rx d = can_id_tx h" "0 \<le> can_id_tx h" "can_id_tx h < 2 ^ 32"
    and "can_id_rx h = can_id_tx d" "0 \<le> can_id_tx d" "can_id_tx d < 2 ^ 32"
    and "txn_valid s" "alive s" "q s = []"
    and "register_all [] rs = Inr rpcs" "r \<in> set rs" "distinct (map name_of rs)"
    and "rpc_decorator (id_of r) False dir (name_of r) sg = Inr r"
    and "c_functions e rs = Inr p" "list_all (rpc_usable env) rs" "names_ok env"
    and "rpc_runs env r t" "implements self static r f t (hdl (name_of r))"
    and "PayloadSerdes_pack (req_serdes r) args = Inr data" "list_all2 wt (types (req_serdes r)) args"
    and "Msg_from_data (fst (next_txn s)) False (id_of r) data = Inr rq" "snd (Msg_pack rq) = Inr req"
    and "4 + 4 * words (payload_size [t] [f args]) \<le> min 64 (length txb)"
  shows "if length req \<le> 64
    then \<exists>raw txb' s'. exchange (SocketCanFdTransport_send little h) (SocketCanFdTransport_receive little d)
        (SocketCanFdTransport_send little d) (SocketCanFdTransport_receive little h)
        (generated_switch self static e rs p hdl) txb req = Some (Inr raw, txb') \<and> length txb' = length txb \<and>
      Rpc_call rpcs callb (link_tsend (SocketCanFdTransport_send little h)) r args [Inr raw] s = (Inr (Some (f args)), s') \<and>
      sent s' = sent s @ [req] \<and> q s' = [] \<and> alive s' \<and> txn_valid s'
    else fst (Rpc_call rpcs callb (link_tsend (SocketCanFdTransport_send little h)) r args as s) = Inl ValueError"
proof -
  note sz = packed_message_size [OF assms(21,22)]
  show ?thesis
  proof (cases "length req \<le> 64")
    case True
    then have req: "can_fits h d req" using sz assms(1-3) by (simp add: can_fits_def)
    have size: "payload_size [t] [f args] \<le> 1020" "4 + 4 * words (payload_size [t] [f args]) \<le> length txb"
      using assms(23) words_bounds(1) [of "payload_size [t] [f args]"] by simp_all
    have rsp: "can_fits d h rsp"
      if "rsp \<noteq> []" "length rsp = 4 + 4 * words (payload_size [t] [f args])" "int (length rsp) = 4 + 4 * uint (hd rsp)" for rsp
      using that assms(4-6,23) by (simp add: can_fits_def)
    show ?thesis
      using True can_pair.call_returns [where f = f and hdl = hdl and callb = callb, OF assms(7-22) size req rsp] by simp
  next
    case False
    obtain b where "req = b # tl req" "uint b = int (words (length data))" using sz(4,5) by (cases req) auto
    then have "SocketCanFdTransport_send little h req [] = Inl ValueError"
      using False sz(2) by (cases req) (auto simp: SocketCanFdTransport_send_def Let_def)
    then have "fst (Rpc_call rpcs callb (link_tsend (SocketCanFdTransport_send little h)) r args as s) = Inl ValueError"
      using decorated_rpc(1) [OF assms(13)] assms(19,21,22) by (intro Rpc_call_send_error) (auto simp: link_tsend_def)
    with False show ?thesis by simp
  qed
qed

theorem can_call_returns_witness:
  "\<exists>p. c_functions REMOTE [add_int] = Inr p \<and> (\<exists>raw txb' s'.
    exchange (SocketCanFdTransport_send True \<lparr>can_id_rx = 2, can_id_tx = 1\<rparr>) (SocketCanFdTransport_receive True \<lparr>can_id_rx = 1, can_id_tx = 2\<rparr>)
      (SocketCanFdTransport_send True \<lparr>can_id_rx = 1, can_id_tx = 2\<rparr>) (SocketCanFdTransport_receive True \<lparr>can_id_rx = 2, can_id_tx = 1\<rparr>)
      (generated_switch True [] REMOTE [add_int] p (\<lambda>_. add_int_handler)) (replicate 8 0)
      [2, 2, 12, 0, 0, 0, 0, 1, 0, 0, 0, 2] = Some (Inr raw, txb') \<and> length txb' = length (replicate 8 (0 :: byte)) \<and>
    Rpc_call [(0xC00, add_int)] (\<lambda>_ _. Inr ()) (link_tsend (SocketCanFdTransport_send True \<lparr>can_id_rx = 2, can_id_tx = 1\<rparr>)) add_int
      [VInt 1, VInt 2] [Inr raw] Session_init = (Inr (Some (VInt 3)), s'))"
proof -
  note r = add_int_request
  obtain p where p: "c_functions REMOTE [add_int] = Inr p" using add_int_ready(3) by blast
  let ?h = "\<lparr>can_id_rx = 2, can_id_tx = 1\<rparr>" and ?d = "\<lparr>can_id_rx = 1, can_id_tx = 2\<rparr>"
  have ids: "can_id_rx ?d = can_id_tx ?h" "0 \<le> can_id_tx ?h" "can_id_tx ?h < 2 ^ 32"
    "can_id_rx ?h = can_id_tx ?d" "0 \<le> can_id_tx ?d" "can_id_tx ?d < 2 ^ 32" by simp_all
  have "4 + 4 * words (payload_size [TNum U32] [sum32 [VInt 1, VInt 2]]) \<le> min 64 (length (replicate 8 (0 :: byte)))" by (simp add: r)
  from can_call_returns [where hdl = "\<lambda>_. add_int_handler" and self = True and static = "[]" and little = True
      and callb = "\<lambda>_ _. Inr ()", OF ids r(4-6) add_int_ready(1) _ _ add_int_ready(2) p add_int_ready(4-6) add_int_implements r(1,7) r(2,3) this] p
  show ?thesis by (auto simp: r)
qed

text \<open>A message whose first byte announces its length is read whole from the fragment in which it arrived.\<close>

lemma tcp_message_received:
  assumes "length rsp = 4 + 4 * n" and "uint (hd rsp) = int n" and "incoming k = (rsp @ x) # fs"
  shows "TcpTransport_receive k = (Inr rsp, k\<lparr>incoming := x # fs\<rparr>)"
proof -
  obtain a b c d body where r: "rsp = [a, b, c, d] @ body" using assms(1) by (auto simp: numeral_eq_Suc length_Suc_conv)
  show ?thesis
    unfolding r
  proof (rule fragment_receive)
    show "Header_unpack [a, b, c, d] = Inr \<lparr>len = uint a, txn = uint b, resp = odd ((uint c * 256 + uint d) div 4096),
        rpc_id = (uint c * 256 + uint d) mod 4096\<rparr>" by (rule Header_unpack_bytes)
  qed (use assms r in \<open>simp_all add: payload_byte_len_def\<close>)
qed

text \<open>
  C26. A call over TCP: what the transport writes, in whatever portions the kernel takes it, is the request that the
  device processes; when the response arrives in one fragment, alone or with the beginning of the next message, it is
  received whole and the call returns what the remote function computes.
\<close>

theorem tcp_call_returns:
  assumes "txn_valid s" "alive s" "q s = []"
    and "register_all [] rs = Inr rpcs" "r \<in> set rs" "distinct (map name_of rs)"
    and "rpc_decorator (id_of r) False dir (name_of r) sg = Inr r"
    and "c_functions e rs = Inr p" "list_all (rpc_usable env) rs" "names_ok env"
    and "rpc_runs env r t" "implements self static r f t (hdl (name_of r))"
    and "PayloadSerdes_pack (req_serdes r) args = Inr data" "list_all2 wt (types (req_serdes r)) args"
    and "Msg_from_data (fst (next_txn s)) False (id_of r) data = Inr rq" "snd (Msg_pack rq) = Inr req"
    and "payload_size [t] [f args] \<le> 1020" "4 + 4 * words (payload_size [t] [f args]) \<le> length txb"
  shows "\<exists>rsp txb'. device (generated_switch self static e rs p hdl) txb
      (drop (length (outgoing k)) (outgoing (TcpTransport_send req k))) = Some (Some rsp, txb') \<and> length txb' = length txb \<and>
    (\<forall>k' x fs. incoming k' = (rsp @ x) # fs \<longrightarrow> (\<exists>raw s'. TcpTransport_receive k' = (Inr raw, k'\<lparr>incoming := x # fs\<rparr>) \<and>
       Rpc_call rpcs callb (\<lambda>_. Inr ()) r args [Inr raw] s = (Inr (Some (f args)), s') \<and>
       sent s' = sent s @ [req] \<and> q s' = [] \<and> alive s' \<and> txn_valid s'))"
proof -
  let ?hs = "generated_switch self static e rs p hdl" and ?n = "words (payload_size [t] [f args])"
  let ?good = "\<lambda>raw. \<exists>s'. Rpc_call rpcs callb (\<lambda>_. Inr ()) r args [Inr raw] s = (Inr (Some (f args)), s') \<and>
      sent s' = sent s @ [req] \<and> q s' = [] \<and> alive s' \<and> txn_valid s'"
  have req: "drop (length (outgoing k)) (outgoing (TcpTransport_send req k)) = req @ []"
    using TcpTransport_send_loop_wire [of req 0 k] by (simp add: TcpTransport_send_def)
  have "\<exists>n txb'. compost_msg_process ?hs (Some txb) (Some (req @ [])) = Some (int n, Some txb') \<and>
      n = 4 + 4 * ?n \<and> length txb' = length txb \<and> uint (hd (take n txb')) = int ?n \<and> (\<forall>pad'. ?good (take n txb' @ pad'))"
    by (rule generated_call) (use assms in blast)+
  then obtain n txb' where n: "compost_msg_process ?hs (Some txb) (Some (req @ [])) = Some (int n, Some txb')"
    "n = 4 + 4 * ?n" "length txb' = length txb" "uint (hd (take n txb')) = int ?n" "\<forall>pad'. ?good (take n txb' @ pad')" by blast
  have l: "length (take n txb') = 4 + 4 * ?n" using n(2,3) assms(18) by simp
  have "?good (take n txb')" using n(5) [rule_format, of "[]"] by simp
  moreover have "TcpTransport_receive k' = (Inr (take n txb'), k'\<lparr>incoming := x # fs\<rparr>)"
    if "incoming k' = (take n txb' @ x) # fs" for k' x fs
    by (rule tcp_message_received [OF l n(4) that])
  moreover have "device ?hs txb (req @ []) = Some (Some (take n txb'), txb')"
    using n(1) l by (simp add: device_def del: append_Nil2)
  ultimately show ?thesis unfolding req using n(3) by blast
qed

theorem tcp_call_returns_witness:
  "\<exists>p. c_functions REMOTE [add_int] = Inr p \<and> (\<exists>rsp txb'.
    device (generated_switch True [] REMOTE [add_int] p (\<lambda>_. add_int_handler)) (replicate 8 0)
      (outgoing (TcpTransport_send [2, 2, 12, 0, 0, 0, 0, 1, 0, 0, 0, 2] \<lparr>incoming = [], outgoing = [], takes = [5, 1]\<rparr>)) = Some (Some rsp, txb') \<and>
    (\<exists>raw s'. TcpTransport_receive \<lparr>incoming = [rsp @ [7]], outgoing = [], takes = []\<rparr> = (Inr raw, s') \<and>
       fst (Rpc_call [(0xC00, add_int)] (\<lambda>_ _. Inr ()) (\<lambda>_. Inr ()) add_int [VInt 1, VInt 2] [Inr raw] Session_init) =
         Inr (Some (VInt 3))))"
proof -
  note r = add_int_request
  obtain p where p: "c_functions REMOTE [add_int] = Inr p" using add_int_ready(3) by blast
  let ?k = "\<lparr>incoming = [], outgoing = [], takes = [5, 1]\<rparr> :: sock"
  have "\<exists>rsp txb'. device (generated_switch True [] REMOTE [add_int] p (\<lambda>_. add_int_handler)) (replicate 8 0)
      (drop (length (outgoing ?k)) (outgoing (TcpTransport_send [2, 2, 12, 0, 0, 0, 0, 1, 0, 0, 0, 2] ?k))) = Some (Some rsp, txb') \<and> length txb' = length (replicate 8 (0 :: byte)) \<and>
    (\<forall>k' x fs. incoming k' = (rsp @ x) # fs \<longrightarrow> (\<exists>raw s'. TcpTransport_receive k' = (Inr raw, k'\<lparr>incoming := x # fs\<rparr>) \<and>
       Rpc_call [(0xC00, add_int)] (\<lambda>_ _. Inr ()) (\<lambda>_. Inr ()) add_int [VInt 1, VInt 2] [Inr raw] Session_init =
         (Inr (Some (sum32 [VInt 1, VInt 2])), s') \<and>
       sent s' = sent Session_init @ [[2, 2, 12, 0, 0, 0, 0, 1, 0, 0, 0, 2]] \<and> q s' = [] \<and> alive s' \<and> txn_valid s'))"
    by (rule tcp_call_returns [OF r(4-6) add_int_ready(1) _ _ add_int_ready(2) p add_int_ready(4-6) add_int_implements
        r(1,7) r(2,3)]) (simp_all add: r)
  then obtain rsp txb' where rsp: "device (generated_switch True [] REMOTE [add_int] p (\<lambda>_. add_int_handler)) (replicate 8 0)
      (drop (length (outgoing ?k)) (outgoing (TcpTransport_send [2, 2, 12, 0, 0, 0, 0, 1, 0, 0, 0, 2] ?k))) = Some (Some rsp, txb')"
    "\<exists>raw s'. TcpTransport_receive \<lparr>incoming = [rsp @ [7]], outgoing = [], takes = []\<rparr> = (Inr raw, s')  \<and>
      fst (Rpc_call [(0xC00, add_int)] (\<lambda>_ _. Inr ()) (\<lambda>_. Inr ()) add_int [VInt 1, VInt 2] [Inr raw] Session_init) =
        Inr (Some (VInt 3))" unfolding r(9) by (metis fst_conv sock.select_convs(1))
  then show ?thesis using p by auto
qed

end
