(* ===== verification/Conversation.thy ===== *)
theory Conversation
  imports Network
begin

text \<open>
  The host and the device as one system: each call of the host makes its own request from the state of the session, the
  request and the response cross a pair of links, and the session and the transmit buffer of the device go on to the
  next call.
\<close>

section \<open>A call in the system\<close>

text \<open>The message that \<^verbatim>\<open>Rpc.__call__\<close> of a procedure that is not a notification gives to its transport.\<close>

definition request_of :: "rpc \<Rightarrow> pyval list \<Rightarrow> session \<Rightarrow> byte list res" where
  "request_of r args s =
     rbind (PayloadSerdes_pack (req_serdes r) args) (\<lambda>data.
     rbind (Msg_from_data (fst (next_txn s)) False (id_of r) data) (\<lambda>m. snd (Msg_pack m)))"

type_synonym link = "(byte list \<Rightarrow> net \<Rightarrow> net res) \<times> (net \<Rightarrow> (byte list res \<times> net) option)"
type_synonym system = "session \<times> byte list"

text \<open>
  The outcome of the call and the system afterwards, or \<open>None\<close> when the device answers nothing.  A request that cannot be
  made or sent is an exception of the call, and reaches no device.
\<close>

definition system_call :: "link \<Rightarrow> link \<Rightarrow> registry \<Rightarrow> (callback \<Rightarrow> pyval list \<Rightarrow> unit res) \<Rightarrow> handlers \<Rightarrow>
    rpc \<times> pyval list \<Rightarrow> system \<Rightarrow> (pyval option res \<times> system) option" where
  "system_call up down rpcs callb hs c st =
     (case (c, st) of ((r, args), (s, txb)) \<Rightarrow>
        let call = (\<lambda>arrivals. Rpc_call rpcs callb (link_tsend (fst up)) r args arrivals s) in
        (case rbind (request_of r args s) (\<lambda>req. rbind (fst up req []) (\<lambda>_. Inr req)) of
           Inl e \<Rightarrow> Some (fst (call []), (snd (call []), txb))
         | Inr req \<Rightarrow>
             (case exchange (fst up) (snd up) (fst down) (snd down) hs txb req of
                None \<Rightarrow> None
              | Some (raw, txb') \<Rightarrow> Some (fst (call [raw]), (snd (call [raw]), txb')))))"

fun conversation :: "link \<Rightarrow> link \<Rightarrow> registry \<Rightarrow> (callback \<Rightarrow> pyval list \<Rightarrow> unit res) \<Rightarrow> handlers \<Rightarrow>
    (rpc \<times> pyval list) list \<Rightarrow> system \<Rightarrow> (pyval option res list \<times> system) option" where
  "conversation up down rpcs callb hs [] st = Some ([], st)"
| "conversation up down rpcs callb hs (c # cs) st =
     (case system_call up down rpcs callb hs c st of
        None \<Rightarrow> None
      | Some (x, st) \<Rightarrow>
          (case conversation up down rpcs callb hs cs st of
             None \<Rightarrow> None
           | Some (xs, st) \<Rightarrow> Some (x # xs, st)))"

section \<open>Every call returns\<close>

definition ready :: "session \<Rightarrow> bool" where
  "ready s \<longleftrightarrow> txn_valid s \<and> alive s \<and> q s = []"

text \<open>
  A call that the device serves: \<open>F r\<close> is the function that the procedure computes, \<open>T r\<close> the type of its result, and
  both payloads fit a message and the transmit buffer.
\<close>

definition servable :: "bool \<Rightarrow> cmem \<Rightarrow> (string \<Rightarrow> members option) \<Rightarrow> rpc list \<Rightarrow> (string \<Rightarrow> c_handler) \<Rightarrow>
    (rpc \<Rightarrow> pyval list \<Rightarrow> pyval) \<Rightarrow> (rpc \<Rightarrow> ctype) \<Rightarrow> nat \<Rightarrow> rpc \<times> pyval list \<Rightarrow> bool" where
  "servable self static env rs hdl F T room c \<longleftrightarrow>
     (case c of (r, args) \<Rightarrow>
        r \<in> set rs \<and> (\<exists>dir sg. rpc_decorator (id_of r) False dir (name_of r) sg = Inr r) \<and>
        rpc_runs env r (T r) \<and> implements self static r (F r) (T r) (hdl (name_of r)) \<and>
        list_all flat (types (req_serdes r)) \<and> list_all2 wt (types (req_serdes r)) args \<and>
        payload_size (types (req_serdes r)) args \<le> 1020 \<and>
        payload_size [T r] [F r args] \<le> 1020 \<and> 4 + 4 * words (payload_size [T r] [F r args]) \<le> room)"

lemma request_made:
  assumes "list_all2 wt (types (req_serdes r)) args" and "list_all flat (types (req_serdes r))"
    and "payload_size (types (req_serdes r)) args \<le> 1020" and "txn_valid s"
  shows "\<exists>data rq req. PayloadSerdes_pack (req_serdes r) args = Inr data \<and>
    Msg_from_data (fst (next_txn s)) False (id_of r) data = Inr rq \<and> snd (Msg_pack rq) = Inr req \<and> request_of r args s = Inr req"
proof -
  obtain data where data: "pack_payload (types (req_serdes r)) args = Inr data"
    using pack_payload_fits [OF assms(1,2)] assms(3) by auto
  have l: "length data \<le> 1020" using pack_payload_length(1) [OF data assms(1)] assms(3) by simp
  have t: "0 \<le> fst (next_txn s)" "fst (next_txn s) < 256" using next_txn_range [OF assms(4)] by simp_all
  obtain rq req where rq: "Msg_from_data (fst (next_txn s)) False (id_of r) data = Inr rq" "snd (Msg_pack rq) = Inr req"
    using transmit_ok [OF l t, of "\<lambda>_. Inr ()" False "id_of r" s] by auto
  then show ?thesis using data by (auto simp: PayloadSerdes_pack_def request_of_def)
qed

context link_pair
begin

lemma served_call:
  assumes "ready s" and "register_all [] rs = Inr rpcs" "distinct (map name_of rs)"
    and "c_functions e rs = Inr p" "list_all (rpc_usable env) rs" "names_ok env"
    and "servable self static env rs hdl F T (length txb) (r, args)"
    and fits: "\<And>m. length m \<le> 1024 \<Longrightarrow> ufits m" "\<And>m. length m \<le> 1024 \<Longrightarrow> dfits m"
  shows "\<exists>s' txb' req. system_call (usend, urecv) (dsend, drecv) rpcs callb (generated_switch self static e rs p hdl) (r, args) (s, txb) =
      Some (Inr (Some (F r args)), (s', txb')) \<and> ready s' \<and> length txb' = length txb \<and>
    request_of r args s = Inr req \<and> sent s' = sent s @ [req]"
proof -
  have s: "txn_valid s" "alive s" "q s = []" using assms(1) by (simp_all add: ready_def)
  obtain dir sg where c: "r \<in> set rs" "rpc_decorator (id_of r) False dir (name_of r) sg = Inr r" "rpc_runs env r (T r)"
    "implements self static r (F r) (T r) (hdl (name_of r))" "list_all flat (types (req_serdes r))"
    "list_all2 wt (types (req_serdes r)) args" "payload_size (types (req_serdes r)) args \<le> 1020"
    "payload_size [T r] [F r args] \<le> 1020" "4 + 4 * words (payload_size [T r] [F r args]) \<le> length txb"
    using assms(7) by (auto simp: servable_def)
  obtain data rq req where rq: "PayloadSerdes_pack (req_serdes r) args = Inr data"
    "Msg_from_data (fst (next_txn s)) False (id_of r) data = Inr rq" "snd (Msg_pack rq) = Inr req" "request_of r args s = Inr req"
    using request_made [OF c(6,5,7) s(1)] by blast
  have req: "ufits req" using packed_message_size(3) [OF rq(2,3)] by (rule fits)
  have "words (payload_size [T r] [F r args]) < 256" using words_byte c(8) by blast
  then have rsp: "dfits rsp" if "length rsp = 4 + 4 * words (payload_size [T r] [F r args])" for rsp
    using that by (intro fits) simp
  obtain net where net: "usend req [] = Inr net" using up.deliver [OF req] by blast
  have "\<exists>raw txb' s'. exchange usend urecv dsend drecv (generated_switch self static e rs p hdl) txb req = Some (Inr raw, txb') \<and>
      length txb' = length txb \<and> Rpc_call rpcs callb (link_tsend usend) r args [Inr raw] s = (Inr (Some (F r args)), s') \<and>
      sent s' = sent s @ [req] \<and> q s' = [] \<and> alive s' \<and> txn_valid s'"
    by (rule call_returns [where f = "F r" and hdl = hdl, OF s assms(2) c(1) assms(3) c(2) assms(4-6) c(3,4) rq(1) c(6) rq(2,3) c(8,9) req rsp])
  then obtain raw txb' s' where x: "exchange usend urecv dsend drecv (generated_switch self static e rs p hdl) txb req = Some (Inr raw, txb')"
    "length txb' = length txb" "Rpc_call rpcs callb (link_tsend usend) r args [Inr raw] s = (Inr (Some (F r args)), s')"
    "sent s' = sent s @ [req]" "ready s'" by (auto simp: ready_def)
  then show ?thesis using rq(4) net by (simp add: system_call_def Let_def)
qed

lemma served_conversation:
  assumes "ready s" and "register_all [] rs = Inr rpcs" "distinct (map name_of rs)"
    and "c_functions e rs = Inr p" "list_all (rpc_usable env) rs" "names_ok env"
    and "list_all (servable self static env rs hdl F T (length txb)) cs"
    and fits: "\<And>m. length m \<le> 1024 \<Longrightarrow> ufits m" "\<And>m. length m \<le> 1024 \<Longrightarrow> dfits m"
  shows "\<exists>s' txb'. conversation (usend, urecv) (dsend, drecv) rpcs callb (generated_switch self static e rs p hdl) cs (s, txb) =
      Some (map (\<lambda>(r, args). Inr (Some (F r args))) cs, (s', txb')) \<and> ready s' \<and> length txb' = length txb \<and>
    length (sent s') = length (sent s) + length cs"
  using assms(1,7)
proof (induction cs arbitrary: s txb)
  case (Cons c cs)
  obtain r args where c: "c = (r, args)" by fastforce
  obtain s1 txb1 req where 1: "system_call (usend, urecv) (dsend, drecv) rpcs callb (generated_switch self static e rs p hdl) c (s, txb) =
      Some (Inr (Some (F r args)), (s1, txb1))" "ready s1" "length txb1 = length txb" "sent s1 = sent s @ [req]"
    using served_call [OF Cons.prems(1) assms(2-6) _ fits, of self static hdl F T txb r args callb] Cons.prems(2) c by auto
  moreover obtain s2 txb2 where "conversation (usend, urecv) (dsend, drecv) rpcs callb (generated_switch self static e rs p hdl) cs (s1, txb1) =
      Some (map (\<lambda>(r, args). Inr (Some (F r args))) cs, (s2, txb2))" "ready s2" "length txb2 = length txb1"
    "length (sent s2) = length (sent s1) + length cs"
    using Cons.IH [OF 1(2), of txb1] Cons.prems(2) 1(3) by auto
  ultimately show ?case by (simp add: c)
qed simp

end

section \<open>Properties\<close>

text \<open>
  C5. A conversation over UDP: every call of any sequence of calls that the device serves returns what its remote
  function computes, in this order, although the transaction numbers wrap, each call sends one request, and the session
  is ready for the next call.
\<close>

theorem udp_conversation_returns:
  assumes "ready s" and "register_all [] rs = Inr rpcs" "distinct (map name_of rs)"
    and "c_functions e rs = Inr p" "list_all (rpc_usable env) rs" "names_ok env"
    and "list_all (servable self static env rs hdl F T (length txb)) cs"
  shows "\<exists>s' txb'. conversation (UdpTransport_send, UdpTransport_receive) (UdpTransport_send, UdpTransport_receive) rpcs callb
      (generated_switch self static e rs p hdl) cs (s, txb) =
      Some (map (\<lambda>(r, args). Inr (Some (F r args))) cs, (s', txb')) \<and> ready s' \<and> length txb' = length txb \<and>
    length (sent s') = length (sent s) + length cs"
  by (rule udp_pair.served_conversation [OF assms]) auto

lemma add_int_servable:
  assumes "0 \<le> a" "a < 2 ^ 32" "0 \<le> b" "b < 2 ^ 32"
  shows "servable True [] Map.empty [add_int] (\<lambda>_. add_int_handler) (\<lambda>_. sum32) (\<lambda>_. TNum U32) 8 (add_int, [VInt a, VInt b])"
proof -
  have wt: "list_all2 wt [TNum U32, TNum U32] [VInt a, VInt b]" using assms by (simp add: fmt_range_def)
  have sz: "payload_size [TNum U32, TNum U32] [VInt a, VInt b] = 8" "payload_size [TNum U32] [sum32 [VInt a, VInt b]] = 4"
    by (simp_all add: payload_size_def mu_bytes_def BITS_PER_BYTE_def sum32_def)
  show ?thesis unfolding servable_def prod.case add_int_parts sz payload_serdes.select_convs
    using add_int_ready(2,6) add_int_implements wt by (simp add: flat_def words_def sz add_int_parts) blast
qed

theorem udp_conversation_returns_witness:
  "\<exists>p s' txb'. c_functions REMOTE [add_int] = Inr p \<and>
    conversation (UdpTransport_send, UdpTransport_receive) (UdpTransport_send, UdpTransport_receive) [(0xC00, add_int)]
      (\<lambda>_ _. Inr ()) (generated_switch True [] REMOTE [add_int] p (\<lambda>_. add_int_handler))
      [(add_int, [VInt 1, VInt 2]), (add_int, [VInt 4294967295, VInt 2])] (Session_init, replicate 8 0) =
    Some ([Inr (Some (VInt 3)), Inr (Some (VInt 1))], (s', txb')) \<and> length (sent s') = 2"
proof -
  obtain p where p: "c_functions REMOTE [add_int] = Inr p" using add_int_ready(3) by blast
  have i: "ready Session_init" using add_int_request(4-6) by (simp add: ready_def)
  have c: "list_all (servable True [] Map.empty [add_int] (\<lambda>_. add_int_handler) (\<lambda>_. sum32) (\<lambda>_. TNum U32)
      (length (replicate 8 (0 :: byte)))) [(add_int, [VInt 1, VInt 2]), (add_int, [VInt 4294967295, VInt 2])]"
    by (simp add: add_int_servable)
  from udp_conversation_returns [OF i add_int_ready(1) _ p add_int_ready(4,5) c, of "\<lambda>_ _. Inr ()"] p show ?thesis
    by (auto simp: sum32_def Session_init_def)
qed

end
