(* ===== verification/MockProtocol.thy ===== *)
theory MockProtocol
  imports Examples
begin

text \<open>
  The protocol of the tests, \<^verbatim>\<open>test/protocol_def.py\<close>, with a handler of the device mock,
  \<^verbatim>\<open>test/protocol_impl.c\<close>, called over the whole stack.
\<close>

section \<open>The classes\<close>

definition Status :: ctype where
  "Status = TEnum ''Status'' (BNum U8) [(''OK'', 0), (''WARN'', 1), (''ERR'', 2), (''FAIL'', 255)]"

definition MotorState :: ctype where
  "MotorState = TEnum ''MotorState'' (BNum I8) [(''OFF'', 0), (''ON'', 1), (''START'', 2), (''STOP'', 3)]"

definition MotorDirection :: ctype where
  "MotorDirection = TEnum ''MotorDirection'' (BNum I16) [(''DOWN'', - 1000), (''UP'', 1000)]"

definition Voltages :: ctype where
  "Voltages = TEnum ''Voltages'' (BBitU 4)
     [(''MV_110_92'', 0), (''MV_98_76'', 1), (''MV_88_07'', 2), (''MV_78_66'', 3), (''MV_70_38'', 4), (''MV_63_08'', 5),
      (''MV_56_64'', 6), (''MV_50_95'', 7), (''MV_45_92'', 8), (''MV_41_46'', 9), (''MV_37_50'', 10), (''MV_37_50_1'', 11),
      (''MV_37_50_2'', 12), (''MV_37_50_3'', 13), (''MV_37_50_4'', 14), (''MV_37_50_5'', 15)]"

definition BitfieldStruct :: members where
  "BitfieldStruct =
     [(''channel'', TBitU 8), (''inom'', TBitU 5), (''hsc'', TBitU 4), (''tnom'', TBitU 9), (''temp'', Voltages), (''ststart'', TBitU 3),
      (''ccm'', TBitU 1), (''set'', TBitU 1), (''state'', TBitU 1), (''clear'', TBitU 1)]"

definition ListFirstAttr :: members where
  "ListFirstAttr = [(''data'', TList [TNum I16]), (''min'', TNum I16), (''max'', TNum I16)]"

definition ListMidAttr :: members where
  "ListMidAttr = [(''min'', TNum I16), (''data'', TList [TNum I16]), (''max'', TNum I16)]"

definition ListLastAttr :: members where
  "ListLastAttr = [(''min'', TNum I16), (''max'', TNum I16), (''data'', TList [TNum I16])]"

definition TwoListAttr :: members where
  "TwoListAttr =
     [(''avg_a'', TNum F32), (''data_a'', TList [TNum I16]), (''avg_merge'', TNum F32), (''data_b'', TList [TNum I16]), (''avg_b'', TNum F32)]"

definition MockDate :: members where
  "MockDate = [(''day'', TNum U16), (''month'', TNum U8), (''year'', TNum I32), (''as_text'', TStr), (''as_digits'', TBytes)]"

definition MockMotorReport :: members where
  "MockMotorReport =
     [(''state'', MotorState), (''direction'', MotorDirection), (''voltage'', TList [TNum U16]), (''current'', TList [TNum U16])]"

definition MockMotorControl :: members where
  "MockMotorControl = [(''state'', MotorState), (''direction'', MotorDirection), (''pwm_duty'', TNum U16)]"

definition MockLogMessage :: members where
  "MockLogMessage =
     [(''severity'', Status), (''message'', TStr), (''timestamp'', TStruct ''MockDate'' MockDate), (''byte_xor'', TNum U8)]"

definition MockLfsr :: members where
  "MockLfsr = [(''polynomial'', TNum U64), (''value'', TNum U64), (''timestamp'', TStruct ''MockDate'' MockDate)]"

definition test_types :: "ctype list res" where
  "test_types = rmap id
     [enum_decorator Status, enum_decorator MotorState, enum_decorator MotorDirection, enum_decorator Voltages,
      struct_decorator ''BitfieldStruct'' BitfieldStruct, struct_decorator ''ListFirstAttr'' ListFirstAttr,
      struct_decorator ''ListMidAttr'' ListMidAttr, struct_decorator ''ListLastAttr'' ListLastAttr,
      struct_decorator ''TwoListAttr'' TwoListAttr, struct_decorator ''MockDate'' MockDate,
      struct_decorator ''MockMotorReport'' MockMotorReport, struct_decorator ''MockMotorControl'' MockMotorControl,
      struct_decorator ''MockLogMessage'' MockLogMessage, struct_decorator ''MockLfsr'' MockLfsr]"

section \<open>The protocol\<close>

definition TestProtocol :: "rpc list res" where
  "TestProtocol = rmap id
     [rpc_decorator 0xB00 False TO_REMOTE ''trigger_notification'' (method_sig [(''rpc_id'', TNum U16)] None),
      rpc_decorator 0xC00 False TO_REMOTE ''add_int'' (method_sig [(''a'', TNum U32), (''b'', TNum U32)] (Some (TNum U32))),
      rpc_decorator 0xC01 False TO_REMOTE ''sum_list'' (method_sig [(''a'', TList [TNum U32])] (Some (TNum U32))),
      rpc_decorator 0xC02 False TO_REMOTE ''void_return'' (method_sig [(''x'', TNum I16)] None),
      rpc_decorator 0xC03 False TO_REMOTE ''void_full'' (method_sig [] None),
      rpc_decorator 0xC04 False TO_REMOTE ''divide_float'' (method_sig [(''a'', TNum F32), (''b'', TNum F32)] (Some (TNum F32))),
      rpc_decorator 0xC05 False TO_REMOTE ''caesar_cipher'' (method_sig [(''str'', TStr), (''offset'', TNum U8)] (Some TStr)),
      rpc_decorator 0xC06 False TO_REMOTE ''sort_bytes'' (method_sig [(''data'', TBytes)] (Some TBytes)),
      rpc_decorator 0xC07 False TO_REMOTE ''list_first_attr''
        (method_sig [(''data'', TList [TNum I16])] (Some (TStruct ''ListFirstAttr'' ListFirstAttr))),
      rpc_decorator 0xC08 False TO_REMOTE ''list_mid_attr''
        (method_sig [(''data'', TList [TNum I16])] (Some (TStruct ''ListMidAttr'' ListMidAttr))),
      rpc_decorator 0xC09 False TO_REMOTE ''list_last_attr''
        (method_sig [(''data'', TList [TNum I16])] (Some (TStruct ''ListLastAttr'' ListLastAttr))),
      rpc_decorator 0xC0A False TO_REMOTE ''two_list_attr''
        (method_sig [(''data_a'', TList [TNum I16]), (''data_b'', TList [TNum I16])] (Some (TStruct ''TwoListAttr'' TwoListAttr))),
      rpc_decorator 0xC0B False TO_REMOTE ''epoch_to_date'' (method_sig [(''epoch'', TNum I32)] (Some (TStruct ''MockDate'' MockDate))),
      rpc_decorator 0xC0C False TO_REMOTE ''emoji'' (method_sig [(''text'', TStr)] (Some TStr)),
      rpc_decorator 0xC0D False TO_REMOTE ''cat_lists''
        (method_sig [(''list_a'', TList [TNum U32]), (''list_b'', TList [TNum U32])] (Some (TList [TNum U32]))),
      rpc_decorator 0xC0E False TO_REMOTE ''get_random_number''
        (method_sig [(''seed'', TNum U64), (''iter'', TNum U8)] (Some (TStruct ''MockLfsr'' MockLfsr))),
      rpc_decorator 0xC0F False TO_REMOTE ''struct_in_param'' (method_sig [(''structure'', TStruct ''ListFirstAttr'' ListFirstAttr)] None),
      notification_decorator 0xE00 TO_LOCAL ''notify_date'' (method_sig [(''date'', TStruct ''MockDate'' MockDate)] None),
      notification_decorator 0xE01 TO_LOCAL ''notify_log'' (method_sig [(''log'', TStruct ''MockLogMessage'' MockLogMessage)] None),
      notification_decorator 0xE02 TO_LOCAL ''notify_heartbeat'' (method_sig [] None),
      notification_decorator 0xE03 TO_LOCAL ''notify_bitwise_complement''
        (method_sig [(''value'', TNum U64), (''complement'', TNum U64)] None),
      notification_decorator 0xE04 TWO_WAY ''notify_bitfields'' (method_sig [(''config'', TStruct ''BitfieldStruct'' BitfieldStruct)] None),
      notification_decorator 0xE05 TWO_WAY ''notify_motor_report''
        (method_sig [(''report'', TStruct ''MockMotorReport'' MockMotorReport)] None),
      notification_decorator 0xE06 TWO_WAY ''notify_motor_control''
        (method_sig [(''control'', TStruct ''MockMotorControl'' MockMotorControl)] None)]"

definition test_env :: "(string \<times> members) list" where
  "test_env =
     [(''BitfieldStruct'', BitfieldStruct), (''ListFirstAttr'', ListFirstAttr), (''ListMidAttr'', ListMidAttr),
      (''ListLastAttr'', ListLastAttr), (''TwoListAttr'', TwoListAttr), (''MockDate'', MockDate),
      (''MockMotorReport'', MockMotorReport), (''MockMotorControl'', MockMotorControl), (''MockLogMessage'', MockLogMessage),
      (''MockLfsr'', MockLfsr)]"


definition sum_list_rpc :: rpc where
  "sum_list_rpc = Rpc_new 0xC01 ''sum_list'' \<lparr>types = [TList [TNum U32]]\<rparr> \<lparr>types = [TNum U32]\<rparr>
     (method_sig [(''a'', TList [TNum U32])] (Some (TNum U32))) False TO_REMOTE"

lemma test_ready:
  "case TestProtocol of
     Inr rs \<Rightarrow> protocol_ready test_env rs \<and> length rs = 24 \<and> rs ! 2 = sum_list_rpc \<and> procedure_ready test_env sum_list_rpc
   | Inl _ \<Rightarrow> False"
  by code_simp

lemma test_names: "names_ok (map_of test_env)"
  by (rule names_ok_map_of) code_simp

section \<open>Summing a list\<close>

text \<open>
  The sum is an \<^verbatim>\<open>int\<close> to which numbers of type \<^verbatim>\<open>uint32_t\<close> are added: the addition is unsigned, and its result is converted
  to \<^verbatim>\<open>int\<close> and back without a change of its bits.
\<close>

function sum_list_loop :: "cmem \<Rightarrow> c_slice \<Rightarrow> nat \<Rightarrow> 32 word \<Rightarrow> 32 word option" where
  "sum_list_loop m a i acc =
     (if i < unat (slen a)
      then (case compost_slice_get U32 m a i of Some (C32 x) \<Rightarrow> sum_list_loop m a (Suc i) (acc + x) | _ \<Rightarrow> None)
      else Some acc)"
  by auto
termination
  by (relation "measure (\<lambda>(_, a, i, _). unat (slen a) - i)") auto

declare sum_list_loop.simps [simp del]

definition sum_list_handler :: c_handler where
  "sum_list_handler m cs alloc =
     (case cs of
        [CSl a] \<Rightarrow> (case sum_list_loop m a 0 0 of Some acc \<Rightarrow> Some (m, Some (CNum (C32 acc))) | None \<Rightarrow> None)
      | _ \<Rightarrow> None)"

fun py_int :: "pyval \<Rightarrow> int" where
  "py_int (VInt i) = i"
| "py_int _ = 0"

definition sum_values :: "pyval list \<Rightarrow> pyval" where
  "sum_values args = (case args of [VList vs] \<Rightarrow> VInt (sum_list (map py_int vs) mod 2 ^ 32) | _ \<Rightarrow> VInt 0)"

lemma slice_elem_u32:
  assumes "slice_in U32 m a" "i < unat (slen a)" obtains x where "slice_vals U32 m a ! i = C32 x"
proof -
  have "cnum_width (slice_vals U32 m a ! i) = 4"
    using slice_vals_width [OF assms(1)] assms(2) length_slice_vals [OF assms(1)]
    by (simp add: widths_def list_all_length csizeof_def)
  then show thesis using that by (cases "slice_vals U32 m a ! i") simp_all
qed

lemma sum_list_loop_sums:
  assumes "slice_in U32 m a"
  shows "i \<le> unat (slen a) \<Longrightarrow> \<exists>w. sum_list_loop m a i acc = Some w \<and>
    uint w = (uint acc + sum_list (map py_int (drop i (slice_py U32 m a)))) mod 2 ^ 32"
proof (induction "unat (slen a) - i" arbitrary: i acc)
  case 0
  then have "\<not> i < unat (slen a)" "drop i (slice_py U32 m a) = []" using length_slice_vals [OF assms] by (simp_all add: slice_py_def)
  moreover have "uint acc mod 2 ^ 32 = uint acc" using unsigned_less [of acc, where 'a = int] by (simp add: mod_pos_pos_trivial)
  ultimately show ?case by (simp add: sum_list_loop.simps [of m a i])
next
  case (Suc n)
  then have i: "i < unat (slen a)" by simp
  obtain x where x: "slice_vals U32 m a ! i = C32 x" using slice_elem_u32 [OF assms i] .
  have d: "drop i (slice_py U32 m a) = VInt (uint x) # drop (Suc i) (slice_py U32 m a)"
    using i x length_slice_vals [OF assms] by (simp add: slice_py_def Cons_nth_drop_Suc [symmetric])
  have "n = unat (slen a) - Suc i" "Suc i \<le> unat (slen a)" using Suc.hyps(2) i by simp_all
  from Suc.hyps(1) [OF this, of "acc + x"] obtain w where w: "sum_list_loop m a (Suc i) (acc + x) = Some w"
    "uint w = (uint (acc + x) + sum_list (map py_int (drop (Suc i) (slice_py U32 m a)))) mod 2 ^ 32" by blast
  have "uint (acc + x) = (uint acc + uint x) mod 2 ^ 32" by (simp add: uint_word_ariths)
  then show ?case using w i x by (simp add: sum_list_loop.simps [of m a i] slice_get [OF assms i] d mod_add_left_eq add.assoc)
qed

lemma sum_list_implements: "implements self static sum_list_rpc sum_values (TNum U32) sum_list_handler"
proof -
  have p: "map snd (get_param_items sum_list_rpc) = [TList [TNum U32]]"
    by (simp add: sum_list_rpc_def Rpc_new_def get_param_items_def method_sig_def)
  show ?thesis
    unfolding implements_def p Let_def
  proof (intro allI impI conjI)
    fix args assume "list_all2 wt [TList [TNum U32]] args"
    then obtain z where "args = [z]" "wt (TList [TNum U32]) z" by (auto simp: list_all2_Cons1)
    then obtain vs where v: "args = [VList vs]" by (cases z) auto
    show "wt (TNum U32) (sum_values args)" by (simp add: v sum_values_def fmt_range_def)
    fix rxp txp :: "byte list" and cs
    let ?m = "rxp @ txp @ static" and ?n = "payload_size [TNum U32] [sum_values args]"
    assume "cargs ?m (within 0 (length rxp)) [TList [TNum U32]] args cs \<and> ?n \<le> length txp \<and> ?n \<le> 1020"
    then obtain c where c: "cs = [c]" "crel ?m (TList [TNum U32]) (VList vs) c" "cwt (within 0 (length rxp)) (TList [TNum U32]) c"
      unfolding v by (cases cs; cases "tl cs") auto
    then obtain a where a: "c = CSl a" "vs = slice_py U32 ?m a" "within 0 (length rxp) U32 a" by (cases c) auto
    then have "slice_in U32 ?m a" by (auto simp: within_def slice_in_def)
    from sum_list_loop_sums [OF this, of 0 0] obtain w where w: "sum_list_loop ?m a 0 0 = Some w"
      "uint w = sum_list (map py_int vs) mod 2 ^ 32" by (auto simp: a(2))
    then have "carg ?m (TNum U32) (sum_values args) (CNum (C32 w))" by (simp add: v sum_values_def cnum_rel_def csizeof_def)
    moreover have "returnable self ?m (length rxp) ?n (TNum U32) (CNum (C32 w))" by (simp add: returnable_def csizeof_def)
    ultimately show "\<exists>m' c. sum_list_handler ?m cs (exec_alloc (response_alloc (Some (TNum U32))) (length rxp) (length txp)) =
        Some (m', Some c) \<and> length m' = length ?m \<and> carg m' (TNum U32) (sum_values args) c \<and>
        returnable self m' (length rxp) ?n (TNum U32) c"
      by (simp add: sum_list_handler_def c(1) a(1) w(1))
  qed
qed

section \<open>Properties\<close>

text \<open>
  C38. The device mock of the tests sums a list: for any list of at most 254 numbers of 32 bits, which is what fits into a
  message, the call of \<^verbatim>\<open>sum_list\<close>, processed by the code that is generated for the whole protocol of the tests, with the
  handler of \<^verbatim>\<open>protocol_impl.c\<close> for it and any others beside it, returns their sum modulo \<open>2 ^ 32\<close>.
\<close>

theorem sum_list_returns_sum:
  assumes "txn_valid s" "alive s" "q s = []" and "\<And>out. tsend out = Inr ()"
    and "hdl ''sum_list'' = sum_list_handler"
    and "list_all (\<lambda>x. 0 \<le> x \<and> x < 2 ^ 32) xs" "length xs \<le> 254" and "8 \<le> length txb"
  shows "\<exists>rs p req n txb' s'. TestProtocol = Inr rs \<and> c_functions REMOTE rs = Inr p \<and>
    compost_msg_process (generated_switch self static REMOTE rs p hdl) (Some txb) (Some (req @ pad)) = Some (int n, Some txb') \<and>
    Rpc_call (map (\<lambda>r. (id_of r, r)) rs) callb tsend sum_list_rpc [VList (map VInt xs)] [Inr (take n txb' @ pad')] s =
      (Inr (Some (VInt (sum_list xs mod 2 ^ 32))), s') \<and>
    sent s' = sent s @ [req] \<and> q s' = [] \<and> alive s' \<and> txn_valid s'"
proof -
  let ?args = "[VList (map VInt xs)]" and ?t = "TNum U32"
  obtain rs where rs: "TestProtocol = Inr rs" "protocol_ready test_env rs" "sum_list_rpc \<in> set rs" "procedure_ready test_env sum_list_rpc"
  proof (cases TestProtocol)
    case (Inr rs)
    then show ?thesis using that test_ready nth_mem [of 2 rs] unfolding Inr by simp
  next
    case (Inl e)
    show ?thesis using test_ready unfolding Inl by simp
  qed
  have r: "return_annotation (call_sig sum_list_rpc) = Some ?t" "types (req_serdes sum_list_rpc) = [TList [?t]]"
    "name_of sum_list_rpc = ''sum_list''"
    by (simp_all add: sum_list_rpc_def Rpc_new_def method_sig_def)
  have v: "sum_values ?args = VInt (sum_list xs mod 2 ^ 32)" by (simp add: sum_values_def comp_def)
  have wt: "list_all2 wt [TList [?t]] ?args" using assms(6,7) by (simp add: fmt_range_def list.pred_set)
  have sz: "payload_size [TList [?t]] ?args \<le> 1020" "payload_size [?t] [sum_values ?args] = 4"
    using assms(7) by (simp_all add: payload_size_def mu_bytes_def BITS_PER_BYTE_def v type_size_def blob_len_def)
  have impl: "implements self static sum_list_rpc sum_values ?t (hdl (name_of sum_list_rpc))"
    using sum_list_implements by (simp add: r(3) assms(5))
  from ready_call [where f = sum_values and hdl = hdl and tsend = tsend and args = ?args and txb = txb and pad = pad and pad' = pad'
      and callb = callb, OF assms(1-4) rs(2) test_names rs(3,4) r(1) impl]
  show ?thesis using wt sz assms(8) rs(1) by (simp add: r(2) v words_def) blast
qed

theorem sum_list_returns_sum_witness:
  "\<exists>rs p req n txb' s'. TestProtocol = Inr rs \<and> c_functions REMOTE rs = Inr p \<and>
    compost_msg_process (generated_switch False [] REMOTE rs p (\<lambda>_. sum_list_handler)) (Some (replicate 8 0)) (Some (req @ [])) =
      Some (int n, Some txb') \<and>
    Rpc_call (map (\<lambda>r. (id_of r, r)) rs) (\<lambda>_ _. Inr ()) (\<lambda>_. Inr ()) sum_list_rpc [VList [VInt 4294967295, VInt 7, VInt 2]]
      [Inr (take n txb')] Session_init = (Inr (Some (VInt 8)), s')"
proof -
  have s: "txn_valid Session_init" "alive Session_init" "q Session_init = []"
    by (simp_all add: Session_init_def txn_valid_def)
  from sum_list_returns_sum [OF s, where tsend = "\<lambda>_. Inr ()" and hdl = "\<lambda>_. sum_list_handler" and xs = "[4294967295, 7, 2]"
      and txb = "replicate 8 0" and self = False and static = "[]" and pad = "[]" and pad' = "[]" and callb = "\<lambda>_ _. Inr ()"]
  show ?thesis by simp blast
qed

end
