(* ===== verification/Generator.thy ===== *)
theory Generator
  imports Names Session
begin

text \<open>
  The class \<^verbatim>\<open>Generator\<close>: the cache of generated files that the patched \<^verbatim>\<open>generate\<close> methods fill, the
  \<^verbatim>\<open>with\<close> block, and \<^verbatim>\<open>run\<close>, which asks before it overwrites files.  The file system is a map
  from paths to contents, and the answers of the user are a list of lines.
\<close>

section \<open>State\<close>

datatype language = LangC | LangCSharp

fun short_name :: "language \<Rightarrow> string" where
  "short_name LangC = ''c''"
| "short_name LangCSharp = ''cs''"

text \<open>A generator instance is its language: \<^verbatim>\<open>Generator\<close> has one of each.\<close>

type_synonym output_key = "language \<times> endpoint"
type_synonym path = string
type_synonym files = "(path \<times> string) list"

record generator =
  force_overwrite :: bool
  output_cache :: "(output_key \<times> files) list"
  path_cache :: "(path \<times> output_key) list"
  in_with_context :: bool

definition Generator_init :: generator where
  "Generator_init = \<lparr>force_overwrite = False, output_cache = [], path_cache = [], in_with_context = False\<rparr>"

text \<open>The loop over the files of a result; paths registered before a conflict stay registered.\<close>

fun register_paths :: "output_key \<Rightarrow> files \<Rightarrow> (path \<times> output_key) list \<Rightarrow> unit res \<times> (path \<times> output_key) list" where
  "register_paths key [] pc = (Inr (), pc)"
| "register_paths key ((p, c) # ps) pc =
     (if p \<in> fst ` set pc then (Inl ValueError, pc) else register_paths key ps (pc @ [(p, key)]))"

text \<open>The wrapper around \<^verbatim>\<open>generate\<close>, given what the original method returned or raised.\<close>

definition cached_generate :: "language \<Rightarrow> endpoint \<Rightarrow> files res \<Rightarrow> generator \<Rightarrow> files res \<times> generator" where
  "cached_generate gen e original g =
     (case original of
        Inl err \<Rightarrow> (Inl err, g)
      | Inr result \<Rightarrow>
          let key = (gen, e) in
          if key \<in> fst ` set (output_cache g) then (Inl ValueError, g)
          else case register_paths key result (path_cache g) of
            (Inl err, pc) \<Rightarrow> (Inl err, g\<lparr>path_cache := pc\<rparr>)
          | (Inr _, pc) \<Rightarrow>
              (Inr result, g\<lparr>path_cache := pc, output_cache := output_cache g @ [(key, result)]\<rparr>))"

definition Generator_enter :: "generator \<Rightarrow> generator" where
  "Generator_enter g = g\<lparr>in_with_context := True, output_cache := []\<rparr>"

section \<open>Writing the files\<close>

definition endpoint_name :: "endpoint \<Rightarrow> string" where
  "endpoint_name e = (case e of REMOTE \<Rightarrow> ''remote'' | LOCAL \<Rightarrow> ''local'')"

definition as_typed_str :: "output_key \<Rightarrow> bool \<Rightarrow> string" where
  "as_typed_str key with_endpoint =
     short_name (fst key) @ (if with_endpoint then ''_'' @ endpoint_name (snd key) else [])"

text \<open>The dictionary \<^verbatim>\<open>verbose\<close>: whether a language was generated for more than one endpoint.\<close>

definition verbose :: "(output_key \<times> files) list \<Rightarrow> language \<Rightarrow> bool" where
  "verbose oc l = (1 < length (filter (\<lambda>k. short_name (fst (fst k)) = short_name l) oc))"

definition typed :: "(output_key \<times> files) list \<Rightarrow> output_key \<Rightarrow> string" where
  "typed oc key = as_typed_str key (verbose oc (fst key))"

definition to_overwrite :: "(output_key \<times> files) list \<Rightarrow> (path \<Rightarrow> string option) \<Rightarrow> output_key list" where
  "to_overwrite oc fs = map fst (filter (\<lambda>(k, out). \<exists>(p, c) \<in> set out. fs p \<noteq> None) oc)"

fun split_comma :: "string \<Rightarrow> string list" where
  "split_comma [] = [[]]"
| "split_comma (c # cs) =
     (if c = CHR '','' then [] # split_comma cs
      else case split_comma cs of p # ps \<Rightarrow> (c # p) # ps | [] \<Rightarrow> [[c]])"

definition strip :: "string \<Rightarrow> string" where
  "strip s = rev (dropWhile isspace (rev (dropWhile isspace s)))"

definition parse_response :: "string list \<Rightarrow> string \<Rightarrow> string list" where
  "parse_response langs line =
     (let ans = map (\<lambda>x. strip (lower x)) (split_comma line) in
      case ans of
        [x] \<Rightarrow> if x = ''a'' \<or> x = ''all'' then langs
               else if x = [] \<or> x = ''n'' \<or> x = ''none'' then [] else ans
      | _ \<Rightarrow> ans)"

text \<open>The prompt is repeated until the answer is valid; \<open>None\<close> when there is no further line.\<close>

fun ask :: "string list \<Rightarrow> string list \<Rightarrow> string list option" where
  "ask langs [] = None"
| "ask langs (line # lines) =
     (let ans = parse_response langs line in
      if list_all (\<lambda>x. x \<in> set langs) ans then Some ans else ask langs lines)"

definition write_output :: "files \<Rightarrow> (path \<Rightarrow> string option) \<Rightarrow> path \<Rightarrow> string option" where
  "write_output out fs = foldl (\<lambda>fs (p, c). fs(p \<mapsto> c)) fs out"

fun write_all :: "(output_key \<times> files) list \<Rightarrow> (output_key \<times> files) list \<Rightarrow> output_key list \<Rightarrow> string list \<Rightarrow>
    (path \<Rightarrow> string option) \<Rightarrow> path \<Rightarrow> string option" where
  "write_all oc [] over ans fs = fs"
| "write_all oc ((k, out) # rest) over ans fs =
     write_all oc rest over ans (if k \<in> set over \<and> typed oc k \<notin> set ans then fs else write_output out fs)"

text \<open>The result is the file system afterwards, or \<open>None\<close> while the prompt waits.\<close>

definition Generator_run :: "generator \<Rightarrow> string list \<Rightarrow> (path \<Rightarrow> string option) \<Rightarrow> (path \<Rightarrow> string option) option" where
  "Generator_run g input fs =
     (if in_with_context g then Some fs
      else
        let oc = output_cache g; over = to_overwrite oc fs; langs = map (typed oc) over in
        if over = [] \<or> force_overwrite g then Some (write_all oc oc over langs fs)
        else case ask langs input of
               None \<Rightarrow> None
             | Some ans \<Rightarrow> if ans = [] then Some fs else Some (write_all oc oc over ans fs))"

text \<open>Leaving the block runs the generator, also after an exception.\<close>

definition Generator_exit :: "generator \<Rightarrow> string list \<Rightarrow> (path \<Rightarrow> string option) \<Rightarrow> generator \<times> (path \<Rightarrow> string option) option" where
  "Generator_exit g input fs =
     (let g = g\<lparr>in_with_context := False\<rparr> in (g, Generator_run g input fs))"

section \<open>Every file has one owner\<close>

definition out_paths :: "(output_key \<times> files) list \<Rightarrow> path list" where
  "out_paths oc = concat (map (\<lambda>(k, out). map fst out) oc)"

definition gen_inv :: "generator \<Rightarrow> bool" where
  "gen_inv g \<longleftrightarrow> distinct (map fst (output_cache g)) \<and> distinct (out_paths (output_cache g)) \<and>
     set (out_paths (output_cache g)) \<subseteq> fst ` set (path_cache g)"

lemma out_paths_mem: "(k, out) \<in> set oc \<Longrightarrow> p \<in> set (map fst out) \<Longrightarrow> p \<in> set (out_paths oc)"
  by (induction oc) (auto simp: out_paths_def)

lemma register_paths_spec:
  "register_paths key out pc = (r, pc') \<Longrightarrow> fst ` set pc \<subseteq> fst ` set pc' \<and>
   (r = Inr () \<longrightarrow> distinct (map fst out) \<and> set (map fst out) \<inter> fst ` set pc = {} \<and>
      set (map fst out) \<subseteq> fst ` set pc')"
proof (induction key out pc arbitrary: r pc' rule: register_paths.induct)
  case (2 key p c ps pc)
  show ?case
  proof (cases "p \<in> fst ` set pc")
    case False
    with "2.prems" have "register_paths key ps (pc @ [(p, key)]) = (r, pc')" by simp
    from "2.IH" [OF False this] False show ?thesis by auto
  qed (use "2.prems" in auto)
qed simp

lemma cached_generate_inv:
  assumes "gen_inv g" and "cached_generate gen e original g = (r, g')" shows "gen_inv g'"
proof (cases original)
  case (Inr result)
  show ?thesis
  proof (cases "(gen, e) \<in> fst ` set (output_cache g)")
    case False
    obtain x pc where x: "register_paths (gen, e) result (path_cache g) = (x, pc)" by fastforce
    note s = register_paths_spec [OF x]
    show ?thesis
    proof (cases x)
      case (Inl err)
      then have "g' = g\<lparr>path_cache := pc\<rparr>" using assms(2) Inr False x by (simp add: cached_generate_def Let_def)
      then show ?thesis using assms(1) s by (auto simp: gen_inv_def)
    next
      case (Inr u)
      have g': "g' = g\<lparr>path_cache := pc, output_cache := output_cache g @ [((gen, e), result)]\<rparr>"
        using assms(2) \<open>original = Inr result\<close> Inr False x by (simp add: cached_generate_def Let_def)
      have r: "distinct (map fst result)" "set (map fst result) \<inter> fst ` set (path_cache g) = {}"
        "set (map fst result) \<subseteq> fst ` set pc" "fst ` set (path_cache g) \<subseteq> fst ` set pc"
        using s Inr by simp_all
      have inv: "distinct (map fst (output_cache g))" "distinct (out_paths (output_cache g))"
        "set (out_paths (output_cache g)) \<subseteq> fst ` set (path_cache g)"
        using assms(1) by (simp_all add: gen_inv_def)
      have "out_paths (output_cache g') = out_paths (output_cache g) @ map fst result"
        by (simp add: g' out_paths_def)
      moreover have "set (map fst result) \<inter> set (out_paths (output_cache g)) = {}"
        using inv(3) r(2) by (auto dest: subsetD)
      moreover have "distinct (map fst (output_cache g'))" using inv(1) False by (auto simp: g')
      moreover have "path_cache g' = pc" by (simp add: g')
      ultimately show ?thesis
        using inv(2,3) r(1,3,4) unfolding gen_inv_def by (simp add: Int_commute subset_trans [OF inv(3)])
    qed
  qed (use assms Inr in \<open>simp add: cached_generate_def Let_def\<close>)
qed (use assms in \<open>simp add: cached_generate_def\<close>)


text \<open>What the user of the class can do with an instance between two runs.\<close>

inductive gen_reachable :: "generator \<Rightarrow> bool" where
  init: "gen_reachable Generator_init"
| force: "gen_reachable g \<Longrightarrow> gen_reachable (g\<lparr>force_overwrite := b\<rparr>)"
| generate: "gen_reachable g \<Longrightarrow> gen_reachable (snd (cached_generate l e original g))"
| enter: "gen_reachable g \<Longrightarrow> gen_reachable (Generator_enter g)"
| leave: "gen_reachable g \<Longrightarrow> gen_reachable (fst (Generator_exit g lines fs))"

lemma gen_reachable_inv: "gen_reachable g \<Longrightarrow> gen_inv g"
proof (induction rule: gen_reachable.induct)
  case (generate g l e original)
  then show ?case by (cases "cached_generate l e original g") (auto intro: cached_generate_inv)
qed (simp_all add: gen_inv_def Generator_init_def Generator_enter_def Generator_exit_def out_paths_def Let_def)

lemma write_output_other: "p \<notin> set (map fst out) \<Longrightarrow> write_output out fs p = fs p"
  by (induction out arbitrary: fs) (auto simp: write_output_def)

lemma write_output_in: "distinct (map fst out) \<Longrightarrow> (p, c) \<in> set out \<Longrightarrow> write_output out fs p = Some c"
proof (induction out arbitrary: fs)
  case (Cons x out)
  obtain q' d where x: "x = (q', d)" by fastforce
  have w: "write_output ((q', d) # out) fs = write_output out (fs(q' \<mapsto> d))" by (simp add: write_output_def)
  show ?case
  proof (cases "(p, c) = (q', d)")
    case True
    then have "p \<notin> set (map fst out)" using Cons.prems(1) x by auto
    with True show ?thesis by (simp add: x w write_output_other)
  next
    case False
    then show ?thesis using Cons x by (auto simp: w)
  qed
qed simp

lemma write_all_other: "p \<notin> set (out_paths oc') \<Longrightarrow> write_all oc oc' over ans fs p = fs p"
  by (induction oc' arbitrary: fs) (auto simp: out_paths_def write_output_other)

lemma write_all_in:
  assumes "distinct (out_paths oc')" and "(k, out) \<in> set oc'" and "(p, c) \<in> set out"
  shows "write_all oc oc' over ans fs p = (if k \<in> set over \<and> typed oc k \<notin> set ans then fs p else Some c)"
  using assms
proof (induction oc' arbitrary: fs)
  case (Cons x oc')
  obtain k' out' where x: "x = (k', out')" by fastforce
  have d: "distinct (map fst out')" "distinct (out_paths oc')" "set (map fst out') \<inter> set (out_paths oc') = {}"
    using Cons.prems(1) by (auto simp: x out_paths_def)
  have pin: "p \<in> set (map fst out)" using Cons.prems(3) by force
  show ?case
  proof (cases "(k, out) = (k', out')")
    case True
    then have "p \<notin> set (out_paths oc')" using pin d(3) by blast
    then show ?thesis
      using True x write_output_in [OF d(1), of p c fs] Cons.prems(3) by (simp add: write_all_other)
  next
    case False
    then have k: "(k, out) \<in> set oc'" using Cons.prems(2) x by auto
    then have "p \<in> set (out_paths oc')" using pin by (rule out_paths_mem)
    then have "p \<notin> set (map fst out')" using d(3) by blast
    then show ?thesis using Cons.IH [OF d(2) k Cons.prems(3)] x by (auto simp: write_output_other)
  qed
qed simp

section \<open>Properties\<close>

text \<open>
  In every reachable state of a generator each file belongs to one output: the paths of the cached outputs are
  pairwise different, and all of them are registered.
\<close>

lemma generator_paths_distinct:
  assumes "gen_reachable g"
  shows "distinct (map fst (output_cache g)) \<and> distinct (out_paths (output_cache g)) \<and>
    set (out_paths (output_cache g)) \<subseteq> fst ` set (path_cache g)"
  using gen_reachable_inv [OF assms] by (simp add: gen_inv_def)

text \<open>
  C22. A run outside a \<^verbatim>\<open>with\<close> block, exactly.  When no output has an existing file or overwriting is forced, all outputs are
  written.  Otherwise the user is asked, and the run waits until an answer is valid: an answer that names nothing leaves
  all files as they are, those of new outputs included; any other answer has all files written of the
  outputs that are new or named, and keeps the files of the others.  No other file is touched.
\<close>

theorem run_overwrites_with_consent:
  assumes "gen_reachable g" and "\<not> in_with_context g" and "oc = output_cache g" and "over = to_overwrite oc fs"
    and "answer = (if over = [] \<or> force_overwrite g then Some (map (typed oc) over) else ask (map (typed oc) over) lines)"
  shows "case answer of
      None \<Rightarrow> Generator_run g lines fs = None
    | Some ans \<Rightarrow> \<exists>fs'. Generator_run g lines fs = Some fs' \<and>
        (\<forall>p. p \<notin> set (out_paths oc) \<longrightarrow> fs' p = fs p) \<and>
        (\<forall>k out p c. (k, out) \<in> set oc \<and> (p, c) \<in> set out \<longrightarrow>
           fs' p = (if over \<noteq> [] \<and> ans = [] \<or> k \<in> set over \<and> typed oc k \<notin> set ans then fs p else Some c))"
proof -
  have d: "distinct (out_paths oc)" using gen_reachable_inv [OF assms(1)] assms(3) by (simp add: gen_inv_def)
  show ?thesis
  proof (cases answer)
    case None
    then show ?thesis using assms(2-5) by (auto simp: Generator_run_def Let_def split: if_splits dest: sym [of None])
  next
    case (Some ans)
    have "Generator_run g lines fs = Some (if over \<noteq> [] \<and> ans = [] then fs else write_all oc oc over ans fs)"
      using assms(2-5) Some by (auto simp: Generator_run_def Let_def split: if_splits dest: sym [of "Some _"])
    moreover have "write_all oc oc over ans fs p = fs p" if "p \<notin> set (out_paths oc)" for p
      using write_all_other that by metis
    ultimately show ?thesis using Some write_all_in [OF d] by auto
  qed
qed

theorem run_overwrites_with_consent_witness:
  "\<exists>fs'. Generator_run (snd (cached_generate LangC REMOTE (Inr [(''a.h'', ''new'')]) Generator_init)) [''x'', ''C'']
      [''a.h'' \<mapsto> ''old''] = Some fs' \<and> fs' ''a.h'' = Some ''new'' \<and> fs' ''b'' = None"
proof -
  let ?g = "snd (cached_generate LangC REMOTE (Inr [(''a.h'', ''new'')]) Generator_init)"
  let ?fs = "[''a.h'' \<mapsto> ''old''] :: path \<Rightarrow> string option"
  have g: "gen_reachable ?g" by (rule gen_reachable.generate [OF gen_reachable.init])
  have gv: "?g = \<lparr>force_overwrite = False, output_cache = [((LangC, REMOTE), [(''a.h'', ''new'')])],
      path_cache = [(''a.h'', (LangC, REMOTE))], in_with_context = False\<rparr>" by code_simp
  have a: "ask [''c''] [''x'', ''C''] = Some [''c'']" by code_simp
  have o: "to_overwrite (output_cache ?g) ?fs = [(LangC, REMOTE)]" by (simp add: gv to_overwrite_def)
  have t: "typed (output_cache ?g) (LangC, REMOTE) = ''c''"
    by (simp add: gv typed_def as_typed_str_def verbose_def)
  have "\<not> in_with_context ?g" "\<not> force_overwrite ?g" unfolding gv by simp_all
  from run_overwrites_with_consent [OF g this(1) refl o [symmetric] refl, of "[''x'', ''C'']"] this(2) a
  obtain fs' where r: "Generator_run ?g [''x'', ''C''] ?fs = Some fs'"
    "\<And>p. p \<notin> set (out_paths (output_cache ?g)) \<Longrightarrow> fs' p = ?fs p"
    "\<And>k out p c. (k, out) \<in> set (output_cache ?g) \<and> (p, c) \<in> set out \<Longrightarrow>
       fs' p = (if k \<in> set [(LangC, REMOTE)] \<and> typed (output_cache ?g) k \<notin> set [''c''] then ?fs p else Some c)"
    by (auto simp: t)
  have "fs' ''b'' = None" using r(2) [of "''b''"] by (simp add: gv out_paths_def)
  moreover have "fs' ''a.h'' = Some ''new''"
    using r(3) [of "(LangC, REMOTE)" "[(''a.h'', ''new'')]" "''a.h''" "''new''"] t by (simp add: gv)
  ultimately show ?thesis using r(1) by blast
qed

text \<open>
  Entering a \<^verbatim>\<open>with\<close> block forgets the outputs but not their paths: a generator that has been used
  once refuses to generate the same files again.
\<close>

lemma reenter_refuses:
  assumes "cached_generate l e (Inr out) g = (Inr out, g')" and "out \<noteq> []"
  shows "fst (cached_generate l e (Inr out) (Generator_enter g')) = Inl ValueError"
proof -
  obtain p c ps where out: "out = (p, c) # ps" using assms(2) by (cases out) auto
  obtain x pc where x: "register_paths (l, e) out (path_cache g) = (x, pc)" by fastforce
  then have "x = Inr ()" "path_cache g' = pc"
    using assms(1) by (auto simp: cached_generate_def Let_def split: if_splits sum.splits)
  with register_paths_spec [OF x] out have "p \<in> fst ` set (path_cache g')" by simp
  then show ?thesis by (simp add: cached_generate_def Generator_enter_def out)
qed

end
