(* ===== verification/Pipeline.thy ===== *)
theory Pipeline
  imports CSharp Generator
begin

text \<open>
  The class \<^verbatim>\<open>Generator\<close> with the generators for C and C# that it owns, and scripts that use it in a \<^verbatim>\<open>with\<close> block:
  settings, calls of \<^verbatim>\<open>generate\<close>, and the run when the block is left.
\<close>

section \<open>Scripts\<close>

text \<open>The class of a protocol, as far as the generators look at it.\<close>

record protocol_class =
  class_name :: string
  class_rpcs :: "rpc list"
  class_doc :: "rpc \<Rightarrow> string"

text \<open>An instance with its two generators: the settings of both, and the texts that the generator for C collects.\<close>

record toolchain =
  cache :: generator
  c_set :: c_settings
  c_state :: c_generator
  cs_set :: cs_settings

text \<open>
  The constructors: \<open>dir\<close> is \<^verbatim>\<open>sys.path[0]\<close>, \<open>tmpl\<close> are the templates for C if the package has them, and \<open>cls\<close> is
  \<open>None\<close> for a value that is not a subclass of \<^verbatim>\<open>Protocol\<close>.
\<close>

definition CCodeGenerator_settings :: "string \<Rightarrow> (string \<times> string) option \<Rightarrow> c_settings" where
  "CCodeGenerator_settings dir tmpl =
     \<lparr>filename = ''compost'', path_header = dir, path_source = dir, templates = tmpl\<rparr>"

definition Generator_new ::
  "protocol_class option \<Rightarrow> string \<Rightarrow> (string \<times> string) option \<Rightarrow> toolchain res" where
  "Generator_new cls dir tmpl =
     (case cls of
        None \<Rightarrow> Inl TypeError
      | Some P \<Rightarrow> Inr \<lparr>cache = Generator_init, c_set = CCodeGenerator_settings dir tmpl, c_state = CCodeGenerator_init,
                       cs_set = CSharpCodeGenerator_init (class_name P) dir\<rparr>)"

text \<open>A call of \<^verbatim>\<open>generate\<close> carries what it draws from its environment.\<close>

datatype stmt =
  Generate language "endpoint option" gen_info
| SetForce bool
| SetCFilename string
| SetCPath string
| SetCPathHeader string
| SetCPathSource string
| SetCsFilename string
| SetCsPath string

definition default_endpoint :: "language \<Rightarrow> endpoint" where
  "default_endpoint l = (case l of LangC \<Rightarrow> REMOTE | LangCSharp \<Rightarrow> LOCAL)"

text \<open>
  \<^verbatim>\<open>generate\<close> through the wrapper: the generator runs first, then its result is checked and cached.  When the generator
  itself raises, the exception leaves the block and its collected texts are not used again.
\<close>

definition patched_generate :: "protocol_class \<Rightarrow> ctype list \<Rightarrow> language \<Rightarrow> endpoint option \<Rightarrow> gen_info \<Rightarrow> toolchain \<Rightarrow> files res \<times> toolchain" where
  "patched_generate P ts l eo i T =
     (let e = (case eo of Some e \<Rightarrow> e | None \<Rightarrow> default_endpoint l) in
      case l of
        LangC \<Rightarrow>
          (case c_generate (c_set T) i (class_doc P) ts (class_rpcs P) e (c_state T) of
             Inl err \<Rightarrow> (Inl err, T)
           | Inr (out, g) \<Rightarrow> (case cached_generate l e (Inr out) (cache T) of (r, c) \<Rightarrow> (r, T\<lparr>c_state := g, cache := c\<rparr>)))
      | LangCSharp \<Rightarrow>
          (case cached_generate l e (cs_generate (cs_set T) (class_doc P) ts (class_rpcs P) e) (cache T) of
             (r, c) \<Rightarrow> (r, T\<lparr>cache := c\<rparr>)))"

fun exec_stmt :: "protocol_class \<Rightarrow> ctype list \<Rightarrow> stmt \<Rightarrow> toolchain \<Rightarrow> unit res \<times> toolchain" where
  "exec_stmt P ts (Generate l e i) T = (case patched_generate P ts l e i T of (r, T) \<Rightarrow> (rbind r (\<lambda>_. Inr ()), T))"
| "exec_stmt P ts (SetForce b) T = (Inr (), T\<lparr>cache := (cache T)\<lparr>force_overwrite := b\<rparr>\<rparr>)"
| "exec_stmt P ts (SetCFilename s) T = (Inr (), T\<lparr>c_set := (c_set T)\<lparr>filename := s\<rparr>\<rparr>)"
| "exec_stmt P ts (SetCPath s) T = (Inr (), T\<lparr>c_set := (c_set T)\<lparr>path_header := s, path_source := s\<rparr>\<rparr>)"
| "exec_stmt P ts (SetCPathHeader s) T = (Inr (), T\<lparr>c_set := (c_set T)\<lparr>path_header := s\<rparr>\<rparr>)"
| "exec_stmt P ts (SetCPathSource s) T = (Inr (), T\<lparr>c_set := (c_set T)\<lparr>path_source := s\<rparr>\<rparr>)"
| "exec_stmt P ts (SetCsFilename s) T = (Inr (), T\<lparr>cs_set := (cs_set T)\<lparr>cs_filename := s\<rparr>\<rparr>)"
| "exec_stmt P ts (SetCsPath s) T = (Inr (), T\<lparr>cs_set := (cs_set T)\<lparr>cs_path := s\<rparr>\<rparr>)"

text \<open>The body of a block ends with its first exception.\<close>

fun exec_block :: "protocol_class \<Rightarrow> ctype list \<Rightarrow> stmt list \<Rightarrow> toolchain \<Rightarrow> unit res \<times> generator" where
  "exec_block P ts [] T = (Inr (), cache T)"
| "exec_block P ts (st # sts) T =
     (case exec_stmt P ts st T of
        (Inl err, T) \<Rightarrow> (Inl err, cache T)
      | (Inr _, T) \<Rightarrow> exec_block P ts sts T)"

text \<open>
  \<^verbatim>\<open>with Generator(...) as gen\<close>: the exception of the body, if any, and the file system after \<^verbatim>\<open>__exit__\<close>, or \<open>None\<close>
  while the prompt waits.
\<close>

definition with_block :: "protocol_class \<Rightarrow> ctype list \<Rightarrow> stmt list \<Rightarrow> toolchain \<Rightarrow> string list \<Rightarrow> (path \<Rightarrow> string option) \<Rightarrow>
    unit res \<times> (path \<Rightarrow> string option) option" where
  "with_block P ts sts T input fs =
     (case exec_block P ts sts (T\<lparr>cache := Generator_enter (cache T)\<rparr>) of
        (r, g) \<Rightarrow> (r, snd (Generator_exit g input fs)))"

section \<open>Blocks keep the invariant of the cache\<close>

lemma exec_stmt_reachable:
  assumes "gen_reachable (cache T)" shows "gen_reachable (cache (snd (exec_stmt P ts st T)))"
proof (cases st)
  case (Generate l eo i)
  let ?e = "case eo of Some e \<Rightarrow> e | None \<Rightarrow> default_endpoint l"
  have "gen_reachable (snd (cached_generate l ?e original (cache T)))" for original
    using assms by (rule gen_reachable.generate)
  then have "gen_reachable c" if "cached_generate l ?e original (cache T) = (r, c)" for original r c
    using that by (metis snd_conv)
  then show ?thesis
    using assms by (auto simp: Generate patched_generate_def Let_def split: language.splits sum.splits prod.splits)
qed (use assms in \<open>simp_all add: gen_reachable.force\<close>)

lemma exec_block_reachable: "gen_reachable (cache T) \<Longrightarrow> gen_reachable (snd (exec_block P ts sts T))"
proof (induction sts arbitrary: T)
  case (Cons st sts)
  obtain r T' where r: "exec_stmt P ts st T = (r, T')" by fastforce
  have "gen_reachable (cache T')" using exec_stmt_reachable [OF Cons.prems, of P ts st] r by simp
  with Cons.IH r show ?case by (cases r) auto
qed simp

text \<open>When nothing has to be asked, everything is written.\<close>

lemma write_output_map_of: "distinct (map fst out) \<Longrightarrow> write_output out fs = fs ++ map_of out"
proof
  fix p assume d: "distinct (map fst out)"
  show "write_output out fs p = (fs ++ map_of out) p"
  proof (cases "map_of out p")
    case None
    then have "p \<notin> set (map fst out)" by (simp add: map_of_eq_None_iff)
    with None show ?thesis by (simp add: write_output_other map_add_def)
  next
    case (Some c)
    with d map_of_SomeD [OF Some] show ?thesis by (simp add: write_output_in map_add_def)
  qed
qed

lemma write_all_map_of:
  assumes "distinct (out_paths oc')" and "set over \<subseteq> {k. typed oc k \<in> set ans}"
  shows "write_all oc oc' over ans fs = fs ++ map_of (concat (map snd oc'))"
  using assms(1)
proof (induction oc' arbitrary: fs)
  case (Cons x oc')
  obtain k out where x: "x = (k, out)" by fastforce
  have d: "distinct (map fst out)" "distinct (out_paths oc')" "set (map fst out) \<inter> set (out_paths oc') = {}"
    using Cons.prems by (auto simp: x out_paths_def)
  have k: "\<not> (k \<in> set over \<and> typed oc k \<notin> set ans)" using assms(2) by blast
  have "dom (map_of out) \<inter> dom (map_of (concat (map snd oc'))) = {}"
    using d(3) by (simp add: dom_map_of_conv_image_fst out_paths_def map_concat comp_def split_def image_UN)
  then have "map_of (concat (map snd oc')) ++ map_of out = map_of out ++ map_of (concat (map snd oc'))"
    by (subst map_add_comm) (simp_all add: Int_commute)
  with Cons.IH [OF d(2)] d(1) show ?case by (simp only: x) (simp add: k write_output_map_of del: de_Morgan_conj)
qed simp

lemma exit_writes:
  assumes "gen_reachable g" and "force_overwrite g \<or> to_overwrite (output_cache g) fs = []"
  shows "snd (Generator_exit g input fs) = Some (fs ++ map_of (concat (map snd (output_cache g))))"
proof -
  have "distinct (out_paths (output_cache g))" using gen_reachable_inv [OF assms(1)] by (simp add: gen_inv_def)
  from write_all_map_of [OF this, of "to_overwrite (output_cache g) fs" "output_cache g"
      "map (typed (output_cache g)) (to_overwrite (output_cache g) fs)" fs] assms(2)
  show ?thesis by (auto simp: Generator_exit_def Generator_run_def Let_def)
qed

lemma with_block_writes:
  assumes "cache T = Generator_init" and "exec_block P ts sts (T\<lparr>cache := Generator_enter Generator_init\<rparr>) = (r, g)"
    and "force_overwrite g \<or> (\<forall>p \<in> set (out_paths (output_cache g)). fs p = None)"
  shows "with_block P ts sts T input fs = (r, Some (fs ++ map_of (concat (map snd (output_cache g)))))"
proof -
  have "gen_reachable g"
    using exec_block_reachable [of "T\<lparr>cache := Generator_enter Generator_init\<rparr>" P ts sts] assms(2)
    by (simp add: gen_reachable.enter gen_reachable.init)
  moreover have "force_overwrite g \<or> to_overwrite (output_cache g) fs = []"
    using assms(3) by (force simp: to_overwrite_def out_paths_def filter_empty_conv)
  ultimately show ?thesis using exit_writes assms(1,2) by (simp add: with_block_def)
qed

section \<open>The paths\<close>

text \<open>The files of the two generators differ in their endings, whatever the settings are.\<close>

definition c_paths :: "c_settings \<Rightarrow> path list" where
  "c_paths cfg = [path_header cfg @ ''/'' @ filename cfg @ ''.h'', path_source cfg @ ''/'' @ filename cfg @ ''.c'']"

definition cs_paths :: "cs_settings \<Rightarrow> ctype list \<Rightarrow> path list" where
  "cs_paths cfg ts = (cs_path cfg @ ''/'' @ cs_filename cfg @ ''.cs'') #
     (if ts = [] then [] else [cs_path cfg @ ''/'' @ cs_filename cfg @ ''Types.cs''])"

lemma paths_distinct: "distinct (c_paths cfg @ cs_paths cfg' ts)"
proof -
  have "x @ ''.h'' \<noteq> y @ ''.c''" "x @ ''.h'' \<noteq> y @ ''.cs''" "x @ ''.c'' \<noteq> y @ ''.cs''"
    "x @ ''.h'' \<noteq> y @ ''Types.cs''" "x @ ''.c'' \<noteq> y @ ''Types.cs''" for x y :: string
    by (auto dest: arg_cong [where f = last])
  from this [of "a @ ''/'' @ b" "c @ ''/'' @ d" for a b c d] show ?thesis by (simp add: c_paths_def cs_paths_def)
qed

lemma register_fresh:
  "distinct (map fst out) \<Longrightarrow> set (map fst out) \<inter> fst ` set pc = {} \<Longrightarrow>
   register_paths key out pc = (Inr (), pc @ map (\<lambda>x. (fst x, key)) out)"
proof (induction key out pc rule: register_paths.induct)
  case (2 key p c ps pc)
  then have "p \<notin> fst ` set pc" by auto
  moreover from this 2 have "register_paths key ps (pc @ [(p, key)]) = (Inr (), (pc @ [(p, key)]) @ map (\<lambda>x. (fst x, key)) ps)"
    by auto
  ultimately show ?case by simp
qed simp

lemma cached_generate_fresh:
  assumes "distinct (map fst out)" and "set (map fst out) \<inter> fst ` set (path_cache g) = {}"
    and "(l, e) \<notin> fst ` set (output_cache g)"
  shows "cached_generate l e (Inr out) g = (Inr out, g\<lparr>path_cache := path_cache g @ map (\<lambda>x. (fst x, (l, e))) out,
    output_cache := output_cache g @ [((l, e), out)]\<rparr>)"
  using register_fresh [OF assms(1,2), of "(l, e)"] assms(3) by (simp add: cached_generate_def Let_def)


text \<open>A call of \<^verbatim>\<open>generate\<close> for C that is supported, and whose files are not taken.\<close>

definition c_ready :: "protocol_class \<Rightarrow> ctype list \<Rightarrow> endpoint \<Rightarrow> bool" where
  "c_ready P ts e \<longleftrightarrow> validate_endpoint CCodeGenerator_features e (class_rpcs P) = Inr () \<and>
     list_all declarable ts \<and> list_all rpc_declarable (class_rpcs P)"

definition cs_ready :: "protocol_class \<Rightarrow> ctype list \<Rightarrow> endpoint \<Rightarrow> bool" where
  "cs_ready P ts e \<longleftrightarrow> validate_endpoint CSharpCodeGenerator_features e (class_rpcs P) = Inr () \<and>
     list_all cs_declarable ts \<and> list_all (\<lambda>r. cs_rpc_ok r \<and> documented (class_doc P r)) (class_rpcs P)"

lemma c_ready_generates:
  assumes "c_ready P ts e" and "templates_ok cfg"
  shows "\<exists>out g'. c_generate cfg i (class_doc P) ts (class_rpcs P) e g = Inr (out, g') \<and> map fst out = c_paths cfg"
  using c_generate_total [of e "class_rpcs P" ts cfg] assms by (force simp: c_ready_def c_paths_def)

lemma cs_ready_generates:
  assumes "cs_ready P ts e"
  shows "\<exists>out. cs_generate cfg (class_doc P) ts (class_rpcs P) e = Inr out \<and> map fst out = cs_paths cfg ts"
  using cs_generate_total [of e "class_rpcs P" ts "class_doc P" cfg] assms by (simp add: cs_ready_def cs_paths_def)

lemma fst_set: "fst ` set out = set (map fst out)"
  by simp

lemma generate_c_step:
  assumes "c_generate (c_set T) i (class_doc P) ts (class_rpcs P) e (c_state T) = Inr (out, g')"
    and "map fst out = c_paths (c_set T)" and "set (c_paths (c_set T)) \<inter> fst ` set (path_cache (cache T)) = {}"
    and "(LangC, e) \<notin> fst ` set (output_cache (cache T))"
  shows "exec_stmt P ts (Generate LangC (Some e) i) T = (Inr (), T\<lparr>c_state := g', cache := (cache T)
    \<lparr>path_cache := path_cache (cache T) @ map (\<lambda>x. (fst x, (LangC, e))) out,
     output_cache := output_cache (cache T) @ [((LangC, e), out)]\<rparr>\<rparr>)"
proof -
  have "distinct (map fst out)" using paths_distinct [of "c_set T" undefined "[]"] assms(2) by simp
  from cached_generate_fresh [OF this _ assms(4)] assms(1-3) show ?thesis
    by (simp add: patched_generate_def fst_set del: set_map)
qed

lemma generate_cs_step:
  assumes "cs_generate (cs_set T) (class_doc P) ts (class_rpcs P) e = Inr out"
    and "map fst out = cs_paths (cs_set T) ts" and "set (cs_paths (cs_set T) ts) \<inter> fst ` set (path_cache (cache T)) = {}"
    and "(LangCSharp, e) \<notin> fst ` set (output_cache (cache T))"
  shows "exec_stmt P ts (Generate LangCSharp (Some e) i) T = (Inr (), T\<lparr>cache := (cache T)
    \<lparr>path_cache := path_cache (cache T) @ map (\<lambda>x. (fst x, (LangCSharp, e))) out,
     output_cache := output_cache (cache T) @ [((LangCSharp, e), out)]\<rparr>\<rparr>)"
proof -
  have "distinct (map fst out)" using paths_distinct [of undefined "cs_set T" ts] assms(2) by simp
  from cached_generate_fresh [OF this _ assms(4)] assms(1-3) show ?thesis
    by (simp add: patched_generate_def fst_set del: set_map)
qed

section \<open>Properties\<close>

text \<open>
  C21. A \<^verbatim>\<open>with\<close> block over a new \<^verbatim>\<open>Generator\<close> that generates a supported protocol for C and for C#, where none of the
  files exists, ends without exception and without a question, and has written exactly the files that the two
  generators return: the header, the source, the class, and the types if there are any.
\<close>

theorem with_block_writes_both:
  assumes "Generator_new (Some P) dir tmpl = Inr T" and "templates_ok (c_set T)"
    and "c_ready P ts e" and "cs_ready P ts e'"
    and "\<forall>p \<in> set (c_paths (c_set T) @ cs_paths (cs_set T) ts). fs p = None"
  shows "\<exists>out g out'. c_generate (c_set T) i (class_doc P) ts (class_rpcs P) e CCodeGenerator_init = Inr (out, g) \<and>
    cs_generate (cs_set T) (class_doc P) ts (class_rpcs P) e' = Inr out' \<and>
    map fst out = c_paths (c_set T) \<and> map fst out' = cs_paths (cs_set T) ts \<and>
    with_block P ts [Generate LangC (Some e) i, Generate LangCSharp (Some e') i'] T input fs =
      (Inr (), Some (fs ++ map_of (out @ out')))"
proof -
  have T: "cache T = Generator_init" "c_state T = CCodeGenerator_init" "templates_ok (c_set T)"
    using assms(1,2) by (auto simp: Generator_new_def)
  obtain out g where out: "c_generate (c_set T) i (class_doc P) ts (class_rpcs P) e CCodeGenerator_init = Inr (out, g)"
    "map fst out = c_paths (c_set T)" using c_ready_generates [OF assms(3) T(3)] by blast
  obtain out' where out': "cs_generate (cs_set T) (class_doc P) ts (class_rpcs P) e' = Inr out'"
    "map fst out' = cs_paths (cs_set T) ts" using cs_ready_generates [OF assms(4)] by blast
  let ?T1 = "T\<lparr>cache := Generator_enter Generator_init\<rparr>"
  let ?pc = "map (\<lambda>x. (fst x, (LangC, e))) out"
  let ?T2 = "?T1\<lparr>c_state := g, cache := (cache ?T1)\<lparr>path_cache := ?pc, output_cache := [((LangC, e), out)]\<rparr>\<rparr>"
  have s1: "exec_stmt P ts (Generate LangC (Some e) i) ?T1 = (Inr (), ?T2)"
    using generate_c_step [of ?T1 i P ts e out g] out T by (simp add: Generator_enter_def Generator_init_def)
  have "fst ` set ?pc = set (c_paths (c_set T))" using out(2) by (simp add: image_image flip: out(2))
  then have "set (cs_paths (cs_set ?T2) ts) \<inter> fst ` set (path_cache (cache ?T2)) = {}"
    using paths_distinct [of "c_set T" "cs_set T" ts] by auto
  then have s2: "exec_stmt P ts (Generate LangCSharp (Some e') i') ?T2 = (Inr (), ?T2\<lparr>cache := (cache ?T2)
      \<lparr>path_cache := ?pc @ map (\<lambda>x. (fst x, (LangCSharp, e'))) out',
       output_cache := [((LangC, e), out), ((LangCSharp, e'), out')]\<rparr>\<rparr>)"
    using generate_cs_step [of ?T2 P ts e' out'] out' by simp
  have "out_paths [((LangC, e), out), ((LangCSharp, e'), out')] = c_paths (c_set T) @ cs_paths (cs_set T) ts"
    using out(2) out'(2) by (simp add: out_paths_def)
  with with_block_writes [OF T(1), of P ts "[Generate LangC (Some e) i, Generate LangCSharp (Some e') i']"] s1 s2 assms(5)
  have "with_block P ts [Generate LangC (Some e) i, Generate LangCSharp (Some e') i'] T input fs =
      (Inr (), Some (fs ++ map_of (out @ out')))" by simp
  with out out' show ?thesis by blast
qed

text \<open>A protocol with one procedure, as an example.\<close>

definition Demo :: protocol_class where
  "Demo = \<lparr>class_name = ''Demo'', class_rpcs = [read8], class_doc = \<lambda>_. ''Reads a byte.''\<rparr>"

definition Demo_info :: gen_info where
  "Demo_info = \<lparr>uuid_hex = ''0123456789abcdef0123456789abcdef'', gentime = ''2024-01-01T00:00:00''\<rparr>"

lemma Demo_templates:
  assumes "Generator_new (Some P) dir (Some (''${protocol}'', ''${serdes}'')) = Inr T"
  shows "templates_ok (c_set T)"
proof -
  have "template_over [''uuid_hi'', ''uuid_lo'', ''version_info'', ''filename_caps'', ''protocol''] ''${protocol}''"
    "template_over [''uuid_hi'', ''uuid_lo'', ''filename'', ''serdes''] ''${serdes}''" by code_simp+
  then show ?thesis using assms by (auto simp: Generator_new_def CCodeGenerator_settings_def templates_ok_def)
qed

lemma Demo_ready: "c_ready Demo [] REMOTE" "cs_ready Demo [] LOCAL"
proof -
  have "validate_endpoint CCodeGenerator_features REMOTE [read8] = Inr ()"
    "validate_endpoint CSharpCodeGenerator_features LOCAL [read8] = Inr ()"
    "ident ''read8''" "ident ''address''" "documented ''Reads a byte.''" by code_simp+
  then show "c_ready Demo [] REMOTE" "cs_ready Demo [] LOCAL"
    by (simp_all add: c_ready_def cs_ready_def Demo_def cs_rpc_ok_def rpc_declarable_def read8_def Rpc_new_def get_param_items_def)
qed

theorem with_block_writes_both_witness:
  "\<exists>T fs'. Generator_new (Some Demo) ''out'' (Some (''${protocol}'', ''${serdes}'')) = Inr T \<and>
    with_block Demo [] [Generate LangC (Some REMOTE) Demo_info, Generate LangCSharp (Some LOCAL) Demo_info] T [] [''keep'' \<mapsto> ''x''] = (Inr (), Some fs') \<and>
    dom fs' = {''keep'', ''out/compost.h'', ''out/compost.c'', ''out/Demo.cs''}"
proof -
  obtain T where T: "Generator_new (Some Demo) ''out'' (Some (''${protocol}'', ''${serdes}'')) = Inr T" by (simp add: Generator_new_def)
  have p: "c_paths (c_set T) = [''out/compost.h'', ''out/compost.c'']" "cs_paths (cs_set T) [] = [''out/Demo.cs'']"
    using T by (auto simp: Generator_new_def c_paths_def cs_paths_def CCodeGenerator_settings_def CSharpCodeGenerator_init_def Demo_def)
  have free: "\<forall>f \<in> set (c_paths (c_set T) @ cs_paths (cs_set T) []). [''keep'' \<mapsto> ''x''] f = None" by (simp_all add: p)
  obtain out out' where "map fst out = c_paths (c_set T)" "map fst out' = cs_paths (cs_set T) []"
    "with_block Demo [] [Generate LangC (Some REMOTE) Demo_info, Generate LangCSharp (Some LOCAL) Demo_info] T [] [''keep'' \<mapsto> ''x''] =
      (Inr (), Some ([''keep'' \<mapsto> ''x''] ++ map_of (out @ out')))"
    using with_block_writes_both [OF T Demo_templates [OF T] Demo_ready, where fs = "[''keep'' \<mapsto> ''x'']" and input = "[]" and i = Demo_info and i' = Demo_info] free by blast
  moreover from this p have "fst ` set (out @ out') = {''out/compost.h'', ''out/compost.c'', ''out/Demo.cs''}"
    by (simp only: fst_set map_append) simp
  ultimately show ?thesis using T by (auto simp: dom_map_of_conv_image_fst simp del: map_of_append set_append)
qed

text \<open>
  C35. Generating C for both endpoints of a protocol without changing the name of the files raises \<^verbatim>\<open>ValueError\<close>, and
  nevertheless the block writes the files of the first endpoint when it is left.
\<close>

theorem second_endpoint_conflicts:
  assumes "Generator_new (Some P) dir tmpl = Inr T" and "templates_ok (c_set T)"
    and "c_ready P ts e" and "c_ready P ts e'"
    and "\<forall>p \<in> set (c_paths (c_set T)). fs p = None"
  shows "\<exists>out g. c_generate (c_set T) i (class_doc P) ts (class_rpcs P) e CCodeGenerator_init = Inr (out, g) \<and>
    with_block P ts [Generate LangC (Some e) i, Generate LangC (Some e') i'] T input fs =
      (Inl ValueError, Some (fs ++ map_of out))"
proof -
  have T: "cache T = Generator_init" "c_state T = CCodeGenerator_init" "templates_ok (c_set T)"
    using assms(1,2) by (auto simp: Generator_new_def)
  obtain out g where out: "c_generate (c_set T) i (class_doc P) ts (class_rpcs P) e CCodeGenerator_init = Inr (out, g)"
    "map fst out = c_paths (c_set T)" using c_ready_generates [OF assms(3) T(3)] by blast
  obtain out' g' where out': "c_generate (c_set T) i' (class_doc P) ts (class_rpcs P) e' g = Inr (out', g')"
    "map fst out' = c_paths (c_set T)" using c_ready_generates [OF assms(4) T(3)] by blast
  let ?T1 = "T\<lparr>cache := Generator_enter Generator_init\<rparr>"
  let ?pc = "map (\<lambda>x. (fst x, (LangC, e))) out"
  let ?T2 = "?T1\<lparr>c_state := g, cache := (cache ?T1)\<lparr>path_cache := ?pc, output_cache := [((LangC, e), out)]\<rparr>\<rparr>"
  have s1: "exec_stmt P ts (Generate LangC (Some e) i) ?T1 = (Inr (), ?T2)"
    using generate_c_step [of ?T1 i P ts e out g] out T by (simp add: Generator_enter_def Generator_init_def)
  have eq: "map fst out' = map fst out" using out(2) out'(2) by simp
  obtain p c ps where o': "out' = (p, c) # ps" using out'(2) by (cases out') (auto simp: c_paths_def)
  then have "p \<in> set (map fst out)" unfolding eq [symmetric] by simp
  then have "p \<in> fst ` set ?pc" by (simp add: image_image)
  then have "cached_generate LangC e' (Inr out') (cache ?T2) = (Inl ValueError, cache ?T2)"
    by (simp add: cached_generate_def Let_def o')
  then have "exec_stmt P ts (Generate LangC (Some e') i') ?T2 = (Inl ValueError, ?T2\<lparr>c_state := g', cache := cache ?T2\<rparr>)"
    using out'(1) by (simp add: patched_generate_def)
  moreover have "out_paths [((LangC, e), out)] = c_paths (c_set T)" using out(2) by (simp add: out_paths_def)
  ultimately show ?thesis
    using with_block_writes [OF T(1), of P ts "[Generate LangC (Some e) i, Generate LangC (Some e') i']"] s1 assms(5) out(1)
    by simp
qed

theorem second_endpoint_conflicts_witness:
  "\<exists>T fs'. Generator_new (Some Demo) ''out'' (Some (''${protocol}'', ''${serdes}'')) = Inr T \<and>
    with_block (Demo\<lparr>class_rpcs := [alert]\<rparr>) [] [Generate LangC (Some REMOTE) Demo_info, Generate LangC (Some LOCAL) Demo_info] T [] Map.empty =
      (Inl ValueError, Some fs')"
proof -
  let ?P = "Demo\<lparr>class_rpcs := [alert]\<rparr>"
  obtain T where T: "Generator_new (Some Demo) ''out'' (Some (''${protocol}'', ''${serdes}'')) = Inr T" by (simp add: Generator_new_def)
  then have TP: "Generator_new (Some ?P) ''out'' (Some (''${protocol}'', ''${serdes}'')) = Inr T" by (simp add: Generator_new_def Demo_def)
  have "validate_endpoint CCodeGenerator_features REMOTE [alert] = Inr ()"
    "validate_endpoint CCodeGenerator_features LOCAL [alert] = Inr ()" by code_simp+
  then have r: "c_ready ?P [] REMOTE" "c_ready ?P [] LOCAL"
    by (simp_all add: c_ready_def Demo_def rpc_declarable_def alert_def Rpc_new_def get_param_items_def)
  from second_endpoint_conflicts [OF TP Demo_templates [OF T] r, where fs = Map.empty and input = "[]" and i = Demo_info and i' = Demo_info] T show ?thesis by auto
qed

end
