(* ===== verification/BuildScript.thy ===== *)
theory BuildScript
  imports Prelude
begin

text \<open>
  The script \<^verbatim>\<open>x.py\<close>, which builds and tests the project: a registry of targets with dependencies, each of which runs at
  most once, and the commands they start.  The programs that are started are a parameter, which tells for every list
  of arguments whether the program succeeds.
\<close>

section \<open>Targets\<close>

datatype outcome = Succeeds | Fails | NotFound

text \<open>
  A target is its name, its message, its dependencies and its body.  The dependencies are a set in the code; the list
  gives the order in which the interpreter goes through it.
\<close>

datatype target = Target (target_name: string) (message: "string option") (dependencies: "target list") (body: "step list")
  and step = Run "string list" bool | Call target | Say string

text \<open>The names of the targets that have run, and the argument lists that were started, in their order.\<close>

record build =
  already_run :: "string list"
  started :: "string list list"

text \<open>\<^verbatim>\<open>subprocess.run\<close> with \<^verbatim>\<open>shell=True\<close> on a POSIX system puts the list behind \<^verbatim>\<open>/bin/sh -c\<close>.\<close>

definition argv :: "string list \<Rightarrow> bool \<Rightarrow> string list" where
  "argv args shell = (if shell then [''/bin/sh'', ''-c''] @ args else args)"

text \<open>\<^verbatim>\<open>run\<close> ends the script when the command fails or does not exist; the result tells whether the script goes on.\<close>

definition run_command :: "(string list \<Rightarrow> outcome) \<Rightarrow> string list \<Rightarrow> bool \<Rightarrow> build \<Rightarrow> bool \<times> build" where
  "run_command os args shell b =
     (os (argv args shell) = Succeeds, b\<lparr>started := started b @ [argv args shell]\<rparr>)"

text \<open>\<^verbatim>\<open>already_run.add\<close>, with the set kept in the order of the additions.\<close>

definition mark :: "string \<Rightarrow> string list \<Rightarrow> string list" where
  "mark n ns = (if n \<in> set ns then ns else ns @ [n])"

text \<open>The wrapper that the decorator \<^verbatim>\<open>target\<close> puts around a function.\<close>

fun run_target :: "(string list \<Rightarrow> outcome) \<Rightarrow> target \<Rightarrow> build \<Rightarrow> bool \<times> build"
  and run_deps :: "(string list \<Rightarrow> outcome) \<Rightarrow> target list \<Rightarrow> build \<Rightarrow> bool \<times> build"
  and run_body :: "(string list \<Rightarrow> outcome) \<Rightarrow> step list \<Rightarrow> build \<Rightarrow> bool \<times> build" where
  "run_target os (Target n msg deps bdy) b =
     (if n \<in> set (already_run b) then (True, b)
      else
        (case run_deps os deps b of
           (False, b) \<Rightarrow> (False, b)
         | (True, b) \<Rightarrow>
             (case run_body os bdy b of
                (False, b) \<Rightarrow> (False, b)
              | (True, b) \<Rightarrow> (True, b\<lparr>already_run := mark n (already_run b)\<rparr>))))"
| "run_deps os [] b = (True, b)"
| "run_deps os (d # ds) b =
     (case run_target os d b of (False, b) \<Rightarrow> (False, b) | (True, b) \<Rightarrow> run_deps os ds b)"
| "run_body os [] b = (True, b)"
| "run_body os (Run args shell # ss) b =
     (case run_command os args shell b of (False, b) \<Rightarrow> (False, b) | (True, b) \<Rightarrow> run_body os ss b)"
| "run_body os (Call t # ss) b =
     (case run_target os t b of (False, b) \<Rightarrow> (False, b) | (True, b) \<Rightarrow> run_body os ss b)"
| "run_body os (Say m # ss) b = run_body os ss b"

section \<open>The targets of the project\<close>

text \<open>The programs come from the environment variables \<^verbatim>\<open>CC\<close>, \<^verbatim>\<open>CC_PPC\<close> and \<^verbatim>\<open>PYTHON\<close>, or are defaults.\<close>

record tools =
  CC :: string
  CC_PPC :: string
  PYTHON :: string

definition CFLAGS :: "string list" where
  "CFLAGS =
     [''-std=c11'', ''-Og'', ''-g'', ''-Wall'', ''-Wextra'', ''-pedantic'', ''-fanalyzer'', ''-Wno-analyzer-infinite-loop'',
      ''-I.'', ''-Imock'', ''-DCOMPOST_DEBUG'']"

definition CFLAGS_SANITIZED :: "string list" where
  "CFLAGS_SANITIZED = [''-fsanitize=undefined'', ''-fsanitize=address'']"

definition CFLAGS_POWERPC :: "string list" where
  "CFLAGS_POWERPC = [''-static'']"

definition codegen :: "tools \<Rightarrow> target" where
  "codegen e = Target ''codegen'' (Some ''Generating code'') [] [Run [PYTHON e, ''protocol_def.py''] False]"

definition slice_sources :: "string list" where
  "slice_sources = [''test_slice.c'', ''compost.c'', ''protocol_impl.c'', ''-o'', ''test_slice'']"

definition slices_test :: "tools \<Rightarrow> target" where
  "slices_test e = Target ''slices_test'' (Some ''Testing slices'') [codegen e]
     [Run (CC e # CFLAGS @ slice_sources) False, Run [''./test_slice''] False]"

definition slices_sanitized_test :: "tools \<Rightarrow> target" where
  "slices_sanitized_test e = Target ''slices_sanitized_test'' (Some ''Testing slices (sanitized)'') [codegen e]
     [Run (CC e # CFLAGS @ CFLAGS_SANITIZED @ slice_sources) False, Run [''./test_slice''] False]"

definition slices_powerpc_test :: "tools \<Rightarrow> target" where
  "slices_powerpc_test e = Target ''slices_powerpc_test'' (Some ''Testing slices (PowerPC)'') [codegen e]
     [Run (CC_PPC e # CFLAGS @ CFLAGS_POWERPC @ slice_sources) False, Run [''qemu-ppc'', ''./test_slice''] False]"

definition mock_sources :: "string list" where
  "mock_sources = [''mock/main.c'', ''compost.c'', ''protocol_impl.c'']"

definition mock :: "tools \<Rightarrow> target" where
  "mock e = Target ''mock'' (Some ''Building mock'') [codegen e]
     [Run (CC e # CFLAGS @ [''-o'', ''mock/compost_mock''] @ mock_sources) False]"

definition mock_sanitized :: "tools \<Rightarrow> target" where
  "mock_sanitized e = Target ''mock_sanitized'' (Some ''Building mock (sanitized)'') [codegen e]
     [Run (CC e # CFLAGS @ CFLAGS_SANITIZED @ [''-o'', ''mock/compost_mock''] @ mock_sources) False]"

definition mock_powerpc :: "tools \<Rightarrow> target" where
  "mock_powerpc e = Target ''mock_powerpc'' (Some ''Building mock (PowerPC)'') [codegen e]
     [Run (CC_PPC e # CFLAGS @ CFLAGS_POWERPC @ [''-o'', ''mock/compost_mock_ppc''] @ mock_sources) False]"

text \<open>The checks pass a list together with \<^verbatim>\<open>shell=True\<close>.\<close>

definition mock_check :: "tools \<Rightarrow> target" where
  "mock_check e = Target ''mock_check'' (Some ''Checking mock'') [mock e]
     [Run [''echo'', ''\"00 01 02 03\" | xxd -r -p | ./mock/compost_mock > /dev/null\"''] True]"

definition mock_powerpc_check :: "tools \<Rightarrow> target" where
  "mock_powerpc_check e = Target ''mock_powerpc_check'' (Some ''Checking mock (PowerPC)'') [mock_powerpc e]
     [Run [''echo'', ''\"00 01 02 03\" | xxd -r -p | qemu-ppc ./mock/compost_mock_ppc > /dev/null\"''] True]"

definition mock_sanitized_check :: "tools \<Rightarrow> target" where
  "mock_sanitized_check e = Target ''mock_sanitized_check'' (Some ''Checking mock (sanitized)'') [mock_sanitized e]
     [Run [''echo'', ''\"00 01 02 03\" | xxd -r -p | ./mock/compost_mock > /dev/null\"''] True]"

definition test_compost :: "tools \<Rightarrow> string \<Rightarrow> string list" where
  "test_compost e dev = [PYTHON e, ''test_compost.py'', ''--mock'', dev, ''--log-cli-level'', ''DEBUG'']"

definition mock_test :: "tools \<Rightarrow> target" where
  "mock_test e = Target ''mock_test'' (Some ''Testing Python with mock'') [mock e, mock_check e]
     [Run (test_compost e ''./mock/compost_mock'') False]"

definition mock_powerpc_test :: "tools \<Rightarrow> target" where
  "mock_powerpc_test e = Target ''mock_powerpc_test'' (Some ''Testing Python with mock (PowerPC)'') [mock_powerpc e, mock_powerpc_check e]
     [Run (test_compost e ''qemu-ppc ./mock/compost_mock_ppc'') False]"

definition mock_sanitized_test :: "tools \<Rightarrow> target" where
  "mock_sanitized_test e = Target ''mock_sanitized_test'' (Some ''Testing Python with mock (sanitized)'')
     [mock_sanitized e, mock_sanitized_check e] [Run (test_compost e ''./mock/compost_mock'') False]"

definition test :: "bool \<Rightarrow> tools \<Rightarrow> target" where
  "test linux e = Target ''test'' None []
     (if linux
      then [Call (slices_sanitized_test e), Call (mock_test e), Call (slices_powerpc_test e), Call (mock_powerpc_test e)]
      else [Call (slices_test e), Call (mock_test e), Say ''Not running on Linux - skipping advanced tests''])"

definition test_native :: "tools \<Rightarrow> target" where
  "test_native e = Target ''test_native'' None [] [Call (slices_test e), Call (mock_sanitized_test e)]"

definition test_powerpc :: "tools \<Rightarrow> target" where
  "test_powerpc e = Target ''test_powerpc'' None [] [Call (slices_powerpc_test e), Call (mock_powerpc_test e)]"

section \<open>The order of a build\<close>

text \<open>All targets that a target can reach.\<close>

fun reach :: "target \<Rightarrow> target set" and reach_step :: "step \<Rightarrow> target set" where
  "reach (Target n msg deps bdy) = insert (Target n msg deps bdy) ((\<Union>d \<in> set deps. reach d) \<union> (\<Union>s \<in> set bdy. reach_step s))"
| "reach_step (Run args shell) = {}"
| "reach_step (Call t) = reach t"
| "reach_step (Say m) = {}"

definition named_apart :: "target set \<Rightarrow> bool" where
  "named_apart U \<longleftrightarrow> (\<forall>s \<in> U. \<forall>t \<in> U. target_name s = target_name t \<longrightarrow> dependencies s = dependencies t)"

definition deps_first :: "target set \<Rightarrow> string list \<Rightarrow> bool" where
  "deps_first U ns \<longleftrightarrow> distinct ns \<and>
     (\<forall>t \<in> U. \<forall>i < length ns. target_name t = ns ! i \<longrightarrow> target_name ` set (dependencies t) \<subseteq> set (take i ns))"

lemma deps_first_mark:
  assumes "deps_first U ns" and "named_apart U" and "t \<in> U" and "target_name ` set (dependencies t) \<subseteq> set ns"
  shows "deps_first U (mark (target_name t) ns)"
proof (cases "target_name t \<in> set ns")
  case False
  have "target_name ` set (dependencies s) \<subseteq> set (take i (ns @ [target_name t]))"
    if "s \<in> U" "i < length (ns @ [target_name t])" "target_name s = (ns @ [target_name t]) ! i" for s i
  proof (cases "i < length ns")
    case True
    with that assms(1) show ?thesis by (simp add: deps_first_def nth_append)
  next
    case False
    then have "i = length ns" "target_name s = target_name t" using that(2,3) by (simp_all add: nth_append)
    then show ?thesis using assms(2-4) that(1) by (metis append_eq_conv_conj named_apart_def order_refl take_all)
  qed
  with False assms(1) show ?thesis by (simp add: mark_def deps_first_def)
qed (use assms in \<open>simp add: mark_def\<close>)

text \<open>A run starts commands until one does not succeed.\<close>

definition progress :: "(string list \<Rightarrow> outcome) \<Rightarrow> build \<Rightarrow> bool \<Rightarrow> build \<Rightarrow> bool" where
  "progress os b ok b' \<longleftrightarrow>
     (\<exists>cmds. started b' = started b @ cmds \<and> list_all (\<lambda>c. os c = Succeeds) (if ok then cmds else butlast cmds) \<and>
        (\<not> ok \<longrightarrow> cmds \<noteq> [] \<and> os (last cmds) \<noteq> Succeeds))"

lemma progress_same: "started b' = started b \<Longrightarrow> progress os b True b'"
  by (simp add: progress_def)

lemma progress_trans:
  assumes "progress os b True b1" and "progress os b1 ok b2" shows "progress os b ok b2"
proof -
  obtain xs where "started b1 = started b @ xs" "list_all (\<lambda>c. os c = Succeeds) xs" using assms(1) by (auto simp: progress_def)
  moreover obtain ys where "started b2 = started b1 @ ys" "list_all (\<lambda>c. os c = Succeeds) (if ok then ys else butlast ys)"
    "\<not> ok \<longrightarrow> ys \<noteq> [] \<and> os (last ys) \<noteq> Succeeds" using assms(2) unfolding progress_def by blast
  ultimately show ?thesis by (auto simp: progress_def butlast_append intro!: exI [of _ "xs @ ys"])
qed

lemma progress_command: "run_command os args shell b = (ok, b') \<Longrightarrow> progress os b ok b' \<and> already_run b' = already_run b"
  by (auto simp: run_command_def progress_def)

definition built :: "(string list \<Rightarrow> outcome) \<Rightarrow> target set \<Rightarrow> string set \<Rightarrow> build \<Rightarrow> bool \<Rightarrow> build \<Rightarrow> bool" where
  "built os U names b ok b' \<longleftrightarrow> progress os b ok b' \<and> deps_first U (already_run b') \<and>
     set (already_run b) \<subseteq> set (already_run b') \<and> (ok \<longrightarrow> names \<subseteq> set (already_run b'))"

lemma built_trans:
  "built os U ns b True b1 \<Longrightarrow> built os U ms b1 ok b2 \<Longrightarrow> ks \<subseteq> ns \<union> ms \<Longrightarrow> built os U ks b ok b2"
  using progress_trans [of os b b1 ok b2] unfolding built_def by blast

lemma built_fail: "built os U ns b False b1 \<Longrightarrow> built os U ms b False b1"
  by (simp add: built_def)

lemma run_built:
  assumes "named_apart U"
  shows "reach t \<subseteq> U \<Longrightarrow> deps_first U (already_run b) \<Longrightarrow> run_target os t b = (ok, b') \<Longrightarrow> built os U {target_name t} b ok b'"
    and "(\<Union>d \<in> set ds. reach d) \<subseteq> U \<Longrightarrow> deps_first U (already_run b) \<Longrightarrow> run_deps os ds b = (ok, b') \<Longrightarrow>
      built os U (target_name ` set ds) b ok b'"
    and "(\<Union>s \<in> set ss. reach_step s) \<subseteq> U \<Longrightarrow> deps_first U (already_run b) \<Longrightarrow> run_body os ss b = (ok, b') \<Longrightarrow>
      built os U {} b ok b'"
proof (induction os t b and os ds b and os ss b arbitrary: ok b' and ok b' and ok b' rule: run_target_run_deps_run_body.induct)
  case (1 os n msg deps bdy b)
  show ?case
  proof (cases "n \<in> set (already_run b)")
    case True
    then show ?thesis using "1.prems" by (auto simp: built_def progress_same)
  next
    case False
    obtain ok1 b1 where d: "run_deps os deps b = (ok1, b1)" by fastforce
    have b1: "built os U (target_name ` set deps) b ok1 b1" using "1.IH"(1) [OF False _ "1.prems"(2) d] "1.prems"(1) by auto
    show ?thesis
    proof (cases ok1)
      case True
      obtain ok2 b2 where r: "run_body os bdy b1 = (ok2, b2)" by fastforce
      have "deps_first U (already_run b1)" using b1 by (simp add: built_def)
      then have b2: "built os U {} b1 ok2 b2" using "1.IH"(2) [OF False d [symmetric] _ _ _ r] "1.prems"(1) True by auto
      then have b02: "built os U (target_name ` set deps) b ok2 b2" 
        using built_trans [of os U "target_name ` set deps" b b1 "{}" ok2 b2 "target_name ` set deps"] b1 True by simp
      show ?thesis
      proof (cases ok2)
        case True
        have "deps_first U (mark n (already_run b2))"
          using deps_first_mark [OF _ assms, of "already_run b2" "Target n msg deps bdy"] b02 "1.prems"(1) True
          by (simp add: built_def)
        then show ?thesis
          using b02 "1.prems"(3) False d r True \<open>ok1\<close> by (auto simp: built_def progress_def mark_def)
      next
        case False
        then show ?thesis using b02 built_fail "1.prems"(3) \<open>n \<notin> set (already_run b)\<close> d r \<open>ok1\<close> by auto
      qed
    next
      case False
      then show ?thesis using b1 built_fail "1.prems"(3) \<open>n \<notin> set (already_run b)\<close> d by auto
    qed
  qed
next
  case (2 os b)
  then show ?case by (auto simp: built_def progress_same)
next
  case (3 os d ds b)
  obtain ok1 b1 where d: "run_target os d b = (ok1, b1)" by fastforce
  have b1: "built os U {target_name d} b ok1 b1" using "3.IH"(1) [OF _ "3.prems"(2) d] "3.prems"(1) by auto
  show ?case
  proof (cases ok1)
    case True
    then have "built os U (target_name ` set ds) b1 ok b'"
      using "3.IH"(2) [OF d [symmetric]] "3.prems" b1 d by (auto simp: built_def)
    then show ?thesis using built_trans b1 True by fastforce
  next
    case False
    then show ?thesis using b1 built_fail "3.prems"(3) d by auto
  qed
next
  case (4 os b)
  then show ?case by (auto simp: built_def progress_same)
next
  case (5 os args shell ss b)
  obtain ok1 b1 where d: "run_command os args shell b = (ok1, b1)" by fastforce
  have b1: "built os U {} b ok1 b1" using progress_command [OF d] "5.prems"(2) by (simp add: built_def)
  show ?case
  proof (cases ok1)
    case True
    then have "built os U {} b1 ok b'" using "5.IH" [OF d [symmetric]] "5.prems" b1 d by (auto simp: built_def)
    then show ?thesis using built_trans [of os U "{}" b b1 "{}" ok b' "{}"] b1 True by simp
  next
    case False
    then show ?thesis using b1 "5.prems"(3) d by auto
  qed
next
  case (6 os t ss b)
  obtain ok1 b1 where d: "run_target os t b = (ok1, b1)" by fastforce
  have b1: "built os U {target_name t} b ok1 b1" using "6.IH"(1) [OF _ "6.prems"(2) d] "6.prems"(1) by auto
  show ?case
  proof (cases ok1)
    case True
    then have "built os U {} b1 ok b'" using "6.IH"(2) [OF d [symmetric]] "6.prems" b1 d by (auto simp: built_def)
    then show ?thesis using built_trans [of os U "{target_name t}" b b1 "{}" ok b' "{}"] b1 True by simp
  next
    case False
    then show ?thesis using b1 built_fail "6.prems"(3) d by auto
  qed
next
  case (7 os m ss b)
  then show ?case by auto
qed

text \<open>A target that has run is not run again.\<close>

lemma run_again: "target_name t \<in> set (already_run b) \<Longrightarrow> run_target os t b = (True, b)"
  by (cases t) simp

section \<open>Properties\<close>

text \<open>
  C40. Running a target, from a script that has just started: every target is completed at most once and after its
  dependencies; commands are started until the first that does not succeed, which ends the script; and if all succeed
  the target has been completed and running it again starts nothing.
\<close>

theorem build_in_order:
  assumes "named_apart (reach t)" and "run_target os t \<lparr>already_run = [], started = []\<rparr> = (ok, b)"
  shows "deps_first (reach t) (already_run b) \<and>
    (if ok then list_all (\<lambda>c. os c = Succeeds) (started b) \<and> target_name t \<in> set (already_run b) \<and>
       run_target os t b = (True, b)
     else started b \<noteq> [] \<and> list_all (\<lambda>c. os c = Succeeds) (butlast (started b)) \<and> os (last (started b)) \<noteq> Succeeds)"
proof -
  have "built os (reach t) {target_name t} \<lparr>already_run = [], started = []\<rparr> ok b"
    by (rule run_built(1) [OF assms(1) _ _ assms(2)]) (simp_all add: deps_first_def)
  then show ?thesis by (auto simp: built_def progress_def run_again)
qed

lemma named_apart_distinct: "distinct (map target_name ts) \<Longrightarrow> named_apart (set ts)"
  by (auto simp: named_apart_def distinct_map inj_on_def)

lemma test_names_distinct:
  "distinct [''test'', ''slices_sanitized_test'', ''mock_test'', ''slices_powerpc_test'', ''mock_powerpc_test'', ''codegen'', ''mock'',
     ''mock_check'', ''mock_powerpc'', ''mock_powerpc_check'']"
  by simp

lemma test_named_apart: "named_apart (reach (test True e))"
proof -
  have "reach (test True e) = set [test True e, slices_sanitized_test e, mock_test e, slices_powerpc_test e, mock_powerpc_test e,
      codegen e, mock e, mock_check e, mock_powerpc e, mock_powerpc_check e]"
    by (auto simp: test_def slices_sanitized_test_def mock_test_def slices_powerpc_test_def mock_powerpc_test_def codegen_def
        mock_def mock_check_def mock_powerpc_def mock_powerpc_check_def)
  moreover have "map target_name [test True e, slices_sanitized_test e, mock_test e, slices_powerpc_test e, mock_powerpc_test e,
      codegen e, mock e, mock_check e, mock_powerpc e, mock_powerpc_check e] =
      [''test'', ''slices_sanitized_test'', ''mock_test'', ''slices_powerpc_test'', ''mock_powerpc_test'', ''codegen'', ''mock'',
       ''mock_check'', ''mock_powerpc'', ''mock_powerpc_check'']"
    by (simp add: test_def slices_sanitized_test_def mock_test_def slices_powerpc_test_def mock_powerpc_test_def codegen_def
        mock_def mock_check_def mock_powerpc_def mock_powerpc_check_def)
  ultimately show ?thesis using named_apart_distinct by (metis test_names_distinct)
qed

theorem build_in_order_witness:
  "\<exists>ok b. run_target (\<lambda>_. Succeeds) (test True \<lparr>CC = ''gcc'', CC_PPC = ''powerpc-linux-gnu-gcc'', PYTHON = ''python''\<rparr>)
      \<lparr>already_run = [], started = []\<rparr> = (ok, b) \<and>
    deps_first (reach (test True \<lparr>CC = ''gcc'', CC_PPC = ''powerpc-linux-gnu-gcc'', PYTHON = ''python''\<rparr>)) (already_run b)"
proof -
  obtain ok b where "run_target (\<lambda>_. Succeeds) (test True \<lparr>CC = ''gcc'', CC_PPC = ''powerpc-linux-gnu-gcc'', PYTHON = ''python''\<rparr>)
      \<lparr>already_run = [], started = []\<rparr> = (ok, b)" by fastforce
  from build_in_order [OF test_named_apart this] this show ?thesis by auto
qed

text \<open>
  On Linux, when all commands succeed, the default target completes ten targets in this order and starts these
  commands: the code is generated once for all of them, and each check of a mock is \<^verbatim>\<open>/bin/sh -c echo\<close> with the rest of the
  list as an argument, so that the command line with the mock is never run.
\<close>

lemma test_run:
  "\<exists>b. run_target (\<lambda>_. Succeeds) (test True e) \<lparr>already_run = [], started = []\<rparr> = (True, b) \<and>
    already_run b = [''codegen'', ''slices_sanitized_test'', ''mock'', ''mock_check'', ''mock_test'', ''slices_powerpc_test'',
      ''mock_powerpc'', ''mock_powerpc_check'', ''mock_powerpc_test'', ''test''] \<and>
    started b =
      [[PYTHON e, ''protocol_def.py''],
       CC e # CFLAGS @ CFLAGS_SANITIZED @ slice_sources, [''./test_slice''],
       CC e # CFLAGS @ [''-o'', ''mock/compost_mock''] @ mock_sources,
       [''/bin/sh'', ''-c'', ''echo'', ''\"00 01 02 03\" | xxd -r -p | ./mock/compost_mock > /dev/null\"''],
       test_compost e ''./mock/compost_mock'',
       CC_PPC e # CFLAGS @ CFLAGS_POWERPC @ slice_sources, [''qemu-ppc'', ''./test_slice''],
       CC_PPC e # CFLAGS @ CFLAGS_POWERPC @ [''-o'', ''mock/compost_mock_ppc''] @ mock_sources,
       [''/bin/sh'', ''-c'', ''echo'', ''\"00 01 02 03\" | xxd -r -p | qemu-ppc ./mock/compost_mock_ppc > /dev/null\"''],
       test_compost e ''qemu-ppc ./mock/compost_mock_ppc'']"
  by (simp add: test_def slices_sanitized_test_def mock_test_def slices_powerpc_test_def mock_powerpc_test_def codegen_def
      mock_def mock_check_def mock_powerpc_def mock_powerpc_check_def run_command_def argv_def mark_def)

end
