(* ===== verification/Version.thy ===== *)
theory Version
  imports BuildScript Names
begin

text \<open>
  The target \<^verbatim>\<open>version\<close> of \<^verbatim>\<open>x.py\<close>, which writes the version found by an external program into the source of the library, and
  the command line of the script.  The fields of the program's output are a parameter.
\<close>

section \<open>Replacing the version\<close>

text \<open>The fields of the decoded output that the script reads, the number as the text that an f-string makes of it.\<close>

record gitversion =
  MajorMinorPatch :: string
  PreReleaseLabel :: string
  PreReleaseNumber :: string

definition python_version :: "gitversion \<Rightarrow> string" where
  "python_version ver =
     MajorMinorPatch ver @ (if PreReleaseLabel ver \<noteq> [] then ''.'' @ PreReleaseLabel ver @ PreReleaseNumber ver else [])"

text \<open>
  The pattern \<^verbatim>\<open>^__version__\s*=.*$\<close> at a position that begins a line: what follows the match.  White space may span lines,
  the dot does not.
\<close>

definition version_match :: "string \<Rightarrow> string option" where
  "version_match s =
     (if take 11 s = ''__version__'' then
        (case dropWhile isspace (drop 11 s) of
           [] \<Rightarrow> None
         | c # cs \<Rightarrow> if c = CHR ''='' then Some (dropWhile (\<lambda>c. c \<noteq> CHR ''\<newline>'') cs) else None)
      else None)"

lemma version_match_shorter:
  assumes "version_match s = Some r" shows "length r < length s"
proof -
  obtain c cs where c: "dropWhile isspace (drop 11 s) = c # cs" "r = dropWhile (\<lambda>c. c \<noteq> CHR ''\<newline>'') cs"
    using assms by (auto simp: version_match_def split: if_splits list.splits)
  have "length r \<le> length cs" using c(2) by (simp add: length_dropWhile_le)
  moreover have "length (c # cs) \<le> length s" using c(1) length_dropWhile_le [of isspace "drop 11 s"] by simp
  ultimately show ?thesis by simp
qed

text \<open>
  \<^verbatim>\<open>re.sub\<close> in multi-line mode with a replacement that has no backslash: all matches from the left, where \<open>bol\<close> tells whether
  the position begins a line.
\<close>

function re_sub :: "string \<Rightarrow> bool \<Rightarrow> string \<Rightarrow> string" where
  "re_sub new bol s =
     (case (if bol then version_match s else None) of
        Some r \<Rightarrow> new @ re_sub new False r
      | None \<Rightarrow> (case s of [] \<Rightarrow> [] | c # cs \<Rightarrow> c # re_sub new (c = CHR ''\<newline>'') cs))"
  by pat_completeness auto
termination by (relation "measure (\<lambda>(new, bol, s). length s)") (auto split: if_splits dest: version_match_shorter)

declare re_sub.simps [simp del]

definition version_text :: "string \<Rightarrow> string" where
  "version_text v = ''__version__ = \"'' @ v @ ''\"''"

definition set_version :: "string \<Rightarrow> string \<Rightarrow> string" where
  "set_version v content = re_sub (version_text v) True content"

section \<open>The target and the command line\<close>

text \<open>The text of the library's source is part of the state; the target has no dependencies.\<close>

definition version_body :: "(string list \<Rightarrow> outcome) \<Rightarrow> gitversion \<Rightarrow> string \<Rightarrow> build \<Rightarrow> bool \<times> string \<times> build" where
  "version_body os ver content b =
     (case run_command os [''dotnet-gitversion''] False b of
        (False, b) \<Rightarrow> (False, content, b)
      | (True, b) \<Rightarrow>
          let v = python_version ver in
          (case run_command os [''uv'', ''version'', v] False b of (ok, b) \<Rightarrow> (ok, set_version v content, b)))"

definition version_target :: "(string list \<Rightarrow> outcome) \<Rightarrow> gitversion \<Rightarrow> string \<Rightarrow> build \<Rightarrow> bool \<times> string \<times> build" where
  "version_target os ver content b =
     (if ''version'' \<in> set (already_run b) then (True, content, b)
      else
        (case version_body os ver content b of
           (False, content, b) \<Rightarrow> (False, content, b)
         | (True, content, b) \<Rightarrow> (True, content, b\<lparr>already_run := mark ''version'' (already_run b)\<rparr>)))"

text \<open>The other targets, in the order in which the decorator registers them.\<close>

definition targets :: "bool \<Rightarrow> tools \<Rightarrow> target list" where
  "targets linux e =
     [codegen e, slices_test e, slices_sanitized_test e, slices_powerpc_test e, mock e, mock_sanitized e, mock_check e, mock_test e,
      mock_powerpc e, mock_powerpc_check e, mock_powerpc_test e, mock_sanitized_check e, mock_sanitized_test e, test linux e,
      test_native e, test_powerpc e]"

text \<open>The exit status of the script: 2 for an argument that is no target, 1 after a failed command.\<close>

definition script :: "(string list \<Rightarrow> outcome) \<Rightarrow> gitversion \<Rightarrow> bool \<Rightarrow> tools \<Rightarrow> string option \<Rightarrow> string \<Rightarrow> nat \<times> string \<times> build" where
  "script os ver linux e arg content =
     (let n = (case arg of None \<Rightarrow> ''test'' | Some n \<Rightarrow> n); b = \<lparr>already_run = [], started = []\<rparr> in
      if n = ''version'' then
        (case version_target os ver content b of (ok, content, b) \<Rightarrow> (if ok then 0 else 1, content, b))
      else
        (case find (\<lambda>t. target_name t = n) (targets linux e) of
           None \<Rightarrow> (2, content, b)
         | Some t \<Rightarrow> (case run_target os t b of (ok, b) \<Rightarrow> (if ok then 0 else 1, content, b))))"

section \<open>The last version wins\<close>

lemma re_sub_Nil [simp]: "re_sub new bol [] = []"
  by (simp add: re_sub.simps version_match_def)

lemma re_sub_inside [simp]: "re_sub new False (c # cs) = c # re_sub new (c = CHR ''\<newline>'') cs"
  by (simp add: re_sub.simps)

text \<open>Within a line nothing is replaced.\<close>

lemma re_sub_line: "list_all (\<lambda>c. c \<noteq> CHR ''\<newline>'') p \<Longrightarrow> re_sub new False (p @ s) = p @ re_sub new False s"
  by (induction p) auto

lemma re_sub_takeWhile:
  "takeWhile (\<lambda>c. c \<noteq> CHR ''\<newline>'') (re_sub new False s) = takeWhile (\<lambda>c. c \<noteq> CHR ''\<newline>'') s"
  by (induction s) auto

text \<open>A replacement starts as its match does, so it does not change the first character.\<close>

lemma version_match_start: "version_match s = Some r \<Longrightarrow> \<exists>t. s = CHR ''_'' # t"
  by (cases s) (auto simp: version_match_def split: if_splits)

lemma re_sub_dropWhile:
  assumes "\<exists>t. new = CHR ''_'' # t"
  shows "take 1 (dropWhile isspace (re_sub new bol s)) = take 1 (dropWhile isspace s)"
proof (induction s arbitrary: bol)
  case (Cons c cs)
  have u: "\<not> isspace (CHR ''_'')" by (simp add: isspace_def)
  show ?case
  proof (cases "if bol then version_match (c # cs) else None")
    case None
    then show ?thesis using Cons.IH by (simp add: re_sub.simps [of new bol "c # cs"])
  next
    case (Some r)
    then have "c = CHR ''_''" using version_match_start by (fastforce split: if_splits)
    moreover have "re_sub new bol (c # cs) = new @ re_sub new False r" using Some by (simp add: re_sub.simps [of new bol "c # cs"])
    ultimately show ?thesis using u assms by auto
  qed
qed simp

lemma version_match_kept:
  assumes "\<exists>t. new = CHR ''_'' # t" and "version_match (c # cs) = None"
  shows "version_match (c # re_sub new (c = CHR ''\<newline>'') cs) = None"
proof (rule ccontr)
  assume "\<not> ?thesis"
  then obtain r where r: "version_match (c # re_sub new (c = CHR ''\<newline>'') cs) = Some r" by blast
  then have c: "c = CHR ''_''" using version_match_start by fastforce
  then have p: "take 10 (re_sub new False cs) = ''_version__''" using r by (auto simp: version_match_def split: if_splits)
  define u where "u = drop 10 (re_sub new False cs)"
  have u: "re_sub new False cs = ''_version__'' @ u" using append_take_drop_id [of 10 "re_sub new False cs"] p u_def by simp
  then have "takeWhile (\<lambda>c. c \<noteq> CHR ''\<newline>'') cs = ''_version__'' @ takeWhile (\<lambda>c. c \<noteq> CHR ''\<newline>'') u"
    using re_sub_takeWhile [of new cs] by simp
  then obtain u' where u': "cs = ''_version__'' @ u'" by (metis append.assoc takeWhile_dropWhile_id)
  have "u = re_sub new False u'" using u re_sub_line [of "''_version__''" new u'] u' by simp
  then have "take 1 (dropWhile isspace u) = take 1 (dropWhile isspace u')" using re_sub_dropWhile [OF assms(1)] by simp
  moreover have "take 1 (dropWhile isspace u) = ''=''"
    using r c u by (auto simp: version_match_def split: if_splits list.splits)
  ultimately show False using assms(2) c u' by (auto simp: version_match_def split: list.splits)
qed

lemma version_text_start: "\<exists>t. version_text v = CHR ''_'' # t"
  by (simp add: version_text_def)

lemma version_text_match:
  assumes "list_all (\<lambda>c. c \<noteq> CHR ''\<newline>'') v" and "s = [] \<or> (\<exists>t. s = CHR ''\<newline>'' # t)"
  shows "version_match (version_text v @ s) = Some s"
proof -
  have "dropWhile (\<lambda>c. c \<noteq> CHR ''\<newline>'') (v @ z) = dropWhile (\<lambda>c. c \<noteq> CHR ''\<newline>'') z" for z
    using assms(1) by (induction v) auto
  then show ?thesis using assms(2) by (auto simp: version_match_def version_text_def isspace_def)
qed

lemma version_match_rest:
  assumes "version_match s = Some r" shows "r = [] \<or> (\<exists>t. r = CHR ''\<newline>'' # t)"
proof (cases r)
  case (Cons x xs)
  obtain cs where "r = dropWhile (\<lambda>c. c \<noteq> CHR ''\<newline>'') cs"
    using assms by (auto simp: version_match_def split: if_splits list.splits)
  then show ?thesis using Cons hd_dropWhile [of "\<lambda>c. c \<noteq> CHR ''\<newline>''" cs] by (metis list.discI list.sel(1))
qed simp

lemma re_sub_twice:
  assumes "list_all (\<lambda>c. c \<noteq> CHR ''\<newline>'') w"
  shows "re_sub (version_text v) bol (re_sub (version_text w) bol s) = re_sub (version_text v) bol s"
proof (induction "length s" arbitrary: bol s rule: less_induct)
  case less
  note unf = re_sub.simps [of "version_text v" bol] re_sub.simps [of "version_text w" bol]
  show ?case
  proof (cases "if bol then version_match s else None")
    case (Some r)
    then have b: "bol" "version_match s = Some r" by (simp_all split: if_splits)
    have "r = [] \<or> (\<exists>t. r = CHR ''\<newline>'' # t)" by (rule version_match_rest [OF b(2)])
    then have "re_sub (version_text w) False r = [] \<or> (\<exists>t. re_sub (version_text w) False r = CHR ''\<newline>'' # t)" by auto
    then have "version_match (version_text w @ re_sub (version_text w) False r) = Some (re_sub (version_text w) False r)"
      by (rule version_text_match [OF assms])
    then show ?thesis using less.hyps [OF version_match_shorter [OF b(2)]] b unf by simp
  next
    case None
    show ?thesis
    proof (cases s)
      case (Cons c cs)
      have "(if bol then version_match (c # re_sub (version_text w) (c = CHR ''\<newline>'') cs) else None) = None"
        using None Cons version_match_kept [OF version_text_start] by (simp split: if_splits)
      moreover have "re_sub (version_text w) bol s = c # re_sub (version_text w) (c = CHR ''\<newline>'') cs"
        using None Cons unf(2) [of s] by simp
      ultimately show ?thesis using None Cons less.hyps [of cs] unf(1) [of "c # _"] by (simp split: if_splits)
    qed simp
  qed
qed

text \<open>Setting a version in a source whose version has been set gives what setting it in the first source gives.\<close>

lemma set_version_last: "list_all (\<lambda>c. c \<noteq> CHR ''\<newline>'') w \<Longrightarrow> set_version v (set_version w content) = set_version v content"
  by (simp add: set_version_def re_sub_twice)

lemma set_version_example:
  "set_version ''0.7.1'' ''import sys\<newline>__version__  =  0\<newline>x = 1\<newline>'' = ''import sys\<newline>__version__ = \"0.7.1\"\<newline>x = 1\<newline>''"
  by code_simp

text \<open>Only the target \<^verbatim>\<open>version\<close> changes the library's source, and only after the first command succeeded.\<close>

lemma script_keeps_source:
  assumes "script os ver linux e arg content = (n, content', b)" and "content' \<noteq> content"
  shows "arg = Some ''version'' \<and> os [''dotnet-gitversion''] = Succeeds \<and> content' = set_version (python_version ver) content"
  using assms
  by (auto simp: script_def version_target_def version_body_def run_command_def argv_def Let_def split: option.splits prod.splits
      if_splits bool.splits)

end
