(* ===== verification/Spec2Isabelle.thy ===== *)
theory Spec2Isabelle
  imports Conversation MockProtocol Pipeline Version
begin

text \<open>
  A verification development of Compost RPC (\<^verbatim>\<open>src/compost_rpc\<close>), a library for remote procedure
  calls between a Python host and a microcontroller that runs generated C code.

  \<^bold>\<open>The program.\<close>  A protocol is a Python class whose decorated functions are the procedures
  (\<^verbatim>\<open>rpc\<close>, \<^verbatim>\<open>notification\<close>); their annotations are numeric classes, bit fields, enumerations,
  strings, byte strings, lists and structures (\<^verbatim>\<open>enum\<close>, \<^verbatim>\<open>struct\<close>).  A call packs its arguments
  (\<^verbatim>\<open>pack_payload\<close>), puts them behind a four-byte header (\<^verbatim>\<open>Header\<close>, \<^verbatim>\<open>Msg\<close>), and sends the message
  over a transport.  A listener thread receives messages, runs the callbacks of notifications, and
  queues responses for the caller (\<^verbatim>\<open>_Session\<close>).  On the other side the C code made from
  \<^verbatim>\<open>lib/c/source_template.py\<close> and the code generator loads the header, dispatches to a handler
  and stores the response.

  \<^bold>\<open>The theories\<close>, in the order of the code:
  \<^item> \<^verbatim>\<open>Prelude\<close>: bytes, exceptions, the result monad in which fallible Python code is written,
    slices and assignment to slices of a \<^verbatim>\<open>memoryview\<close>, big-endian numbers.
  \<^item> \<^verbatim>\<open>Floats\<close>, \<^verbatim>\<open>Utf8\<close>, \<^verbatim>\<open>PyStruct\<close>: what the code uses of the standard library: binary32 and
    binary64 as bit patterns with rounding to nearest even, the UTF-8 codec with its errors,
    the Python values the codec meets, and \<^verbatim>\<open>struct.pack\<close> / \<^verbatim>\<open>struct.unpack_from\<close>.  The locale
    \<^verbatim>\<open>fixed_codec\<close> is the contract of a fixed-width element codec, interpreted on \<^verbatim>\<open>struct\<close>
    for every format.
  \<^item> \<^verbatim>\<open>BitU\<close>: \<^verbatim>\<open>MemUnit\<close> (a number of bits) and the class \<^verbatim>\<open>BitU\<close> with its packing and unpacking
    loops, specified bit by bit.  The locale \<^verbatim>\<open>bit_field\<close> is the contract of a store and a
    load of a field; \<^verbatim>\<open>bit_field_pair\<close> derives that two implementations agree.
  \<^item> \<^verbatim>\<open>Types\<close>: the numeric classes and their range checks, annotations (\<^verbatim>\<open>ctype\<close>), \<^verbatim>\<open>_validate_type\<close>,
    and the decorators \<^verbatim>\<open>struct\<close> (with the layout loop) and \<^verbatim>\<open>enum\<close>.
  \<^item> \<^verbatim>\<open>Payload\<close>: \<^verbatim>\<open>pack_payload\<close> and \<^verbatim>\<open>unpack_payload\<close> with every branch of \<^verbatim>\<open>_pack\<close> and
    \<^verbatim>\<open>_unpack\<close>.  Packing only appends to the buffer (\<^verbatim>\<open>appends\<close>); unpacking follows the packing
    offsets (\<^verbatim>\<open>tracks\<close>) as long as the types are \<^verbatim>\<open>in_step\<close>; together they give the round trip.
  \<^item> \<^verbatim>\<open>PayloadSize\<close>: the size of a payload, and that packing succeeds exactly when it fits 1024 bytes.
  \<^item> \<^verbatim>\<open>PayloadShift\<close>: packing is local: what is packed depends on nothing around it, so that a payload can be compared with
    what the same values are packed to in the middle of C memory, where the padding bits are kept (\<^verbatim>\<open>data_bits\<close>).
  \<^item> \<^verbatim>\<open>Message\<close>: \<^verbatim>\<open>_ceiling_division\<close>, \<^verbatim>\<open>Header\<close>, \<^verbatim>\<open>Msg\<close>, \<^verbatim>\<open>PayloadSerdes\<close>.
  \<^item> \<^verbatim>\<open>Transport\<close>: the six transports.  The locale \<^verbatim>\<open>byte_source\<close> is what the reading loops need
    of a stream; \<^verbatim>\<open>frame_link\<close> is the contract of the transports that put one message into one
    frame, interpreted on UDP, raw Ethernet and CAN FD.
  \<^item> \<^verbatim>\<open>Session\<close>: \<^verbatim>\<open>Rpc\<close>, \<^verbatim>\<open>Endpoint\<close>, the decorators \<^verbatim>\<open>rpc\<close> and \<^verbatim>\<open>notification\<close>, registration with
    \<^verbatim>\<open>Protocol\<close>, and \<^verbatim>\<open>_Session\<close>.  The functions \<^verbatim>\<open>Session_rpc\<close> and \<^verbatim>\<open>Rpc_call\<close> are whole calls, given
    what arrives while the caller waits; the relation \<^verbatim>\<open>sstep\<close> interleaves caller and
    listener, and the locale \<^verbatim>\<open>invariant_of\<close> carries its invariants.
  \<^item> \<^verbatim>\<open>CBits\<close>, \<^verbatim>\<open>CMemory\<close>, \<^verbatim>\<open>CSlice\<close>, \<^verbatim>\<open>CRuntime\<close>: the C code of the template at the widths of its
    types: bit fields; loads and stores of numbers in a byte memory; slices, the allocator and the
    string helpers (the locale \<^verbatim>\<open>region_allocator\<close> is the contract of an allocator that hands out
    disjoint blocks, interpreted on \<^verbatim>\<open>compost_alloc_next\<close>); header access,
    \<^verbatim>\<open>compost_invoke_switch\<close> and \<^verbatim>\<open>compost_msg_process\<close>.  Assertions are off, as in a release build.  Undefined
    behaviour, which is an access outside of the memory, \<^verbatim>\<open>memcpy\<close> on regions that overlap and a string without a
    terminator, is the outcome \<^verbatim>\<open>None\<close>, and the theorems show that it does not occur.
  \<^item> \<^verbatim>\<open>Names\<close>: the string buffer \<^verbatim>\<open>_String\<close> and the conversions \<^verbatim>\<open>_scase\<close>, \<^verbatim>\<open>_pcase\<close>, \<^verbatim>\<open>_ccase\<close>.
  \<^item> \<^verbatim>\<open>CGen\<close>: the C code generator as far as it decides what the generated code does: features and
    endpoint validation, the type map, and the \<^verbatim>\<open>store\<close> and \<^verbatim>\<open>load\<close> functions of structures, as
    statements and as text.
  \<^item> \<^verbatim>\<open>CSerdes\<close>, \<^verbatim>\<open>CStructs\<close>: the execution of these functions (\<^verbatim>\<open>run\<close>), their correctness with respect
    to a direct access to the members (\<^verbatim>\<open>access\<close>), the round trip through memory, and the agreement
    with the Python codec.
  \<^item> \<^verbatim>\<open>CProtocol\<close>: the declarations, initialisers, handler signatures, \<^verbatim>\<open>invoke_...\<close> functions, the switch
    and the notification stores that the generator emits, as data (\<^verbatim>\<open>invoke_body\<close>, \<^verbatim>\<open>notif_body\<close>) and as text.
  \<^item> \<^verbatim>\<open>CInterop\<close>: a payload that Python packed, loaded by the C functions at any address of memory.
  \<^item> \<^verbatim>\<open>CInvoke\<close>, \<^verbatim>\<open>CNotify\<close>: the execution of the generated \<^verbatim>\<open>invoke_...\<close> functions, of the switch and of the
    stores of notifications; \<^verbatim>\<open>implements\<close> is the contract of a handler on C values.  One dictionary of
    store and load functions is shared by all functions of a file (\<^verbatim>\<open>all_ok\<close>, \<^verbatim>\<open>extends\<close>).
  \<^item> \<^verbatim>\<open>Template\<close>, \<^verbatim>\<open>HeaderTemplate\<close>, \<^verbatim>\<open>CSource\<close>, \<^verbatim>\<open>CSharp\<close>: the substitution into the C templates, the assembly of their
    contents for the slice types and the generic macros; the three texts of \<^verbatim>\<open>lib/c/header_template.py\<close>, cut at their holes; the files that the generators for C and C# return, with the state that the
    generator for C keeps between two calls.
  \<^item> \<^verbatim>\<open>Examples\<close>, \<^verbatim>\<open>MockProtocol\<close>: the protocols that come with the library and with its tests, the handler of the example
    with two hosts and one of the device mock.  \<^verbatim>\<open>protocol_ready\<close> is what has to be computed of a protocol before its
    procedures can be called.
  \<^item> \<^verbatim>\<open>Generator\<close>, \<^verbatim>\<open>Pipeline\<close>: the class \<^verbatim>\<open>Generator\<close>: the cache of outputs, the conflict check and the prompt
    before files are overwritten; the relation \<^verbatim>\<open>gen_reachable\<close> carries its invariant.  \<^verbatim>\<open>Pipeline\<close> is a whole \<^verbatim>\<open>with\<close>
    block over it, with the settings of both generators and their real output.
  \<^item> \<^verbatim>\<open>Network\<close>, \<^verbatim>\<open>Conversation\<close>: calls over a transport.  The locale \<^verbatim>\<open>link_pair\<close> joins two \<^verbatim>\<open>frame_link\<close>s, one for each
    direction, with a device that runs the generated code as \<^verbatim>\<open>examples/pc_to_pc/main.c\<close> does (\<^verbatim>\<open>device\<close>); it is
    interpreted on UDP, raw Ethernet and CAN FD.  \<^verbatim>\<open>conversation\<close> runs a list of calls on a session and a transmit
    buffer that persist.
  \<^item> \<^verbatim>\<open>BuildScript\<close>, \<^verbatim>\<open>Version\<close>: \<^verbatim>\<open>x.py\<close>: the targets, their dependencies and commands, the rewriting of the version in
    the source of the library, and the command line.

  \<^bold>\<open>What is proved.\<close>  Round trips at every level (bits, numbers, strings, payloads, headers,
  messages, frames, and structures in C memory); the exact size limits; that both implementations
  agree on bit fields, numbers, lists, structures and headers; that the code generator emits
  functions that compute the access to the members, and only calls functions it defines; that blocks
  of the allocator are disjoint; that no file is overwritten without consent, and which files are written; that messages pass
  unchanged through every transport under its documented contract;
  that a call returns the value the remote side computed, through the whole stack from \<^verbatim>\<open>Rpc.__call__\<close>
  over \<^verbatim>\<open>compost_msg_process\<close>, the generated switch, the generated loads of the arguments, the handler and the
  generated store of the result back to the caller; for the example with two hosts this is the sum of
  the arguments modulo \<open>2 ^ 32\<close>, for the device mock of the tests the sum of a list; that every procedure with a result of
  the example protocol can be called; that a notification stored by the generated code reaches the subscribers, and one
  sent by Python reaches the handler and is not answered; that both generators return their files for every supported protocol, and that a \<^verbatim>\<open>with\<close> block writes exactly these
  files; that the header file is its three texts with all holes filled, the slice interface for all ten element types
  among them; that calls over UDP, raw Ethernet, CAN FD and TCP return, with the padding that the first three add, and so
  does every call of a conversation of any length; the invariant of the session under every interleaving; that the build
  script completes each target once and after its dependencies, and that setting a version overrides an earlier one.  Several theorems state faults of the code: structures in structures cannot be
  packed, a bit field behind a number is read from the wrong bits when the bit field before the number does not end at a byte, a TCP header in
  three pieces is lost,
  one late response puts a session out of step for good, the allocator of a structure response
  starts too late and runs over its buffer, the size of a new slice wraps at 16 bits, a second
  \<^verbatim>\<open>with\<close> block over a generator refuses the files of the first, two endpoints cannot be generated into the same files, and a second call of the generator for C declares
  all types again.

  \<^bold>\<open>Bounds.\<close>  No fuel is used.  The loops are total functions with termination proofs, except
  the sending loop of the serial port, whose end depends on the third-party port and is
  proved from its contract.  Waiting is not modelled in time: an empty queue at the moment of
  \<^verbatim>\<open>q.get\<close> is a timeout, and an empty datagram queue blocks, which is \<^verbatim>\<open>None\<close>.  C pointers are
  indices of one byte memory; the arrays of the application lie outside of it, so that an overlap of an array with a slice
  is only seen in the comparison of their pointers; the theorems on bit fields and structures bound the field by \<open>2 ^ 32\<close>
  bits, where the C offsets of 32 bits wrap.  Whether \<^verbatim>\<open>memcpy\<close> tolerates two identical regions
  is a parameter (\<open>self\<close>), since the C standard leaves it undefined and the generated code relies on it.

  \<^bold>\<open>What is not modelled.\<close>  Logging, coloured output, messages on the terminal and \<^verbatim>\<open>__repr__\<close>; opening and closing
  sockets, ports and processes, and errors of the operating system other than those a transport raises into the session;
  the UUID and the time of a generation, and the documentation strings of procedures, which are parameters; the text of
  \<^verbatim>\<open>lib/c/source_template.py\<close>, which is a parameter of the substitution, while the C functions in it are modelled one by
  one;
  the function \<^verbatim>\<open>main\<close>, which prints which optional packages are installed; the meaning of the generated C# text and the C#
  runtime, which are another language; the socket code of \<^verbatim>\<open>main.c\<close> around the device loop; the settings in
  \<^verbatim>\<open>docs/conf.py\<close> and the scripts \<^verbatim>\<open>example_script.py\<close> and \<^verbatim>\<open>examples/pc_to_pc/main.py\<close>, which only call the library; the
  external programs that \<^verbatim>\<open>x.py\<close> starts, which are a parameter.  The names of the generators, the
  documentation strings and the source that \<^verbatim>\<open>x.py\<close> rewrites are modelled for ASCII text, and paths of generated files as strings
  that are joined with a slash, without the normalisation of \<^verbatim>\<open>Path\<close>.  One request of the device loop is given the whole
  datagram with its padding, where the loop passes on the length that the message announces.
\<close>

end
